(* ===== verification/Prelude.thy ===== *)
theory Prelude
  imports Main "HOL-Library.Word" "HOL-Library.Monad_Syntax" "HOL-Library.Signed_Division"
begin

text \<open>
  Shared vocabulary of the development: the widths of the C integer types, the error
  numbers, the little-endian byte order in which structures lie in memory and in files,
  and the generic lemmas on lists, options and words the components rely on.

  An execution that C leaves undefined or that aborts (a dangling or null pointer, a
  division by zero, a failed \<^verbatim>\<open>assert\<close>) is the value \<^term>\<open>None\<close> of the option monad;
  the negative \<^verbatim>\<open>errno\<close> results of the code are ordinary integer results.
\<close>

unbundle bit_operations_syntax

section \<open>Machine types and error numbers\<close>

type_synonym byte = "8 word"
type_synonym u16 = "16 word"
type_synonym u32 = "32 word"
type_synonym u64 = "64 word"

abbreviation (input) ENOENT :: int where "ENOENT \<equiv> 2"
abbreviation (input) EBADF :: int where "EBADF \<equiv> 9"
abbreviation (input) EAGAIN :: int where "EAGAIN \<equiv> 11"
abbreviation (input) ENOMEM :: int where "ENOMEM \<equiv> 12"
abbreviation (input) EINVAL :: int where "EINVAL \<equiv> 22"
abbreviation (input) EFBIG :: int where "EFBIG \<equiv> 27"
abbreviation (input) INT_MAX :: int where "INT_MAX \<equiv> 2147483647"

section \<open>Collections of simplification rules\<close>

named_theorems le_simps \<open>little-endian encoding and decoding\<close>
named_theorems option_run \<open>running programs of the option monad\<close>

lemmas [option_run] = Option.bind_eq_Some_conv

section \<open>Little-endian byte order\<close>

definition le16 :: "u16 \<Rightarrow> byte list" where
  "le16 w = [ucast w, ucast (drop_bit 8 w)]"

definition le32 :: "u32 \<Rightarrow> byte list" where
  "le32 w = [ucast w, ucast (drop_bit 8 w), ucast (drop_bit 16 w), ucast (drop_bit 24 w)]"

definition un_le16 :: "byte list \<Rightarrow> u16" where
  "un_le16 bs = ucast (bs ! 0) OR push_bit 8 (ucast (bs ! 1))"

definition un_le32 :: "byte list \<Rightarrow> u32" where
  "un_le32 bs = ucast (bs ! 0) OR push_bit 8 (ucast (bs ! 1)) OR
     push_bit 16 (ucast (bs ! 2)) OR push_bit 24 (ucast (bs ! 3))"

lemma length_le16 [simp, le_simps]: "length (le16 w) = 2"
  by (simp add: le16_def)

lemma length_le32 [simp, le_simps]: "length (le32 w) = 4"
  by (simp add: le32_def)

lemma un_le16_le16 [le_simps]: "un_le16 (le16 w @ rest) = w"
  unfolding un_le16_def le16_def
  by (rule bit_word_eqI) (auto simp: bit_simps)

lemma un_le32_le32 [le_simps]: "un_le32 (le32 w @ rest) = w"
proof (rule bit_word_eqI)
  fix n
  assume "n < LENGTH(32)"
  then consider "n < 8" | "8 \<le> n" "n < 16" | "16 \<le> n" "n < 24" | "24 \<le> n" "n < 32"
    by fastforce
  then show "bit (un_le32 (le32 w @ rest)) n = bit w n"
    by cases (auto simp: un_le32_def le32_def bit_simps)
qed

text \<open>The same byte order on numbers, the form in which file formats are specified.\<close>

definition little_endian :: "nat \<Rightarrow> nat \<Rightarrow> byte list" where
  "little_endian k n = map (\<lambda>i. of_nat (n div 256 ^ i)) [0..<k]"

lemma length_little_endian [simp]: "length (little_endian k n) = k"
  by (simp add: little_endian_def)

lemma ucast_drop_of_nat:
  assumes "k + 8 \<le> LENGTH('a)"
  shows "ucast (drop_bit k (of_nat n :: 'a::len word)) = (of_nat (n div 2 ^ k) :: byte)"
  using assms by (intro bit_word_eqI) (auto simp: bit_simps drop_bit_eq_div [symmetric])

lemma le16_little_endian: "le16 (of_nat n) = little_endian 2 n"
  using ucast_drop_of_nat [of 0 n, where 'a = 16] ucast_drop_of_nat [of 8 n, where 'a = 16]
  by (simp add: le16_def little_endian_def upt_conv_Cons)

lemma le32_little_endian: "le32 (of_nat n) = little_endian 4 n"
  using ucast_drop_of_nat [of 0 n, where 'a = 32] ucast_drop_of_nat [of 8 n, where 'a = 32]
    ucast_drop_of_nat [of 16 n, where 'a = 32] ucast_drop_of_nat [of 24 n, where 'a = 32]
  by (simp add: le32_def little_endian_def upt_conv_Cons)

lemma word_xor_cancel: "(a XOR c = b XOR c) = (a = (b :: 'a::len word))"
  by (metis xor.assoc xor.right_neutral xor_self_eq)

lemma le32_inject: "le32 v = le32 w \<longleftrightarrow> v = w"
  by (metis append_Nil2 un_le32_le32)

lemma option_eqI: "(\<And>v. x = Some v \<longleftrightarrow> y = Some v) \<Longrightarrow> x = y"
  by (metis not_None_eq)

text \<open>Signed division on non-negative operands.\<close>

lemma sdiv_nonneg: "0 \<le> a \<Longrightarrow> 0 < b \<Longrightarrow> a sdiv b = a div (b :: int)"
  by (auto simp: signed_divide_int_def sgn_if)

end
