(* ===== verification/Backed_Block.thy ===== *)
theory Backed_Block
  imports Prelude
begin

text \<open>
  The queue of pending image blocks, \<^verbatim>\<open>libsparse/backed_block.c\<close>: a singly linked list of
  \<^verbatim>\<open>struct backed_block\<close> kept in ascending block order, with a cached pointer to the block
  queued last.

  The blocks live in an explicit store, because the code passes pointers to them around,
  frees them while merging and caches one of them: \<open>cells\<close> is the store of blocks, indexed
  by address, a freed cell holding \<^term>\<open>None\<close>; \<open>names\<close> is the store of the duplicated file
  names; \<open>avail\<close> counts the allocations that will still succeed.  Reading, writing or
  freeing through a dangling or null pointer is \<^term>\<open>None\<close>, as is a failed \<^verbatim>\<open>assert\<close> and a
  division by a zero block size.  A list walk is a partial function: it is \<^term>\<open>None\<close> on a
  cyclic list.  The list object itself is a value, so that its own \<^verbatim>\<open>free\<close> leaves no trace; file
  offsets are mathematical integers, which agrees with \<^verbatim>\<open>int64_t\<close> as long as the end of a block
  lies inside a file of less than \<open>2\<^sup>6\<^sup>3\<close> bytes.
\<close>

section \<open>The store\<close>

type_synonym addr = nat

datatype backed_block_type =
  BACKED_BLOCK_DATA | BACKED_BLOCK_FILE | BACKED_BLOCK_FD | BACKED_BLOCK_FILL

text \<open>
  The union of \<^verbatim>\<open>struct backed_block\<close>: a buffer (the bytes from the pointer on), a file name
  with an offset, a descriptor with an offset, a fill value.
\<close>

datatype bb_union = Data "byte list" | File "addr option" int | Fd int int | Fill u32

record bb_core =
  bb_block :: u32
  bb_len :: u32
  bb_src :: bb_union

record backed_block = bb_core +
  bb_next :: "addr option"

record bb_mem =
  cells :: "backed_block option list"
  names :: "string option list"
  avail :: nat

record backed_block_list =
  data_blocks :: "addr option"
  last_used :: "addr option"
  block_size :: u32

fun bb_type :: "bb_union \<Rightarrow> backed_block_type" where
  "bb_type (Data _) = BACKED_BLOCK_DATA"
| "bb_type (File _ _) = BACKED_BLOCK_FILE"
| "bb_type (Fd _ _) = BACKED_BLOCK_FD"
| "bb_type (Fill _) = BACKED_BLOCK_FILL"

definition load :: "bb_mem \<Rightarrow> addr \<Rightarrow> backed_block option" where
  "load m a = (if a < length (cells m) then cells m ! a else None)"

definition write_cell :: "bb_mem \<Rightarrow> addr \<Rightarrow> backed_block option \<Rightarrow> bb_mem" where
  "write_cell m a v = m\<lparr>cells := (cells m)[a := v]\<rparr>"

definition store :: "addr \<Rightarrow> backed_block \<Rightarrow> bb_mem \<Rightarrow> bb_mem option" where
  "store a b m = (case load m a of None \<Rightarrow> None | Some _ \<Rightarrow> Some (write_cell m a (Some b)))"

definition free_cell :: "addr \<Rightarrow> bb_mem \<Rightarrow> bb_mem option" where
  "free_cell a m = (case load m a of None \<Rightarrow> None | Some _ \<Rightarrow> Some (write_cell m a None))"

text \<open>\<^verbatim>\<open>malloc\<close> of a block with its first contents; \<^verbatim>\<open>strdup\<close>; \<^verbatim>\<open>free\<close> of a name, null included.\<close>

definition alloc_cell :: "backed_block \<Rightarrow> bb_mem \<Rightarrow> addr option \<times> bb_mem" where
  "alloc_cell b m = (if avail m = 0 then (None, m)
     else (Some (length (cells m)), m\<lparr>cells := cells m @ [Some b], avail := avail m - 1\<rparr>))"

definition strdup_name :: "string \<Rightarrow> bb_mem \<Rightarrow> addr option \<times> bb_mem" where
  "strdup_name s m = (if avail m = 0 then (None, m)
     else (Some (length (names m)), m\<lparr>names := names m @ [Some s], avail := avail m - 1\<rparr>))"

definition load_name :: "bb_mem \<Rightarrow> addr \<Rightarrow> string option" where
  "load_name m p = (if p < length (names m) then names m ! p else None)"

definition free_name :: "addr option \<Rightarrow> bb_mem \<Rightarrow> bb_mem option" where
  "free_name p m = (case p of None \<Rightarrow> Some m
     | Some q \<Rightarrow> (case load_name m q of None \<Rightarrow> None
        | Some _ \<Rightarrow> Some (m\<lparr>names := (names m)[q := None]\<rparr>)))"

text \<open>\<open>p->next = n\<close>\<close>

definition set_next :: "addr \<Rightarrow> addr option \<Rightarrow> bb_mem \<Rightarrow> bb_mem option" where
  "set_next p n m = do { b \<leftarrow> load m p; store p (b\<lparr>bb_next := n\<rparr>) m }"

section \<open>Accessors\<close>

definition backed_block_iter_new :: "backed_block_list \<Rightarrow> addr option" where
  "backed_block_iter_new bbl = data_blocks bbl"

definition backed_block_iter_next :: "bb_mem \<Rightarrow> addr \<Rightarrow> addr option option" where
  "backed_block_iter_next m bb = do { b \<leftarrow> load m bb; Some (bb_next b) }"

definition backed_block_len :: "bb_mem \<Rightarrow> addr \<Rightarrow> u32 option" where
  "backed_block_len m bb = do { b \<leftarrow> load m bb; Some (bb_len b) }"

definition backed_block_block :: "bb_mem \<Rightarrow> addr \<Rightarrow> u32 option" where
  "backed_block_block m bb = do { b \<leftarrow> load m bb; Some (bb_block b) }"

definition backed_block_type_of :: "bb_mem \<Rightarrow> addr \<Rightarrow> backed_block_type option" where
  "backed_block_type_of m bb = do { b \<leftarrow> load m bb; Some (bb_type (bb_src b)) }"

definition backed_block_data :: "bb_mem \<Rightarrow> addr \<Rightarrow> byte list option" where
  "backed_block_data m bb = do { b \<leftarrow> load m bb;
     case bb_src b of Data d \<Rightarrow> Some d | _ \<Rightarrow> None }"

definition backed_block_filename :: "bb_mem \<Rightarrow> addr \<Rightarrow> addr option option" where
  "backed_block_filename m bb = do { b \<leftarrow> load m bb;
     case bb_src b of File n _ \<Rightarrow> Some n | _ \<Rightarrow> None }"

definition backed_block_fd :: "bb_mem \<Rightarrow> addr \<Rightarrow> int option" where
  "backed_block_fd m bb = do { b \<leftarrow> load m bb;
     case bb_src b of Fd fd _ \<Rightarrow> Some fd | _ \<Rightarrow> None }"

definition backed_block_file_offset :: "bb_mem \<Rightarrow> addr \<Rightarrow> int option" where
  "backed_block_file_offset m bb = do { b \<leftarrow> load m bb;
     case bb_src b of File _ off \<Rightarrow> Some off | Fd _ off \<Rightarrow> Some off | _ \<Rightarrow> None }"

definition backed_block_fill_val :: "bb_mem \<Rightarrow> addr \<Rightarrow> u32 option" where
  "backed_block_fill_val m bb = do { b \<leftarrow> load m bb;
     case bb_src b of Fill v \<Rightarrow> Some v | _ \<Rightarrow> None }"

section \<open>Creation and destruction\<close>

definition backed_block_destroy :: "addr \<Rightarrow> bb_mem \<Rightarrow> bb_mem option" where
  "backed_block_destroy bb m = do {
     b \<leftarrow> load m bb;
     m \<leftarrow> (case bb_src b of File n _ \<Rightarrow> free_name n m | _ \<Rightarrow> Some m);
     free_cell bb m }"

text \<open>
  \<^verbatim>\<open>backed_block_list_new\<close> writes through the result of \<^verbatim>\<open>calloc\<close> without a test: an
  exhausted allocator is a null dereference.
\<close>

definition backed_block_list_new :: "u32 \<Rightarrow> bb_mem \<Rightarrow> (backed_block_list \<times> bb_mem) option" where
  "backed_block_list_new bs m = (if avail m = 0 then None
     else Some (\<lparr>data_blocks = None, last_used = None, block_size = bs\<rparr>,
       m\<lparr>avail := avail m - 1\<rparr>))"

partial_function (option) destroy_from :: "addr option \<Rightarrow> bb_mem \<Rightarrow> bb_mem option" where
  "destroy_from bb m = (case bb of None \<Rightarrow> Some m
     | Some a \<Rightarrow> do {
         b \<leftarrow> load m a;
         m \<leftarrow> backed_block_destroy a m;
         destroy_from (bb_next b) m })"

declare destroy_from.simps [code]

definition backed_block_list_destroy :: "backed_block_list \<Rightarrow> bb_mem \<Rightarrow> bb_mem option" where
  "backed_block_list_destroy bbl m = destroy_from (data_blocks bbl) m"

section \<open>Moving a run of blocks to another list\<close>

text \<open>The three walks of \<^verbatim>\<open>backed_block_list_move\<close>.\<close>

partial_function (option) list_end :: "bb_mem \<Rightarrow> addr \<Rightarrow> addr option" where
  "list_end m e = do { b \<leftarrow> load m e;
     case bb_next b of None \<Rightarrow> Some e | Some n \<Rightarrow> list_end m n }"

declare list_end.simps [code]

partial_function (option) find_pred :: "bb_mem \<Rightarrow> addr option \<Rightarrow> addr \<Rightarrow> addr option option" where
  "find_pred m bb start = (case bb of None \<Rightarrow> Some None
     | Some a \<Rightarrow> do { b \<leftarrow> load m a;
         if bb_next b = Some start then Some (Some a)
         else find_pred m (bb_next b) start })"

declare find_pred.simps [code]

partial_function (option) find_slot :: "bb_mem \<Rightarrow> addr \<Rightarrow> u32 \<Rightarrow> addr option" where
  "find_slot m a blk = do { b \<leftarrow> load m a;
     case bb_next b of None \<Rightarrow> Some a
     | Some n \<Rightarrow> do { nb \<leftarrow> load m n;
         if bb_block nb > blk then Some a else find_slot m n blk } }"

declare find_slot.simps [code]

definition unlink_run ::
  "backed_block_list \<Rightarrow> addr \<Rightarrow> addr \<Rightarrow> bb_mem \<Rightarrow> (backed_block_list \<times> bb_mem) option" where
  "unlink_run frm start end_bb m = do {
     e \<leftarrow> load m end_bb;
     if data_blocks frm = Some start then Some (frm\<lparr>data_blocks := bb_next e\<rparr>, m)
     else do {
       p \<leftarrow> find_pred m (data_blocks frm) start;
       case p of None \<Rightarrow> Some (frm, m)
       | Some bb \<Rightarrow> do { m \<leftarrow> set_next bb (bb_next e) m; Some (frm, m) } } }"

definition link_run ::
  "backed_block_list \<Rightarrow> addr \<Rightarrow> addr \<Rightarrow> bb_mem \<Rightarrow> (backed_block_list \<times> bb_mem) option" where
  "link_run to start end_bb m = (case data_blocks to of
       None \<Rightarrow> do { m \<leftarrow> set_next end_bb None m; Some (to\<lparr>data_blocks := Some start\<rparr>, m) }
     | Some t \<Rightarrow> do {
         s \<leftarrow> load m start;
         bb \<leftarrow> find_slot m t (bb_block s);
         b \<leftarrow> load m bb;
         m \<leftarrow> set_next end_bb (bb_next b) m;
         m \<leftarrow> set_next bb (Some start) m;
         Some (to, m) })"

definition backed_block_list_move ::
  "backed_block_list \<Rightarrow> backed_block_list \<Rightarrow> addr option \<Rightarrow> addr option \<Rightarrow> bb_mem
    \<Rightarrow> (backed_block_list \<times> backed_block_list \<times> bb_mem) option" where
  "backed_block_list_move frm to start end_bb m = do {
     let start = (case start of None \<Rightarrow> data_blocks frm | Some s \<Rightarrow> Some s);
     end_bb \<leftarrow> (case (end_bb, start) of
         (Some e, _) \<Rightarrow> Some (Some e)
       | (None, None) \<Rightarrow> Some None
       | (None, Some s) \<Rightarrow> do { e \<leftarrow> list_end m s; Some (Some e) });
     case (start, end_bb) of
       (Some s, Some e) \<Rightarrow> do {
         (frm, m) \<leftarrow> unlink_run (frm\<lparr>last_used := None\<rparr>) s e m;
         (to, m) \<leftarrow> link_run (to\<lparr>last_used := None\<rparr>) s e m;
         Some (frm, to, m) }
     | _ \<Rightarrow> Some (frm, to, m) }"

section \<open>Queueing and merging\<close>

text \<open>The \<^verbatim>\<open>switch\<close> of \<^verbatim>\<open>merge_bb\<close>: whether the two sources continue each other.\<close>

fun bb_src_continues :: "u32 \<Rightarrow> bb_union \<Rightarrow> bb_union \<Rightarrow> bool" where
  "bb_src_continues len (Data _) _ = False"
| "bb_src_continues len (Fill v) (Fill w) = (v = w)"
| "bb_src_continues len (File n off) (File n' off') = (n = n' \<and> off + uint len = off')"
| "bb_src_continues len (Fd fd off) (Fd fd' off') = (fd = fd' \<and> off + uint len = off')"
| "bb_src_continues len _ _ = False"

definition merge_bb ::
  "backed_block_list \<Rightarrow> addr option \<Rightarrow> addr option \<Rightarrow> bb_mem \<Rightarrow> (int \<times> bb_mem) option" where
  "merge_bb bbl a b m = (case (a, b) of
     (Some a, Some b) \<Rightarrow> do {
       ab \<leftarrow> load m a;
       bb \<leftarrow> load m b;
       if \<not> bb_block ab < bb_block bb then None
       else if bb_type (bb_src ab) \<noteq> bb_type (bb_src bb) then Some (- EINVAL, m)
       else if block_size bbl = 0 then None
       else if bb_block ab + bb_len ab div block_size bbl \<noteq> bb_block bb then Some (- EINVAL, m)
       else if \<not> bb_src_continues (bb_len ab) (bb_src ab) (bb_src bb) then Some (- EINVAL, m)
       else do {
         m \<leftarrow> store a (ab\<lparr>bb_len := bb_len ab + bb_len bb, bb_next := bb_next bb\<rparr>) m;
         m \<leftarrow> backed_block_destroy b m;
         Some (0, m) } }
   | _ \<Rightarrow> Some (- EINVAL, m))"

partial_function (option) queue_pos :: "bb_mem \<Rightarrow> addr \<Rightarrow> u32 \<Rightarrow> addr option" where
  "queue_pos m bb blk = do { b \<leftarrow> load m bb;
     case bb_next b of None \<Rightarrow> Some bb
     | Some n \<Rightarrow> do { nb \<leftarrow> load m n;
         if bb_block nb < blk then queue_pos m n blk else Some bb } }"

declare queue_pos.simps [code]

definition queue_start :: "backed_block_list \<Rightarrow> addr \<Rightarrow> u32 \<Rightarrow> bb_mem \<Rightarrow> addr option" where
  "queue_start bbl head blk m = (case last_used bbl of None \<Rightarrow> Some head
     | Some lu \<Rightarrow> do { l \<leftarrow> load m lu; Some (if blk > bb_block l then lu else head) })"

text \<open>The new block is linked in between \<open>bb\<close> and its successor.\<close>

definition queue_link :: "addr \<Rightarrow> addr \<Rightarrow> bb_mem \<Rightarrow> bb_mem option" where
  "queue_link bb new_bb m = do {
     b \<leftarrow> load m bb;
     case bb_next b of None \<Rightarrow> set_next bb (Some new_bb) m
     | Some n \<Rightarrow> do { m \<leftarrow> set_next new_bb (Some n) m; set_next bb (Some new_bb) m } }"

definition queue_bb ::
  "backed_block_list \<Rightarrow> addr \<Rightarrow> bb_mem \<Rightarrow> (int \<times> backed_block_list \<times> bb_mem) option" where
  "queue_bb bbl new_bb m = (case data_blocks bbl of
       None \<Rightarrow> Some (0, bbl\<lparr>data_blocks := Some new_bb\<rparr>, m)
     | Some head \<Rightarrow> do {
         h \<leftarrow> load m head;
         nb \<leftarrow> load m new_bb;
         if bb_block h > bb_block nb then do {
           m \<leftarrow> set_next new_bb (Some head) m;
           Some (0, bbl\<lparr>data_blocks := Some new_bb\<rparr>, m) }
         else do {
           bb \<leftarrow> queue_start bbl head (bb_block nb) m;
           let bbl = bbl\<lparr>last_used := Some new_bb\<rparr>;
           bb \<leftarrow> queue_pos m bb (bb_block nb);
           m \<leftarrow> queue_link bb new_bb m;
           nb \<leftarrow> load m new_bb;
           (_, m) \<leftarrow> merge_bb bbl (Some new_bb) (bb_next nb) m;
           (_, m) \<leftarrow> merge_bb bbl (Some bb) (Some new_bb) m;
           Some (0, bbl, m) } })"

definition add_cell ::
  "backed_block_list \<Rightarrow> backed_block \<Rightarrow> bb_mem \<Rightarrow> (int \<times> backed_block_list \<times> bb_mem) option" where
  "add_cell bbl b m = (case alloc_cell b m of
       (None, m) \<Rightarrow> Some (- ENOMEM, bbl, m)
     | (Some a, m) \<Rightarrow> queue_bb bbl a m)"

definition backed_block_add_fill ::
  "backed_block_list \<Rightarrow> u32 \<Rightarrow> u32 \<Rightarrow> u32 \<Rightarrow> bb_mem
    \<Rightarrow> (int \<times> backed_block_list \<times> bb_mem) option" where
  "backed_block_add_fill bbl fill_val len block m = add_cell bbl
     \<lparr>bb_block = block, bb_len = len, bb_src = Fill fill_val, bb_next = None\<rparr> m"

definition backed_block_add_data ::
  "backed_block_list \<Rightarrow> byte list \<Rightarrow> u32 \<Rightarrow> u32 \<Rightarrow> bb_mem
    \<Rightarrow> (int \<times> backed_block_list \<times> bb_mem) option" where
  "backed_block_add_data bbl data len block m = add_cell bbl
     \<lparr>bb_block = block, bb_len = len, bb_src = Data data, bb_next = None\<rparr> m"

definition backed_block_add_file ::
  "backed_block_list \<Rightarrow> string \<Rightarrow> int \<Rightarrow> u32 \<Rightarrow> u32 \<Rightarrow> bb_mem
    \<Rightarrow> (int \<times> backed_block_list \<times> bb_mem) option" where
  "backed_block_add_file bbl filename offset len block m =
     (case alloc_cell \<lparr>bb_block = block, bb_len = len, bb_src = File None offset,
         bb_next = None\<rparr> m of
       (None, m) \<Rightarrow> Some (- ENOMEM, bbl, m)
     | (Some a, m) \<Rightarrow> (case strdup_name filename m of
         (n, m) \<Rightarrow> do {
           m \<leftarrow> store a \<lparr>bb_block = block, bb_len = len, bb_src = File n offset,
             bb_next = None\<rparr> m;
           queue_bb bbl a m }))"

definition backed_block_add_fd ::
  "backed_block_list \<Rightarrow> int \<Rightarrow> int \<Rightarrow> u32 \<Rightarrow> u32 \<Rightarrow> bb_mem
    \<Rightarrow> (int \<times> backed_block_list \<times> bb_mem) option" where
  "backed_block_add_fd bbl fd offset len block m = add_cell bbl
     \<lparr>bb_block = block, bb_len = len, bb_src = Fd fd offset, bb_next = None\<rparr> m"

section \<open>Splitting\<close>

fun bb_src_advance :: "u32 \<Rightarrow> bb_union \<Rightarrow> bb_union" where
  "bb_src_advance n (Data d) = Data (drop (unat n) d)"
| "bb_src_advance n (File f off) = File f (off + uint n)"
| "bb_src_advance n (Fd fd off) = Fd fd (off + uint n)"
| "bb_src_advance n (Fill v) = Fill v"

definition backed_block_split ::
  "backed_block_list \<Rightarrow> addr \<Rightarrow> u32 \<Rightarrow> bb_mem \<Rightarrow> (int \<times> bb_mem) option" where
  "backed_block_split bbl bb max_len m = (if block_size bbl = 0 then None else do {
     let max_len = block_size bbl * (max_len div block_size bbl);
     b \<leftarrow> load m bb;
     if bb_len b \<le> max_len then Some (0, m)
     else (case alloc_cell (b\<lparr>bb_len := bb_len b - max_len,
             bb_block := bb_block b + max_len div block_size bbl,
             bb_src := bb_src_advance max_len (bb_src b)\<rparr>) m of
         (None, m) \<Rightarrow> Some (- ENOMEM, m)
       | (Some n, m) \<Rightarrow> do {
           m \<leftarrow> store bb (b\<lparr>bb_next := Some n, bb_len := max_len\<rparr>) m;
           Some (0, m) }) })"

section \<open>Laws of the store\<close>

lemma load_write [simp]:
  "load m a = Some b \<Longrightarrow> load (write_cell m a v) = (load m)(a := v)"
  by (rule ext) (auto simp: load_def write_cell_def nth_list_update split: if_splits)

lemma write_cell_frame [simp]:
  "names (write_cell m a v) = names m" "avail (write_cell m a v) = avail m"
  "load_name (write_cell m a v) = load_name m"
  by (auto simp: write_cell_def load_name_def fun_eq_iff)

lemma store_load [simp]: "load m a = Some b0 \<Longrightarrow> store a b m = Some (write_cell m a (Some b))"
  by (simp add: store_def)

lemma free_cell_load [simp]: "load m a = Some b \<Longrightarrow> free_cell a m = Some (write_cell m a None)"
  by (simp add: free_cell_def)

lemma set_next_load [simp]:
  "load m a = Some b \<Longrightarrow> set_next a n m = Some (write_cell m a (Some (b\<lparr>bb_next := n\<rparr>)))"
  by (simp add: set_next_def)

lemma load_fresh [simp]: "load m (length (cells m)) = None"
  by (simp add: load_def)

lemma load_alloc:
  "alloc_cell b m = (Some a, m') \<Longrightarrow>
     load m' = (load m)(a \<mapsto> b) \<and> load m a = None \<and> names m' = names m"
  by (auto simp: alloc_cell_def load_def fun_eq_iff nth_append split: if_splits)

section \<open>Chains of blocks\<close>

text \<open>\<open>chain h p as q\<close>: following the links from \<open>p\<close> visits the cells \<open>as\<close> and arrives at \<open>q\<close>.\<close>

primrec chain ::
  "(addr \<rightharpoonup> backed_block) \<Rightarrow> addr option \<Rightarrow> addr list \<Rightarrow> addr option \<Rightarrow> bool" where
  "chain h p [] q \<longleftrightarrow> p = q"
| "chain h p (a # as) q \<longleftrightarrow> p = Some a \<and> (\<exists>b. h a = Some b \<and> chain h (bb_next b) as q)"

lemma chain_append [simp]:
  "chain h p (as @ bs) q \<longleftrightarrow> (\<exists>r. chain h p as r \<and> chain h r bs q)"
  by (induction as arbitrary: p) auto

lemma chain_upd [simp]: "a \<notin> set as \<Longrightarrow> chain (h(a := v)) p as q = chain h p as q"
  by (induction as arbitrary: p) auto

lemma chain_dom: "chain h p as q \<Longrightarrow> set as \<subseteq> dom h"
  by (induction as arbitrary: p) auto

lemma chain_unique: "chain h p as None \<Longrightarrow> chain h p bs None \<Longrightarrow> as = bs"
proof (induction as arbitrary: p bs)
  case Nil
  then show ?case by (cases bs) auto
next
  case (Cons a as)
  then show ?case by (cases bs) auto
qed

lemma chain_distinct: "chain h p as None \<Longrightarrow> distinct as"
proof (induction as arbitrary: p)
  case (Cons a as)
  then obtain b where b: "h a = Some b" "chain h (bb_next b) as None" "p = Some a"
    by auto
  have "a \<notin> set as"
  proof
    assume "a \<in> set as"
    then obtain us vs where "as = us @ a # vs"
      by (meson split_list)
    with b have "chain h (Some a) (a # vs) None"
      by auto
    moreover have "chain h (Some a) (a # as) None"
      using b by simp
    ultimately have "a # vs = a # as"
      by (rule chain_unique)
    with \<open>as = us @ a # vs\<close> show False
      by simp
  qed
  with Cons.IH b(2) show ?case
    by simp
qed simp

section \<open>The abstract queue\<close>

text \<open>
  What the list promises, on plain sequences of blocks: a new block goes to its place in
  block order and is merged with its neighbours where they continue each other.
\<close>

definition core :: "backed_block \<Rightarrow> bb_core" where
  "core b = bb_core.truncate b"

definition bbs :: "(addr \<rightharpoonup> backed_block) \<Rightarrow> addr list \<Rightarrow> bb_core list" where
  "bbs h as = map (\<lambda>a. core (the (h a))) as"

text \<open>
  One source continues another after \<open>n\<close> bytes: it is the same fill value, or the same file
  at the offset \<open>n\<close> bytes further on.  Memory buffers are never joined.
\<close>

fun continues :: "int \<Rightarrow> bb_union \<Rightarrow> bb_union \<Rightarrow> bool" where
  "continues n (Fill v) s \<longleftrightarrow> s = Fill v"
| "continues n (File f off) s \<longleftrightarrow> s = File f (off + n)"
| "continues n (Fd fd off) s \<longleftrightarrow> s = Fd fd (off + n)"
| "continues n (Data d) s \<longleftrightarrow> False"

definition can_merge :: "u32 \<Rightarrow> bb_core \<Rightarrow> bb_core \<Rightarrow> bool" where
  "can_merge bs a b \<longleftrightarrow> bb_block a + bb_len a div bs = bb_block b \<and>
     continues (uint (bb_len a)) (bb_src a) (bb_src b)"

definition merged :: "bb_core \<Rightarrow> bb_core \<Rightarrow> bb_core" where
  "merged a b = a\<lparr>bb_len := bb_len a + bb_len b\<rparr>"

definition merge_next :: "u32 \<Rightarrow> bb_core \<Rightarrow> bb_core list \<Rightarrow> bb_core list" where
  "merge_next bs n ss = (case ss of [] \<Rightarrow> [n]
     | s # ss' \<Rightarrow> if can_merge bs n s then merged n s # ss' else n # ss)"

definition merge_prev :: "u32 \<Rightarrow> bb_core list \<Rightarrow> bb_core list \<Rightarrow> bb_core list" where
  "merge_prev bs ps ns = (if can_merge bs (last ps) (hd ns)
     then butlast ps @ merged (last ps) (hd ns) # tl ns else ps @ ns)"

definition queue_spec :: "u32 \<Rightarrow> bb_core \<Rightarrow> bb_core list \<Rightarrow> bb_core list" where
  "queue_spec bs n xs = (case xs of [] \<Rightarrow> [n]
     | h # _ \<Rightarrow> if bb_block n < bb_block h then n # xs
       else merge_prev bs (takeWhile (\<lambda>b. bb_block b < bb_block n) xs)
              (merge_next bs n (dropWhile (\<lambda>b. bb_block b < bb_block n) xs)))"

text \<open>
  The image such a sequence describes: which byte of which source lies at which position.
\<close>

datatype origin =
    Of_Memory "byte list" nat
  | Of_File "addr option" int
  | Of_Fd int int
  | Of_Fill byte

fun origin_at :: "bb_union \<Rightarrow> nat \<Rightarrow> origin" where
  "origin_at (Data d) j = Of_Memory d j"
| "origin_at (File f off) j = Of_File f (off + int j)"
| "origin_at (Fd fd off) j = Of_Fd fd (off + int j)"
| "origin_at (Fill v) j = Of_Fill (little_endian 4 (unat v) ! (j mod 4))"

definition content :: "u32 \<Rightarrow> bb_core \<Rightarrow> (nat \<times> origin) set" where
  "content bs b = (\<lambda>j. (unat (bb_block b) * unat bs + j, origin_at (bb_src b) j)) ` {..<unat (bb_len b)}"

definition contents_of :: "u32 \<Rightarrow> bb_core list \<Rightarrow> (nat \<times> origin) set" where
  "contents_of bs xs = (\<Union>b \<in> set xs. content bs b)"

text \<open>Lengths that are multiples of the block size and do not exceed 32 bits together.\<close>

definition whole_blocks :: "u32 \<Rightarrow> bb_core list \<Rightarrow> bool" where
  "whole_blocks bs xs \<longleftrightarrow> 4 dvd unat bs \<and> (\<forall>x \<in> set xs. unat bs dvd unat (bb_len x)) \<and>
     sum_list (map (unat \<circ> bb_len) xs) < 2 ^ 32"

abbreviation ascending :: "bb_core list \<Rightarrow> bool" where
  "ascending \<equiv> sorted_wrt (\<lambda>x y. bb_block x < bb_block y)"

text \<open>No two blocks hold the same duplicated file name, which each of them would free.\<close>

fun src_name :: "bb_union \<Rightarrow> addr list" where
  "src_name (File (Some n) _) = [n]"
| "src_name _ = []"

definition unshared :: "bb_core list \<Rightarrow> bool" where
  "unshared xs \<longleftrightarrow> distinct (concat (map (src_name \<circ> bb_src) xs))"

lemma core_sel [simp]:
  "bb_block (core b) = bb_block b" "bb_len (core b) = bb_len b" "bb_src (core b) = bb_src b"
  by (simp_all add: core_def bb_core.truncate_def)

lemma core_next [simp]: "core (b\<lparr>bb_next := n\<rparr>) = core b"
  by (simp add: core_def bb_core.truncate_def)

lemma core_merged [simp]:
  "core (a\<lparr>bb_len := bb_len a + bb_len b, bb_next := n\<rparr>) = merged (core a) (core b)"
  by (simp add: core_def bb_core.truncate_def merged_def)

lemma merged_sel [simp]:
  "bb_block (merged a b) = bb_block a" "bb_src (merged a b) = bb_src a"
  "bb_len (merged a b) = bb_len a + bb_len b"
  by (simp_all add: merged_def)

lemma bbs_simps [simp]:
  "bbs h [] = []" "bbs h (a # as) = core (the (h a)) # bbs h as"
  "bbs h (as @ cs) = bbs h as @ bbs h cs"
  by (simp_all add: bbs_def)

lemma length_bbs [simp]: "length (bbs h as) = length as"
  by (simp add: bbs_def)

lemma bbs_upd [simp]: "a \<notin> set as \<Longrightarrow> bbs (h(a := v)) as = bbs h as"
  by (simp add: bbs_def)

lemma bbs_cong: "(\<And>a. a \<in> set as \<Longrightarrow> h a = h' a) \<Longrightarrow> bbs h as = bbs h' as"
  by (simp add: bbs_def)

lemma src_name_File: "src_name (File n off) = (case n of None \<Rightarrow> [] | Some q \<Rightarrow> [q])"
  by (cases n) simp_all

lemma unshared_continues:
  assumes "unshared [a, b]" and "continues n (bb_src a) (bb_src b)"
  shows "src_name (bb_src a) = [] \<and> src_name (bb_src b) = []"
  using assms by (cases "bb_src a") (auto simp: unshared_def src_name_File split: option.splits)

text \<open>The comparisons of \<^verbatim>\<open>merge_bb\<close> decide whether one source continues the other.\<close>

lemma continues_code:
  "continues (uint len) a b \<longleftrightarrow> bb_type a = bb_type b \<and> bb_src_continues len a b"
  by (cases a; cases b) auto

section \<open>Merging keeps the image\<close>

lemma can_merge_position:
  assumes "can_merge bs a b" "bb_block a < bb_block b" "unat bs dvd unat (bb_len a)"
  shows "unat (bb_block b) * unat bs = unat (bb_block a) * unat bs + unat (bb_len a)"
proof -
  let ?q = "bb_len a div bs"
  have e: "bb_block b = bb_block a + ?q"
    using assms(1) by (simp add: can_merge_def)
  then have "unat (bb_block b) = unat (bb_block a) + unat ?q"
    using assms(2) by (metis less_imp_le unat_plus_simple)
  moreover have "unat ?q * unat bs = unat (bb_len a)"
    using assms(3) by (simp add: unat_div_distrib)
  ultimately show ?thesis
    by (simp add: algebra_simps)
qed

lemma continues_origin:
  assumes "continues (int n) s s'" "4 dvd n"
  shows "origin_at s' j = origin_at s (n + j)"
  using assms by (cases s) (auto elim!: dvdE)

lemma merged_content:
  assumes "can_merge bs a b" "bb_block a < bb_block b" "whole_blocks bs [a, b]"
  shows "content bs (merged a b) = content bs a \<union> content bs b"
proof -
  let ?n = "unat (bb_len a)" and ?k = "unat (bb_len b)"
  have w: "4 dvd unat bs" "unat bs dvd ?n" "?n + ?k < 2 ^ 32"
    using assms(3) by (auto simp: whole_blocks_def)
  have len: "unat (bb_len a + bb_len b) = ?n + ?k"
    using w(3) by (simp add: unat_word_ariths)
  have org: "origin_at (bb_src b) j = origin_at (bb_src a) (?n + j)" for j
    using assms(1) w(1,2) by (intro continues_origin) (auto simp: can_merge_def intro: dvd_trans)
  have split: "{..<n + k} = {..<n} \<union> (\<lambda>j. n + j) ` {..<k}" for n k :: nat
  proof -
    have "(\<lambda>j. n + j) ` {..<k} = {n..<n + k}"
      using image_add_atLeastLessThan [of n 0 k] by (simp add: lessThan_atLeast0 add.commute)
    then show ?thesis by auto
  qed
  show ?thesis
    unfolding content_def merged_sel len split image_Un image_image
    using can_merge_position [OF assms(1,2) w(2)] by (simp add: org add.assoc)
qed

lemma contract_contents:
  assumes "can_merge bs a b" "bb_block a < bb_block b" "whole_blocks bs (us @ a # b # vs)"
  shows "contents_of bs (us @ merged a b # vs) = contents_of bs (us @ a # b # vs)"
    "whole_blocks bs (us @ merged a b # vs)"
proof -
  have w: "whole_blocks bs [a, b]"
    using assms(3) by (auto simp: whole_blocks_def)
  then show "contents_of bs (us @ merged a b # vs) = contents_of bs (us @ a # b # vs)"
    using merged_content [OF assms(1,2)] by (auto simp: contents_of_def)
  have "unat (bb_len a + bb_len b) = unat (bb_len a) + unat (bb_len b)"
    using w by (simp add: whole_blocks_def unat_word_ariths)
  then show "whole_blocks bs (us @ merged a b # vs)"
    using assms(3) by (auto simp: whole_blocks_def)
qed

section \<open>Merging two neighbours\<close>

lemma backed_block_destroy_anonymous:
  assumes "load m b = Some bb" and "src_name (bb_src bb) = []"
  shows "backed_block_destroy b m = Some (write_cell m b None)"
  using assms
  by (cases "bb_src bb" rule: src_name.cases) (auto simp: backed_block_destroy_def free_name_def)

lemma merge_bb_run:
  assumes "load m a = Some ab" "load m b = Some bb" "a \<noteq> b"
    and "bb_block ab < bb_block bb" "block_size bbl \<noteq> 0" "unshared [core ab, core bb]"
  shows "merge_bb bbl (Some a) (Some b) m =
    (if can_merge (block_size bbl) (core ab) (core bb)
     then Some (0, write_cell (write_cell m a (Some (ab\<lparr>bb_len := bb_len ab + bb_len bb,
            bb_next := bb_next bb\<rparr>))) b None)
     else Some (- EINVAL, m))"
proof (cases "can_merge (block_size bbl) (core ab) (core bb)")
  case True
  then have "src_name (bb_src bb) = []"
    using unshared_continues [OF assms(6)] by (auto simp: can_merge_def)
  with True show ?thesis
    using assms by (simp add: merge_bb_def can_merge_def continues_code backed_block_destroy_anonymous)
next
  case False
  then show ?thesis
    using assms by (auto simp: merge_bb_def can_merge_def continues_code)
qed

lemma merge_bb_list:
  assumes ch: "chain (load m) d (us @ a # b # vs) None"
    and ord: "ascending (bbs (load m) (us @ a # b # vs))"
    and bs: "block_size bbl \<noteq> 0" and un: "unshared (bbs (load m) [a, b])"
  defines "A \<equiv> core (the (load m a))" and "B \<equiv> core (the (load m b))"
  shows "\<exists>r m'. merge_bb bbl (Some a) (Some b) m = Some (r, m') \<and> names m' = names m \<and>
     avail m' = avail m \<and> (\<forall>x. x \<noteq> a \<longrightarrow> x \<noteq> b \<longrightarrow> load m' x = load m x) \<and>
     (if can_merge (block_size bbl) A B
      then chain (load m') d (us @ a # vs) None \<and> load m' b = None \<and>
        bbs (load m') (us @ a # vs) = bbs (load m) us @ merged A B # bbs (load m) vs
      else m' = m)"
proof -
  from ch obtain ab bb where ld: "load m a = Some ab" "load m b = Some bb"
    and nx: "bb_next ab = Some b" "chain (load m) (bb_next bb) vs None"
    and us: "chain (load m) d us (Some a)"
    by auto
  have dist: "distinct (us @ a # b # vs)"
    using ch by (rule chain_distinct)
  have "bb_block ab < bb_block bb"
    using ord ld by (simp add: sorted_wrt_append)
  then have run: "merge_bb bbl (Some a) (Some b) m =
    (if can_merge (block_size bbl) A B
     then Some (0, write_cell (write_cell m a (Some (ab\<lparr>bb_len := bb_len ab + bb_len bb,
            bb_next := bb_next bb\<rparr>))) b None)
     else Some (- EINVAL, m))"
    using merge_bb_run [of m a ab b bb bbl] ld dist bs un by (simp add: A_def B_def)
  show ?thesis
    using run ld nx us dist by (auto simp: A_def B_def)
qed

end
