(* ===== verification/Backed_Queue.thy ===== *)
theory Backed_Queue
  imports Backed_Block
begin

text \<open>
  The pending-block list keeps its promises: queueing, splitting and moving blocks through
  the pointer structure of \<^verbatim>\<open>backed_block.c\<close> has the effect the abstract queue of
  \<^verbatim>\<open>Backed_Block\<close> describes, keeps the list ascending, well linked and unshared, and leaves
  every other cell of the store alone.
\<close>

section \<open>Queueing refines the abstract queue\<close>

definition bbl_inv :: "bb_mem \<Rightarrow> backed_block_list \<Rightarrow> addr list \<Rightarrow> bool" where
  "bbl_inv m bbl as \<longleftrightarrow> chain (load m) (data_blocks bbl) as None \<and>
     ascending (bbs (load m) as) \<and> unshared (bbs (load m) as) \<and> block_size bbl \<noteq> 0"

text \<open>The cached pointer is null or points into the list.\<close>

definition cache_ok :: "backed_block_list \<Rightarrow> addr list \<Rightarrow> bool" where
  "cache_ok bbl as \<longleftrightarrow> (case last_used bbl of None \<Rightarrow> True | Some lu \<Rightarrow> lu \<in> set as)"

lemma contract_ascending:
  "ascending (us @ a # b # vs) \<Longrightarrow> ascending (us @ merged a b # vs)"
  by (auto simp: sorted_wrt_append)

lemma contract_unshared:
  assumes "unshared (us @ a # b # vs)" and "can_merge bs a b"
  shows "unshared (us @ merged a b # vs)"
proof -
  have "unshared [a, b]"
    using assms(1) by (auto simp: unshared_def)
  then have "src_name (bb_src b) = []"
    using assms(2) unshared_continues by (auto simp: can_merge_def)
  with assms(1) show ?thesis
    by (simp add: unshared_def)
qed

lemma unshared_insert: "unshared (n # ps @ ss) \<longleftrightarrow> unshared (ps @ n # ss)"
  by (auto simp: unshared_def)

lemma queue_pos_chain:
  assumes "chain (load m) (Some a) (xs @ p # ss) None"
    and "\<forall>x \<in> set (tl (xs @ [p])). bb_block (core (the (load m x))) < blk"
    and "\<forall>x \<in> set ss. \<not> bb_block (core (the (load m x))) < blk"
  shows "queue_pos m a blk = Some p"
  using assms
proof (induction xs arbitrary: a)
  case Nil
  then show ?case
    by (cases ss) (auto simp: queue_pos.simps [of m p])
next
  case (Cons x xs)
  then obtain b where b: "a = x" "load m x = Some b"
    "chain (load m) (bb_next b) (xs @ p # ss) None"
    by auto
  then obtain y where y: "bb_next b = Some y" "y = hd (xs @ [p])"
    by (cases xs) auto
  then have "y \<in> set (xs @ [p])"
    by (cases xs) auto
  then have "bb_block (core (the (load m y))) < blk"
    using Cons.prems(2) by auto
  moreover obtain yb where "load m y = Some yb"
    using b(3) y by (cases xs) auto
  moreover have "queue_pos m y blk = Some p"
    using Cons.IH [of y] Cons.prems b(3) y by (cases xs) auto
  ultimately show ?case
    using b y by (simp add: queue_pos.simps [of m x])
qed

lemma chain_from:
  assumes "chain h p as None" and "a \<in> set as"
  obtains us vs where "as = us @ a # vs" "chain h (Some a) (a # vs) None"
proof -
  obtain us vs where as: "as = us @ a # vs"
    using assms(2) by (meson split_list)
  then have "chain h (Some a) (a # vs) None"
    using assms(1) by auto
  with as show ?thesis
    using that by blast
qed

lemma queue_start_pos:
  assumes inv: "chain (load m) (data_blocks bbl) (ps @ p # ss) None"
    and cache: "cache_ok bbl (ps @ p # ss)"
    and below: "\<forall>x \<in> set (ps @ [p]). bb_block (core (the (load m x))) < blk"
    and above: "\<forall>x \<in> set ss. \<not> bb_block (core (the (load m x))) < blk"
    and head: "data_blocks bbl = Some h"
  shows "\<exists>bb. queue_start bbl h blk m = Some bb \<and> queue_pos m bb blk = Some p"
proof -
  have from_head: "queue_pos m h blk = Some p"
    using queue_pos_chain [of m h ps p ss blk] inv below above head
    by (auto dest: list.set_sel(2) [rotated] in_set_dropD simp: tl_append split: list.splits)
  show ?thesis
  proof (cases "last_used bbl")
    case None
    with from_head show ?thesis by (simp add: queue_start_def)
  next
    case (Some lu)
    with cache have lu: "lu \<in> set (ps @ p # ss)"
      by (simp add: cache_ok_def)
    then obtain l where l: "load m lu = Some l"
      using chain_dom [OF inv] by auto
    show ?thesis
    proof (cases "blk > bb_block l")
      case True
      then have "lu \<in> set (ps @ [p])"
        using lu above l by auto
      then obtain us vs where split: "ps @ [p] = us @ lu # vs"
        by (meson split_list)
      have "ps @ p # ss = us @ lu # vs @ ss"
        using arg_cong [OF split, of "\<lambda>xs. xs @ ss"] by simp
      then have "chain (load m) (data_blocks bbl) (us @ lu # vs @ ss) None"
        using inv by (simp only:)
      then have "chain (load m) (Some lu) (lu # vs @ ss) None"
        by auto
      moreover have "lu # vs = butlast (lu # vs) @ [p]"
        using split by (metis append_butlast_last_id last_appendR last_snoc list.distinct(1))
      ultimately have "chain (load m) (Some lu) (butlast (lu # vs) @ p # ss) None"
        by (metis append.assoc append_Cons append_Nil)
      moreover have "\<forall>x \<in> set (tl (butlast (lu # vs) @ [p])). bb_block (core (the (load m x))) < blk"
        using below split \<open>lu # vs = butlast (lu # vs) @ [p]\<close> by (metis Un_iff list.sel(3) list.set_intros(2) set_append)
      ultimately have "queue_pos m lu blk = Some p"
        using above by (rule queue_pos_chain)
      with True Some l show ?thesis
        by (simp add: queue_start_def)
    next
      case False
      with Some l from_head show ?thesis
        by (simp add: queue_start_def)
    qed
  qed
qed

lemma queue_link_chain:
  assumes ch: "chain (load m) d (ps @ p # ss) None"
    and new: "load m n = Some nb" "bb_next nb = None" "n \<notin> set (ps @ p # ss)"
  shows "\<exists>m'. queue_link p n m = Some m' \<and> chain (load m') d (ps @ p # n # ss) None \<and>
    bbs (load m') (ps @ [p]) = bbs (load m) (ps @ [p]) \<and> bbs (load m') ss = bbs (load m) ss \<and>
    names m' = names m \<and> avail m' = avail m \<and>
    (\<exists>nb'. load m' n = Some nb' \<and> core nb' = core nb \<and>
       bb_next nb' = (case ss of [] \<Rightarrow> None | s # _ \<Rightarrow> Some s)) \<and>
    (\<forall>x. x \<noteq> p \<longrightarrow> x \<noteq> n \<longrightarrow> load m' x = load m x)"
proof -
  have dist: "distinct (ps @ p # ss)"
    using ch by (rule chain_distinct)
  from ch obtain b where b: "load m p = Some b" "chain (load m) (bb_next b) ss None"
    "chain (load m) d ps (Some p)"
    by auto
  show ?thesis
  proof (cases ss)
    case Nil
    then show ?thesis
      using b new dist by (auto simp: queue_link_def)
  next
    case (Cons s ss')
    then show ?thesis
      using b new dist by (auto simp: queue_link_def)
  qed
qed

text \<open>Whether the queued block ends up absorbed by its predecessor.\<close>

definition absorbed :: "u32 \<Rightarrow> bb_core \<Rightarrow> bb_core list \<Rightarrow> bool" where
  "absorbed bs n xs \<longleftrightarrow> xs \<noteq> [] \<and> bb_block (hd xs) < bb_block n \<and>
     can_merge bs (last (takeWhile (\<lambda>b. bb_block b < bb_block n) xs))
       (hd (merge_next bs n (dropWhile (\<lambda>b. bb_block b < bb_block n) xs)))"

lemma ascending_split:
  assumes "ascending xs"
  shows "\<forall>x \<in> set (dropWhile (\<lambda>b. bb_block b < blk) xs). \<not> bb_block x < blk"
  using assms by (induction xs) (auto simp: not_less)

lemma bbs_split_while:
  "bbs h (takeWhile (\<lambda>a. P (core (the (h a)))) as) = takeWhile P (bbs h as)"
  "bbs h (dropWhile (\<lambda>a. P (core (the (h a)))) as) = dropWhile P (bbs h as)"
  by (induction as) simp_all

lemma merge_pair:
  assumes inv: "bbl_inv m bbl (us @ a # b # vs)"
  defines "A \<equiv> core (the (load m a))" and "B \<equiv> core (the (load m b))"
  shows "\<exists>r m' as'. merge_bb bbl (Some a) (Some b) m = Some (r, m') \<and> bbl_inv m' bbl as' \<and>
     names m' = names m \<and> avail m' = avail m \<and>
     (\<forall>x. x \<noteq> a \<longrightarrow> x \<noteq> b \<longrightarrow> load m' x = load m x) \<and>
     (if can_merge (block_size bbl) A B
      then as' = us @ a # vs \<and> load m' b = None \<and>
        bbs (load m') as' = bbs (load m) us @ merged A B # bbs (load m) vs
      else as' = us @ a # b # vs \<and> bbs (load m') as' = bbs (load m) us @ A # B # bbs (load m) vs)"
proof -
  have ch: "chain (load m) (data_blocks bbl) (us @ a # b # vs) None"
    and asc: "ascending (bbs (load m) (us @ a # b # vs))"
    and un: "unshared (bbs (load m) (us @ a # b # vs))" and bs: "block_size bbl \<noteq> 0"
    using inv unfolding bbl_inv_def by blast+
  have un2: "unshared (bbs (load m) [a, b])"
    using un by (auto simp: unshared_def)
  from merge_bb_list [OF ch asc bs un2, folded A_def B_def]
  obtain r m' where run: "merge_bb bbl (Some a) (Some b) m = Some (r, m')"
    and fr: "names m' = names m" "avail m' = avail m"
      "\<forall>x. x \<noteq> a \<longrightarrow> x \<noteq> b \<longrightarrow> load m' x = load m x"
    and res: "if can_merge (block_size bbl) A B
      then chain (load m') (data_blocks bbl) (us @ a # vs) None \<and> load m' b = None \<and>
        bbs (load m') (us @ a # vs) = bbs (load m) us @ merged A B # bbs (load m) vs
      else m' = m"
    by blast
  show ?thesis
  proof (cases "can_merge (block_size bbl) A B")
    case True
    have "ascending (bbs (load m) us @ merged A B # bbs (load m) vs)"
      using contract_ascending asc by (simp add: A_def B_def)
    moreover have "unshared (bbs (load m) us @ merged A B # bbs (load m) vs)"
      using contract_unshared [OF _ True] un by (simp add: A_def B_def)
    ultimately have "bbl_inv m' bbl (us @ a # vs)"
      using True res bs unfolding bbl_inv_def by (simp del: bbs_simps)
    with True run fr res show ?thesis
      by (intro exI [of _ r] exI [of _ m'] exI [of _ "us @ a # vs"]) (simp del: bbs_simps)
  next
    case False
    with run fr res inv show ?thesis
      by (intro exI [of _ r] exI [of _ m'] exI [of _ "us @ a # b # vs"]) (simp add: A_def B_def)
  qed
qed

text \<open>The two calls of \<^verbatim>\<open>merge_bb\<close> at the end of \<^verbatim>\<open>queue_bb\<close>.\<close>

lemma merge_with_next:
  assumes inv: "bbl_inv m bbl (us @ n # ss)"
  shows "\<exists>r m' vs. merge_bb bbl (Some n) (case ss of [] \<Rightarrow> None | s # _ \<Rightarrow> Some s) m = Some (r, m') \<and>
     bbl_inv m' bbl (us @ n # vs) \<and> names m' = names m \<and> avail m' = avail m \<and>
     (\<forall>x. x \<notin> set (n # ss) \<longrightarrow> load m' x = load m x) \<and> set vs \<subseteq> set ss \<and>
     bbs (load m') us = bbs (load m) us \<and>
     bbs (load m') (n # vs) = merge_next (block_size bbl) (core (the (load m n))) (bbs (load m) ss)"
proof (cases ss)
  case Nil
  with inv show ?thesis
    by (intro exI [of _ "- EINVAL"] exI [of _ m] exI [of _ "[]"])
      (simp add: merge_bb_def merge_next_def)
next
  case (Cons s ss')
  let ?A = "core (the (load m n))" and ?B = "core (the (load m s))"
  from merge_pair [of m bbl us n s ss'] inv Cons
  obtain r m' as' where r: "merge_bb bbl (Some n) (Some s) m = Some (r, m')" "bbl_inv m' bbl as'"
    "names m' = names m" "avail m' = avail m" "\<forall>x. x \<noteq> n \<longrightarrow> x \<noteq> s \<longrightarrow> load m' x = load m x"
    and res: "if can_merge (block_size bbl) ?A ?B
      then as' = us @ n # ss' \<and> load m' s = None \<and>
        bbs (load m') as' = bbs (load m) us @ merged ?A ?B # bbs (load m) ss'
      else as' = us @ n # s # ss' \<and> bbs (load m') as' = bbs (load m) us @ ?A # ?B # bbs (load m) ss'"
    by blast
  have "chain (load m) (data_blocks bbl) (us @ n # s # ss') None"
    using inv Cons unfolding bbl_inv_def by blast
  then have "distinct (us @ n # s # ss')"
    by (rule chain_distinct)
  then have "bbs (load m') us = bbs (load m) us"
    using r(5) by (intro bbs_cong) auto
  with r res show ?thesis
    using Cons
    by (intro exI [of _ r] exI [of _ m'] exI [of _ "if can_merge (block_size bbl) ?A ?B then ss' else ss"])
      (auto simp: merge_next_def split: if_splits)
qed

lemma merge_with_prev:
  assumes inv: "bbl_inv m bbl (ps @ p # n # vs)"
    and PN: "bbs (load m) (ps @ [p]) = P" "bbs (load m) (n # vs) = N"
  shows "\<exists>r m' as'. merge_bb bbl (Some p) (Some n) m = Some (r, m') \<and> bbl_inv m' bbl as' \<and>
     names m' = names m \<and> avail m' = avail m \<and>
     (\<forall>x. x \<noteq> p \<longrightarrow> x \<noteq> n \<longrightarrow> load m' x = load m x) \<and> set as' \<subseteq> set (ps @ p # n # vs) \<and>
     bbs (load m') as' = merge_prev (block_size bbl) P N \<and>
     (if can_merge (block_size bbl) (last P) (hd N) then load m' n = None else n \<in> set as')"
proof -
  let ?A = "core (the (load m p))" and ?B = "core (the (load m n))"
  from merge_pair [OF inv]
  obtain r m' as' where r: "merge_bb bbl (Some p) (Some n) m = Some (r, m')" "bbl_inv m' bbl as'"
    "names m' = names m" "avail m' = avail m" "\<forall>x. x \<noteq> p \<longrightarrow> x \<noteq> n \<longrightarrow> load m' x = load m x"
    and res: "if can_merge (block_size bbl) ?A ?B
      then as' = ps @ p # vs \<and> load m' n = None \<and>
        bbs (load m') as' = bbs (load m) ps @ merged ?A ?B # bbs (load m) vs
      else as' = ps @ p # n # vs \<and> bbs (load m') as' = bbs (load m) ps @ ?A # ?B # bbs (load m) vs"
    by blast
  then show ?thesis
    by (intro exI [of _ r] exI [of _ m'] exI [of _ as'])
      (auto simp: merge_prev_def PN [symmetric] split: if_splits)
qed

text \<open>The list, cut where the new block belongs.\<close>

lemma queue_cut:
  assumes asc: "ascending (bbs h as)" and ne: "as \<noteq> []"
    and hd: "bb_block (core (the (h (hd as)))) < blk"
  obtains ps p ss where "as = ps @ p # ss"
    "bbs h (ps @ [p]) = takeWhile (\<lambda>b. bb_block b < blk) (bbs h as)"
    "bbs h ss = dropWhile (\<lambda>b. bb_block b < blk) (bbs h as)"
    "\<forall>x \<in> set (ps @ [p]). bb_block (core (the (h x))) < blk"
    "\<forall>x \<in> set ss. \<not> bb_block (core (the (h x))) < blk"
proof -
  let ?Q = "\<lambda>a. bb_block (core (the (h a))) < blk"
  let ?t = "takeWhile ?Q as" and ?ss = "dropWhile ?Q as"
  have tw: "?t \<noteq> []"
    using ne hd by (cases as) auto
  have as: "as = butlast ?t @ last ?t # ?ss"
    using tw by (metis append.assoc append_Cons append_Nil append_butlast_last_id takeWhile_dropWhile_id)
  have "\<forall>x \<in> set (bbs h ?ss). \<not> bb_block x < blk"
    using ascending_split [OF asc] by (simp only: bbs_split_while(2) [of h "\<lambda>b. bb_block b < blk"])
  then have above: "\<forall>x \<in> set ?ss. \<not> ?Q x"
    unfolding bbs_def set_map by blast
  show thesis
  proof (rule that [of "butlast ?t" "last ?t" ?ss])
    show "bbs h (butlast ?t @ [last ?t]) = takeWhile (\<lambda>b. bb_block b < blk) (bbs h as)"
      using tw bbs_split_while(1) [of h "\<lambda>b. bb_block b < blk"] by (simp del: bbs_simps)
    show "\<forall>x \<in> set (butlast ?t @ [last ?t]). bb_block (core (the (h x))) < blk"
      unfolding append_butlast_last_id [OF tw] by (blast dest: set_takeWhileD)
    show "\<forall>x \<in> set ?ss. \<not> bb_block (core (the (h x))) < blk"
      by (rule above)
  qed (rule as, rule bbs_split_while(2))
qed

lemma ascending_insert:
  assumes "ascending (xs @ ys)" "\<forall>x \<in> set xs. bb_block x < bb_block n" "\<forall>y \<in> set ys. bb_block n < bb_block y"
  shows "ascending (xs @ n # ys)"
  using assms by (auto simp: sorted_wrt_append)

lemma queue_bb_behind:
  assumes inv: "bbl_inv m bbl as" and cache: "cache_ok bbl as"
    and new: "load m n = Some nb" "bb_next nb = None" "n \<notin> set as"
    and fresh: "bb_block nb \<notin> bb_block ` set (bbs (load m) as)"
    and un: "unshared (core nb # bbs (load m) as)"
    and head: "data_blocks bbl = Some h" "\<not> bb_block nb < bb_block (the (load m h))"
  defines "X \<equiv> bbs (load m) as"
  shows "\<exists>bbl' m' as'. queue_bb bbl n m = Some (0, bbl', m') \<and> bbl_inv m' bbl' as' \<and>
     bbs (load m') as' = queue_spec (block_size bbl) (core nb) X \<and>
     block_size bbl' = block_size bbl \<and> set as' \<subseteq> insert n (set as) \<and>
     names m' = names m \<and> avail m' = avail m \<and>
     (\<forall>x. x \<notin> insert n (set as) \<longrightarrow> load m' x = load m x) \<and>
     last_used bbl' = Some n \<and>
     (if absorbed (block_size bbl) (core nb) X then load m' n = None else n \<in> set as')"
proof -
  let ?bs = "block_size bbl" and ?Q = "\<lambda>b. bb_block b < bb_block nb" and ?bbl = "bbl\<lparr>last_used := Some n\<rparr>"
  let ?P = "takeWhile ?Q X" and ?S = "dropWhile ?Q X"
  have ch: "chain (load m) (data_blocks bbl) as None" and asc: "ascending X"
    and bs: "block_size bbl \<noteq> 0"
    using inv unfolding bbl_inv_def X_def by blast+
  obtain hb as0 where as0: "as = h # as0" and hb: "load m h = Some hb"
    using ch head by (cases as) auto
  have hlt: "bb_block (core (the (load m (hd as)))) < bb_block nb"
    using fresh head as0 hb by (auto simp: not_less order.order_iff_strict)
  obtain ps p ss where cut: "as = ps @ p # ss" "bbs (load m) (ps @ [p]) = ?P"
    "bbs (load m) ss = ?S" "\<forall>x \<in> set (ps @ [p]). bb_block (core (the (load m x))) < bb_block nb"
    "\<forall>x \<in> set ss. \<not> bb_block (core (the (load m x))) < bb_block nb"
    using queue_cut [OF asc [unfolded X_def] _ hlt] as0 unfolding X_def by blast
  obtain bb where start: "queue_start bbl h (bb_block nb) m = Some bb" "queue_pos m bb (bb_block nb) = Some p"
    using queue_start_pos [OF ch [unfolded cut(1)] cache [unfolded cut(1)] cut(4,5) head(1)] by blast
  obtain m1 nb1 where link: "queue_link p n m = Some m1"
    and ch1: "chain (load m1) (data_blocks bbl) (ps @ p # n # ss) None"
    and bb1: "bbs (load m1) (ps @ [p]) = bbs (load m) (ps @ [p])" "bbs (load m1) ss = bbs (load m) ss"
    and fr1: "names m1 = names m" "avail m1 = avail m"
    and n1: "load m1 n = Some nb1" "core nb1 = core nb" "bb_next nb1 = (case ss of [] \<Rightarrow> None | s # _ \<Rightarrow> Some s)"
    and ld1: "\<forall>x. x \<noteq> p \<longrightarrow> x \<noteq> n \<longrightarrow> load m1 x = load m x"
    using queue_link_chain [OF ch [unfolded cut(1)] new(1,2) new(3) [unfolded cut(1)]] by blast
  have all1: "bbs (load m1) ((ps @ [p]) @ n # ss) = ?P @ core nb # ?S"
    using bb1 cut(2,3) n1 by (simp del: append_assoc)
  have "\<forall>y \<in> set ?S. bb_block nb < bb_block y"
    using ascending_split [OF asc, of "bb_block nb"] fresh
    unfolding X_def by (metis image_eqI linorder_less_linear set_dropWhileD)
  then have "ascending (?P @ core nb # ?S)"
    using asc by (intro ascending_insert) (auto dest: set_takeWhileD)
  moreover have "unshared (?P @ core nb # ?S)"
    using un by (simp add: unshared_insert [symmetric] X_def)
  ultimately have inv1: "bbl_inv m1 ?bbl ((ps @ [p]) @ n # ss)"
    using ch1 bs all1 unfolding bbl_inv_def by simp
  obtain r m2 vs where m2: "merge_bb ?bbl (Some n) (bb_next nb1) m1 = Some (r, m2)"
    and inv2: "bbl_inv m2 ?bbl (ps @ p # n # vs)"
    and fr2: "names m2 = names m1" "avail m2 = avail m1"
      "\<forall>x. x \<notin> set (n # ss) \<longrightarrow> load m2 x = load m1 x" "set vs \<subseteq> set ss"
    and bb2: "bbs (load m2) (ps @ [p]) = ?P" "bbs (load m2) (n # vs) = merge_next ?bs (core nb) ?S"
    using merge_with_next [OF inv1] n1 bb1 cut(2,3) by auto
  obtain r' m3 as' where m3: "merge_bb ?bbl (Some p) (Some n) m2 = Some (r', m3)"
    and inv3: "bbl_inv m3 ?bbl as'"
    and fr3: "names m3 = names m2" "avail m3 = avail m2"
      "\<forall>x. x \<noteq> p \<longrightarrow> x \<noteq> n \<longrightarrow> load m3 x = load m2 x" "set as' \<subseteq> set (ps @ p # n # vs)"
    and bb3: "bbs (load m3) as' = merge_prev ?bs ?P (merge_next ?bs (core nb) ?S)"
      "if can_merge ?bs (last ?P) (hd (merge_next ?bs (core nb) ?S)) then load m3 n = None else n \<in> set as'"
    using merge_with_prev [OF inv2 bb2] by auto
  have run: "queue_bb bbl n m = Some (0, ?bbl, m3)"
    using head hb new start link n1(1) m2 m3 by (simp add: queue_bb_def)
  have "X \<noteq> []" "\<not> bb_block (core nb) < bb_block (hd X)" "bb_block (hd X) < bb_block (core nb)"
    using as0 hb head hlt by (auto simp: X_def)
  then have spec: "queue_spec ?bs (core nb) X = merge_prev ?bs ?P (merge_next ?bs (core nb) ?S)"
    "absorbed ?bs (core nb) X \<longleftrightarrow> can_merge ?bs (last ?P) (hd (merge_next ?bs (core nb) ?S))"
    by (auto simp: queue_spec_def absorbed_def split: list.splits)
  have "set as' \<subseteq> insert n (set as)" "\<forall>x. x \<notin> insert n (set as) \<longrightarrow> load m3 x = load m x"
    using fr3(3,4) fr2(3,4) ld1 cut(1) by auto
  then show ?thesis
    using run inv3 fr1 fr2(1,2) fr3(1,2) bb3 unfolding spec
    by (intro exI [of _ ?bbl] exI [of _ m3] exI [of _ as']) simp
qed

lemma queue_bb_run:
  assumes inv: "bbl_inv m bbl as" and cache: "cache_ok bbl as"
    and new: "load m n = Some nb" "bb_next nb = None" "n \<notin> set as"
    and fresh: "bb_block nb \<notin> bb_block ` set (bbs (load m) as)"
    and un: "unshared (core nb # bbs (load m) as)"
  shows "\<exists>bbl' m' as'. queue_bb bbl n m = Some (0, bbl', m') \<and> bbl_inv m' bbl' as' \<and>
     bbs (load m') as' = queue_spec (block_size bbl) (core nb) (bbs (load m) as) \<and>
     block_size bbl' = block_size bbl \<and> set as' \<subseteq> insert n (set as) \<and>
     names m' = names m \<and> avail m' = avail m \<and>
     (\<forall>x. x \<notin> insert n (set as) \<longrightarrow> load m' x = load m x) \<and>
     (if absorbed (block_size bbl) (core nb) (bbs (load m) as)
      then last_used bbl' = Some n \<and> load m' n = None else cache_ok bbl' as')"
proof -
  have ch: "chain (load m) (data_blocks bbl) as None" and asc: "ascending (bbs (load m) as)"
    and bs: "block_size bbl \<noteq> 0"
    using inv unfolding bbl_inv_def by blast+
  show ?thesis
  proof (cases as)
    case Nil
    then show ?thesis
      using ch new un bs cache
      by (intro exI [of _ "bbl\<lparr>data_blocks := Some n\<rparr>"] exI [of _ m] exI [of _ "[n]"])
        (auto simp: queue_bb_def queue_spec_def absorbed_def bbl_inv_def cache_ok_def split: option.splits)
  next
    case (Cons h as0)
    then obtain hb where hb: "data_blocks bbl = Some h" "load m h = Some hb"
      using ch by auto
    show ?thesis
    proof (cases "bb_block nb < bb_block hb")
      case True
      let ?m = "write_cell m n (Some (nb\<lparr>bb_next := Some h\<rparr>))"
      have bb: "bbs (load ?m) (n # as) = core nb # bbs (load m) as"
        using new by simp
      have "\<forall>x \<in> set (bbs (load m) as). bb_block nb < bb_block x"
        using asc True Cons hb by (auto intro: less_trans)
      then have "bbl_inv ?m (bbl\<lparr>data_blocks := Some n\<rparr>) (n # as)"
        unfolding bbl_inv_def bb using ch asc un bs new hb by simp
      moreover have "\<not> absorbed (block_size bbl) (core nb) (bbs (load m) as)"
        using True Cons hb by (auto simp: absorbed_def)
      moreover have "queue_spec (block_size bbl) (core nb) (bbs (load m) as) = core nb # bbs (load m) as"
        using True Cons hb by (simp add: queue_spec_def)
      ultimately show ?thesis
        using hb new True cache bb
        by (intro exI [of _ "bbl\<lparr>data_blocks := Some n\<rparr>"] exI [of _ ?m] exI [of _ "n # as"])
          (auto simp: queue_bb_def cache_ok_def split: option.splits)
    next
      case False
      then have "\<not> bb_block nb < bb_block (the (load m h))"
        using hb by simp
      from queue_bb_behind [OF inv cache new fresh un hb(1) this]
      obtain bbl' m' as' where run: "queue_bb bbl n m = Some (0, bbl', m')" "bbl_inv m' bbl' as'"
        "bbs (load m') as' = queue_spec (block_size bbl) (core nb) (bbs (load m) as)"
        and fr: "block_size bbl' = block_size bbl" "set as' \<subseteq> insert n (set as)"
          "names m' = names m" "avail m' = avail m"
          "\<forall>x. x \<notin> insert n (set as) \<longrightarrow> load m' x = load m x"
        and lu: "last_used bbl' = Some n"
          "if absorbed (block_size bbl) (core nb) (bbs (load m) as) then load m' n = None else n \<in> set as'"
        by blast
      then show ?thesis
        by (intro exI [of _ bbl'] exI [of _ m'] exI [of _ as']) (simp add: cache_ok_def)
    qed
  qed
qed

section \<open>Freed blocks stay in the store\<close>

lemma write_cell_length [simp]: "length (cells (write_cell m a v)) = length (cells m)"
  by (simp add: write_cell_def)

lemma store_length:
  "store a b m = Some m' \<Longrightarrow> length (cells m') = length (cells m)"
  "set_next a n m = Some m' \<Longrightarrow> length (cells m') = length (cells m)"
  "free_cell a m = Some m' \<Longrightarrow> length (cells m') = length (cells m)"
  "free_name q m = Some m' \<Longrightarrow> length (cells m') = length (cells m)"
  by (auto simp: store_def set_next_def free_cell_def free_name_def option_run split: option.splits)

lemma backed_block_destroy_length:
  "backed_block_destroy a m = Some m' \<Longrightarrow> length (cells m') = length (cells m)"
  by (cases "load m a"; cases "bb_src (the (load m a))")
    (auto simp: backed_block_destroy_def option_run dest!: store_length)

lemma merge_bb_length: "merge_bb bbl a b m = Some (r, m') \<Longrightarrow> length (cells m') = length (cells m)"
  by (auto simp: merge_bb_def option_run dest!: store_length backed_block_destroy_length
      split: option.splits if_splits)

lemma queue_link_length: "queue_link a b m = Some m' \<Longrightarrow> length (cells m') = length (cells m)"
  by (auto simp: queue_link_def option_run dest!: store_length split: option.splits)

lemma queue_bb_length:
  "queue_bb bbl n m = Some (r, bbl', m') \<Longrightarrow> length (cells m') = length (cells m)"
  by (auto simp: queue_bb_def option_run Let_def dest!: store_length merge_bb_length queue_link_length
      split: option.splits if_splits)

section \<open>What a client sees of the list\<close>

text \<open>The cells of a list, in order; \<^term>\<open>None\<close> when a link dangles or the list is cyclic.\<close>

partial_function (option) walk :: "bb_mem \<Rightarrow> addr option \<Rightarrow> addr list option" where
  "walk m p = (case p of None \<Rightarrow> Some []
     | Some a \<Rightarrow> do { b \<leftarrow> load m a; as \<leftarrow> walk m (bb_next b); Some (a # as) })"

declare walk.simps [code]

lemma walk_simps [simp]:
  "walk m None = Some []"
  "walk m (Some a) = (case load m a of None \<Rightarrow> None | Some b \<Rightarrow> map_option ((#) a) (walk m (bb_next b)))"
  by (simp_all add: walk.simps [of m "Some a"] walk.simps [of m None] map_conv_bind_option comp_def
      split: option.splits)

lemma chain_walk: "chain (load m) p as None \<Longrightarrow> walk m p = Some as"
  by (induction as arbitrary: p) (auto simp: walk.simps)

lemma walk_chain: "walk m p = Some as \<Longrightarrow> chain (load m) p as None"
proof (induction as arbitrary: p)
  case Nil
  then show ?case
    by (auto simp: walk.simps [of m p] option_run split: option.splits)
next
  case (Cons a as)
  then show ?case
    by (auto simp: walk.simps [of m p] option_run split: option.splits)
qed

definition queue_ok :: "bb_mem \<Rightarrow> backed_block_list \<Rightarrow> bool" where
  "queue_ok m bbl = (case walk m (data_blocks bbl) of None \<Rightarrow> False
     | Some as \<Rightarrow> ascending (bbs (load m) as) \<and> unshared (bbs (load m) as) \<and>
         block_size bbl \<noteq> 0 \<and> cache_ok bbl as)"

definition queue_view :: "bb_mem \<Rightarrow> backed_block_list \<Rightarrow> bb_core list" where
  "queue_view m bbl = (case walk m (data_blocks bbl) of None \<Rightarrow> [] | Some as \<Rightarrow> bbs (load m) as)"

lemma queue_okI:
  "bbl_inv m bbl as \<Longrightarrow> cache_ok bbl as \<Longrightarrow> queue_ok m bbl \<and> queue_view m bbl = bbs (load m) as"
  by (auto simp: bbl_inv_def queue_ok_def queue_view_def dest: chain_walk)

lemma queue_okE:
  assumes "queue_ok m bbl"
  obtains as where "bbl_inv m bbl as" "cache_ok bbl as" "queue_view m bbl = bbs (load m) as"
  using assms
  by (auto simp: bbl_inv_def queue_ok_def queue_view_def split: option.splits dest: walk_chain)

text \<open>A new block that may be queued: its block number is free, its file name its own.\<close>

definition queueable :: "bb_core \<Rightarrow> bb_core list \<Rightarrow> bool" where
  "queueable n xs \<longleftrightarrow> bb_block n \<notin> bb_block ` set xs \<and> unshared (n # xs)"

abbreviation as_cell :: "bb_core \<Rightarrow> backed_block" where
  "as_cell n \<equiv> bb_core.extend n \<lparr>bb_next = None\<rparr>"

lemma core_extend [simp]: "core (bb_core.extend n r) = n"
  by (simp add: core_def bb_core.truncate_def bb_core.extend_def)

lemma as_cell_sel [simp]:
  "bb_next (as_cell n) = None" "bb_block (as_cell n) = bb_block n"
  "bb_len (as_cell n) = bb_len n" "bb_src (as_cell n) = bb_src n"
  by (simp_all add: bb_core.extend_def)

lemma queue_view_new: "queue_view m \<lparr>data_blocks = None, last_used = None, block_size = bs\<rparr> = []"
  by (simp add: queue_view_def walk.simps)

lemma queue_fresh_run:
  assumes ok: "queue_ok m bbl" and q: "queueable n (queue_view m bbl)"
    and ld: "load m1 = (load m)(a \<mapsto> as_cell n)" "load m a = None" "a < length (cells m1)"
  shows "\<exists>bbl' m'. queue_bb bbl a m1 = Some (0, bbl', m') \<and>
     queue_view m' bbl' = queue_spec (block_size bbl) n (queue_view m bbl) \<and>
     block_size bbl' = block_size bbl \<and> avail m' = avail m1 \<and> names m' = names m1 \<and>
     (if absorbed (block_size bbl) n (queue_view m bbl)
      then \<exists>lu. last_used bbl' = Some lu \<and> load m' lu = None \<and> lu < length (cells m')
      else queue_ok m' bbl')"
proof -
  obtain as where inv: "bbl_inv m bbl as" and cache: "cache_ok bbl as"
    and v: "queue_view m bbl = bbs (load m) as"
    using queue_okE [OF ok] .
  have na: "a \<notin> set as"
    using inv ld(2) chain_dom [of "load m" "data_blocks bbl" as None] unfolding bbl_inv_def by auto
  have inv1: "bbl_inv m1 bbl as" and bb1: "bbs (load m1) as = bbs (load m) as"
    using inv na ld(1) by (simp_all add: bbl_inv_def)
  obtain bbl' m' as' where run: "queue_bb bbl a m1 = Some (0, bbl', m')" "bbl_inv m' bbl' as'"
    "bbs (load m') as' = queue_spec (block_size bbl) n (bbs (load m) as)"
    and fr: "block_size bbl' = block_size bbl" "names m' = names m1" "avail m' = avail m1"
    and lu: "if absorbed (block_size bbl) n (bbs (load m) as)
      then last_used bbl' = Some a \<and> load m' a = None else cache_ok bbl' as'"
    using queue_bb_run [OF inv1 cache, of a "as_cell n"] ld na q v bb1 unfolding queueable_def by auto
  have "queue_view m' bbl' = bbs (load m') as'"
    using run(2) by (auto simp: bbl_inv_def queue_view_def dest: chain_walk)
  then show ?thesis
    using run fr lu v queue_okI [OF run(2)] queue_bb_length [OF run(1)] ld(3)
    by (auto split: if_splits)
qed

lemma add_cell_run:
  assumes ok: "queue_ok m bbl" and room: "0 < avail m" and q: "queueable n (queue_view m bbl)"
  shows "\<exists>bbl' m'. add_cell bbl (as_cell n) m = Some (0, bbl', m') \<and>
     queue_view m' bbl' = queue_spec (block_size bbl) n (queue_view m bbl) \<and>
     block_size bbl' = block_size bbl \<and> avail m' = avail m - 1 \<and> names m' = names m \<and>
     (if absorbed (block_size bbl) n (queue_view m bbl)
      then \<exists>lu. last_used bbl' = Some lu \<and> load m' lu = None \<and> lu < length (cells m')
      else queue_ok m' bbl')"
proof -
  obtain a m1 where al: "alloc_cell (as_cell n) m = (Some a, m1)" and av: "avail m1 = avail m - 1"
    and new: "a < length (cells m1)"
    using room by (auto simp: alloc_cell_def)
  have ld: "load m1 = (load m)(a \<mapsto> as_cell n)" "load m a = None" "names m1 = names m"
    using load_alloc [OF al] by auto
  from queue_fresh_run [OF ok q ld(1,2) new] show ?thesis
    using al av ld(3) by (auto simp: add_cell_def)
qed

lemma queue_spec_behind_head:
  "xs \<noteq> [] \<Longrightarrow> \<not> bb_block n < bb_block (hd xs) \<Longrightarrow> queue_spec bs n xs =
     merge_prev bs (takeWhile (\<lambda>b. bb_block b < bb_block n) xs)
       (merge_next bs n (dropWhile (\<lambda>b. bb_block b < bb_block n) xs))"
  by (cases xs) (simp_all add: queue_spec_def)

text \<open>A block beyond the last one that does not continue it is appended.\<close>

lemma queue_spec_append:
  assumes "\<forall>x \<in> set xs. bb_block x < bb_block n" and "xs \<noteq> [] \<longrightarrow> \<not> can_merge bs (last xs) n"
  shows "queue_spec bs n xs = xs @ [n] \<and> \<not> absorbed bs n xs"
proof (cases "xs = []")
  case False
  have tw: "takeWhile (\<lambda>b. bb_block b < bb_block n) xs = xs"
    "dropWhile (\<lambda>b. bb_block b < bb_block n) xs = []"
    using assms(1) by (simp_all add: takeWhile_eq_all_conv)
  have "\<not> bb_block n < bb_block (hd xs)"
    using assms(1) False by (meson hd_in_set less_asym)
  then show ?thesis
    using False assms(2)
    by (simp add: queue_spec_behind_head absorbed_def tw merge_prev_def merge_next_def)
qed (simp add: queue_spec_def absorbed_def)

section \<open>The interface of the list and its clients\<close>

text \<open>
  What the rest of the library relies on: a sink that takes blocks one at a time, keeps
  them in order and reports the blocks it holds.  The law covers the additions that do not
  end in a merge with the preceding block.
\<close>

locale block_sink =
  fixes ok :: "'s \<Rightarrow> bool"
    and view :: "'s \<Rightarrow> bb_core list"
    and room :: "'s \<Rightarrow> nat"
    and bsize :: "'s \<Rightarrow> u32"
    and add :: "bb_core \<Rightarrow> 's \<Rightarrow> (int \<times> 's) option"
  assumes add_law: "ok s \<Longrightarrow> 0 < room s \<Longrightarrow> queueable n (view s) \<Longrightarrow>
      \<not> absorbed (bsize s) n (view s) \<Longrightarrow>
      \<exists>s'. add n s = Some (0, s') \<and> ok s' \<and> room s' = room s - 1 \<and> bsize s' = bsize s \<and>
        view s' = queue_spec (bsize s) n (view s)"
    and view_ascending: "ok s \<Longrightarrow> ascending (view s)"
begin

primrec add_all :: "bb_core list \<Rightarrow> 's \<Rightarrow> (int \<times> 's) option" where
  "add_all [] s = Some (0, s)"
| "add_all (n # ns) s = do { (r, s) \<leftarrow> add n s; if r < 0 then Some (r, s) else add_all ns s }"

lemma add_behind:
  assumes "ok s" "0 < room s" "\<forall>x \<in> set (view s). bb_block x < bb_block n"
    and "unshared (view s @ [n])" "view s \<noteq> [] \<longrightarrow> \<not> can_merge (bsize s) (last (view s)) n"
  shows "\<exists>s'. add n s = Some (0, s') \<and> ok s' \<and> room s' = room s - 1 \<and> bsize s' = bsize s \<and>
     view s' = view s @ [n]"
proof -
  have "queueable n (view s)"
    using assms(3,4) by (auto simp: queueable_def unshared_def)
  then show ?thesis
    using add_law [of s n] assms(1,2) queue_spec_append [OF assms(3,5)] by auto
qed

text \<open>Feeding a whole run of ascending blocks, none continuing its predecessor, appends the run.\<close>

lemma add_all_behind:
  assumes "ok s" "length ns \<le> room s" "ascending (view s @ ns)" "unshared (view s @ ns)"
    and "successively (\<lambda>a b. \<not> can_merge (bsize s) a b) (view s @ ns)"
  shows "\<exists>s'. add_all ns s = Some (0, s') \<and> ok s' \<and> room s' = room s - length ns \<and>
     bsize s' = bsize s \<and> view s' = view s @ ns"
  using assms
proof (induction ns arbitrary: s)
  case (Cons n ns)
  have "\<exists>s'. add n s = Some (0, s') \<and> ok s' \<and> room s' = room s - 1 \<and> bsize s' = bsize s \<and>
     view s' = view s @ [n]"
    using Cons.prems
    by (intro add_behind) (auto simp: sorted_wrt_append successively_append_iff unshared_def)
  then obtain s' where s': "add n s = Some (0, s')" "ok s'" "room s' = room s - 1"
    "bsize s' = bsize s" "view s' = view s @ [n]"
    by blast
  then show ?case
    using Cons.IH [of s'] Cons.prems by auto
qed simp

end

text \<open>The list of \<^verbatim>\<open>backed_block.c\<close> provides the interface.\<close>

definition sink_add :: "bb_core \<Rightarrow> backed_block_list \<times> bb_mem \<Rightarrow> (int \<times> backed_block_list \<times> bb_mem) option" where
  "sink_add n s = add_cell (fst s) (as_cell n) (snd s)"

interpretation bbq: block_sink
  "\<lambda>s. queue_ok (snd s) (fst s)" "\<lambda>s. queue_view (snd s) (fst s)" "\<lambda>s. avail (snd s)"
  "\<lambda>s. block_size (fst s)" sink_add
proof unfold_locales
  fix s :: "backed_block_list \<times> bb_mem" and n
  assume "queue_ok (snd s) (fst s)" "0 < avail (snd s)" "queueable n (queue_view (snd s) (fst s))"
    "\<not> absorbed (block_size (fst s)) n (queue_view (snd s) (fst s))"
  then show "\<exists>s'. sink_add n s = Some (0, s') \<and> queue_ok (snd s') (fst s') \<and>
      avail (snd s') = avail (snd s) - 1 \<and> block_size (fst s') = block_size (fst s) \<and>
      queue_view (snd s') (fst s') = queue_spec (block_size (fst s)) n (queue_view (snd s) (fst s))"
    using add_cell_run [of "snd s" "fst s" n] by (auto simp: sink_add_def)
next
  fix s :: "backed_block_list \<times> bb_mem"
  assume "queue_ok (snd s) (fst s)"
  then show "ascending (queue_view (snd s) (fst s))"
    by (auto simp: queue_ok_def queue_view_def split: option.splits)
qed

section \<open>Destroying a list\<close>

text \<open>Every name a block of the list holds is allocated.\<close>

definition names_ok :: "bb_mem \<Rightarrow> bb_core list \<Rightarrow> bool" where
  "names_ok m xs \<longleftrightarrow> (\<forall>n \<in> set (concat (map (src_name \<circ> bb_src) xs)). load_name m n \<noteq> None)"

lemma free_name_run:
  assumes "load_name m q = Some s"
  shows "\<exists>m'. free_name (Some q) m = Some m' \<and> load m' = load m \<and> avail m' = avail m \<and>
    load_name m' = (load_name m)(q := None)"
  using assms by (auto simp: free_name_def load_name_def load_def fun_eq_iff nth_list_update split: if_splits)

lemma backed_block_destroy_run:
  assumes "load m a = Some b" "\<forall>n \<in> set (src_name (bb_src b)). load_name m n \<noteq> None"
  shows "\<exists>m'. backed_block_destroy a m = Some m' \<and> load m' = (load m)(a := None) \<and>
    (\<forall>n. load_name m' n = (if n \<in> set (src_name (bb_src b)) then None else load_name m n))"
proof (cases "src_name (bb_src b) = []")
  case True
  then show ?thesis
    using backed_block_destroy_anonymous [OF assms(1)] assms(1) by simp
next
  case False
  then obtain q off where src: "bb_src b = File (Some q) off"
    by (cases "bb_src b" rule: src_name.cases) auto
  then obtain s where "load_name m q = Some s"
    using assms(2) by auto
  from free_name_run [OF this] obtain m1 where m1: "free_name (Some q) m = Some m1"
    "load m1 = load m" "load_name m1 = (load_name m)(q := None)"
    by blast
  then show ?thesis
    using src assms(1) by (simp add: backed_block_destroy_def)
qed

lemma destroy_from_run:
  assumes "chain (load m) p as None" "unshared (bbs (load m) as)" "names_ok m (bbs (load m) as)"
  shows "\<exists>m'. destroy_from p m = Some m' \<and> (\<forall>a. load m' a = (if a \<in> set as then None else load m a)) \<and>
    (\<forall>n. load_name m' n = (if n \<in> set (concat (map (src_name \<circ> bb_src) (bbs (load m) as)))
       then None else load_name m n))"
  using assms
proof (induction as arbitrary: p m)
  case Nil
  then show ?case by (simp add: destroy_from.simps)
next
  case (Cons a as)
  from Cons.prems(1) obtain b where b: "p = Some a" "load m a = Some b"
    "chain (load m) (bb_next b) as None"
    by auto
  have na: "a \<notin> set as"
    using chain_distinct [OF Cons.prems(1)] by simp
  obtain m1 where m1: "backed_block_destroy a m = Some m1" "load m1 = (load m)(a := None)"
    "\<forall>n. load_name m1 n = (if n \<in> set (src_name (bb_src b)) then None else load_name m n)"
    using backed_block_destroy_run [OF b(2)] Cons.prems(3) b(2) by (auto simp: names_ok_def)
  have bb: "bbs (load m1) as = bbs (load m) as"
    using m1(2) na by simp
  have un: "unshared (bbs (load m1) as)"
    using Cons.prems(2) by (simp add: bb unshared_def)
  have nm: "names_ok m1 (bbs (load m1) as)"
    using Cons.prems(2,3) b(2) m1(3) by (auto simp: bb names_ok_def unshared_def)
  have ch: "chain (load m1) (bb_next b) as None"
    using b(3) m1(2) na by simp
  from Cons.IH [OF ch un nm] obtain m' where m': "destroy_from (bb_next b) m1 = Some m'"
    "\<forall>x. load m' x = (if x \<in> set as then None else load m1 x)"
    "\<forall>n. load_name m' n = (if n \<in> set (concat (map (src_name \<circ> bb_src) (bbs (load m) as)))
       then None else load_name m1 n)"
    unfolding bb by blast
  have "destroy_from p m = Some m'"
    using b(1,2) m1(1) m'(1) by (simp add: destroy_from.simps [of "Some a"])
  then show ?case
    using m'(2,3) m1(2,3) b(2) by (intro exI [of _ m']) auto
qed

section \<open>Dangling caches\<close>

text \<open>An addition through a dangling cache reads freed memory.\<close>

lemma add_cell_dangling:
  assumes "last_used bbl = Some lu" "load m lu = None" "lu < length (cells m)" "0 < avail m"
    and "data_blocks bbl = Some h" "load m h = Some hb" "\<not> bb_block n < bb_block hb"
  shows "add_cell bbl (as_cell n) m = None"
proof -
  obtain a m1 where al: "alloc_cell (as_cell n) m = (Some a, m1)"
    using assms(4) by (auto simp: alloc_cell_def)
  have ld: "load m1 = (load m)(a \<mapsto> as_cell n)" "a = length (cells m)"
    using load_alloc [OF al] al by (auto simp: alloc_cell_def split: if_splits)
  have "load m1 lu = None" "load m1 h = Some hb" "load m1 a = Some (as_cell n)"
    using ld assms(2,3,6) by (auto simp: load_def split: if_splits)
  then show ?thesis
    using al assms(1,5,7) by (simp add: add_cell_def queue_bb_def queue_start_def)
qed

section \<open>Properties of the list\<close>

lemma insert_contents:
  "contents_of bs (ps @ n # ss) = content bs n \<union> contents_of bs (ps @ ss)"
  "whole_blocks bs (ps @ n # ss) \<longleftrightarrow> whole_blocks bs (n # ps @ ss)"
  by (auto simp: contents_of_def whole_blocks_def add.left_commute)

lemma merge_next_contents:
  assumes "whole_blocks bs (ps @ n # ss)" "\<forall>y \<in> set ss. bb_block n < bb_block y"
  obtains n' ss' where "merge_next bs n ss = n' # ss'" "bb_block n' = bb_block n"
    "contents_of bs (ps @ n' # ss') = contents_of bs (ps @ n # ss)" "whole_blocks bs (ps @ n' # ss')"
proof (cases ss)
  case Nil
  then show ?thesis using that [of n "[]"] assms(1) by (simp add: merge_next_def)
next
  case (Cons s ss')
  show ?thesis
  proof (cases "can_merge bs n s")
    case True
    then show ?thesis
      using that [of "merged n s" ss'] Cons assms contract_contents [of bs n s ps ss']
      by (simp add: merge_next_def)
  next
    case False
    then show ?thesis using that [of n ss] Cons assms(1) by (simp add: merge_next_def)
  qed
qed

lemma merge_prev_contents:
  assumes "whole_blocks bs (ps @ n # ss)" "ps \<noteq> []" "bb_block (last ps) < bb_block n"
  shows "contents_of bs (merge_prev bs ps (n # ss)) = contents_of bs (ps @ n # ss)"
proof -
  obtain qs p where ps: "ps = qs @ [p]" using assms(2) by (cases ps rule: rev_cases) auto
  then show ?thesis
    using contract_contents(1) [of bs p n qs ss] assms by (simp add: merge_prev_def)
qed

lemma queue_spec_contents:
  assumes "ascending xs" "bb_block n \<notin> bb_block ` set xs" "whole_blocks bs (n # xs)"
  shows "contents_of bs (queue_spec bs n xs) = content bs n \<union> contents_of bs xs"
proof (cases "xs = [] \<or> bb_block n < bb_block (hd xs)")
  case True
  then show ?thesis by (cases xs) (auto simp: queue_spec_def contents_of_def)
next
  case False
  let ?P = "takeWhile (\<lambda>b. bb_block b < bb_block n) xs" and ?S = "dropWhile (\<lambda>b. bb_block b < bb_block n) xs"
  have after: "\<forall>y \<in> set ?S. bb_block n < bb_block y"
    using ascending_split [OF assms(1), of "bb_block n"] assms(2)
    by (metis image_eqI linorder_less_linear set_dropWhileD)
  have ne: "?P \<noteq> []"
    using False assms(2) by (cases xs) (auto simp: not_less order.order_iff_strict)
  have before: "bb_block (last ?P) < bb_block n"
    using ne last_in_set set_takeWhileD by metis
  have w: "whole_blocks bs (?P @ n # ?S)"
    using assms(3) insert_contents(2) [of bs ?P n ?S] by simp
  obtain n' S' where N: "merge_next bs n ?S = n' # S'" "bb_block n' = bb_block n"
    and c1: "contents_of bs (?P @ n' # S') = contents_of bs (?P @ n # ?S)" "whole_blocks bs (?P @ n' # S')"
    using merge_next_contents [OF w after] .
  have "contents_of bs (merge_prev bs ?P (n' # S')) = contents_of bs (?P @ n' # S')"
    using merge_prev_contents [OF c1(2) ne] before N(2) by simp
  moreover have "contents_of bs (?P @ n # ?S) = content bs n \<union> contents_of bs xs"
    using insert_contents(1) [of bs ?P n ?S] by simp
  ultimately show ?thesis
    using False N(1) c1(1) by (simp add: queue_spec_behind_head)
qed

text \<open>
  What a successful addition is: the block is queued as the abstract queue says, and when the
  lengths are whole blocks the image gains exactly the bytes of the new block.
\<close>

definition queued ::
  "bb_mem \<Rightarrow> backed_block_list \<Rightarrow> bb_core \<Rightarrow> (int \<times> backed_block_list \<times> bb_mem) option \<Rightarrow> bool" where
  "queued m bbl n res \<longleftrightarrow> (\<exists>bbl' m'. res = Some (0, bbl', m') \<and>
     queue_view m' bbl' = queue_spec (block_size bbl) n (queue_view m bbl) \<and>
     block_size bbl' = block_size bbl \<and>
     (\<not> absorbed (block_size bbl) n (queue_view m bbl) \<longrightarrow> queue_ok m' bbl') \<and>
     (whole_blocks (block_size bbl) (n # queue_view m bbl) \<longrightarrow>
       contents_of (block_size bbl) (queue_view m' bbl') =
         content (block_size bbl) n \<union> contents_of (block_size bbl) (queue_view m bbl)))"

lemma queueable_anonymous:
  assumes "queue_ok m bbl" "bb_block n \<notin> bb_block ` set (queue_view m bbl)" "src_name (bb_src n) = []"
  shows "queueable n (queue_view m bbl)"
  using assms by (auto simp: queueable_def unshared_def queue_ok_def queue_view_def split: option.splits)

lemma queue_ok_ascending: "queue_ok m bbl \<Longrightarrow> ascending (queue_view m bbl)"
  by (auto simp: queue_ok_def queue_view_def split: option.splits)

lemma queuedI:
  assumes "queue_ok m bbl" "bb_block n \<notin> bb_block ` set (queue_view m bbl)" "res = Some (0, bbl', m')"
    and "queue_view m' bbl' = queue_spec (block_size bbl) n (queue_view m bbl)" "block_size bbl' = block_size bbl"
    and "\<not> absorbed (block_size bbl) n (queue_view m bbl) \<Longrightarrow> queue_ok m' bbl'"
  shows "queued m bbl n res"
  using assms queue_spec_contents [OF queue_ok_ascending [OF assms(1)] assms(2)] by (simp add: queued_def)

lemma add_cell_queued:
  assumes "queue_ok m bbl" "0 < avail m" "bb_block n \<notin> bb_block ` set (queue_view m bbl)"
    "src_name (bb_src n) = []"
  shows "queued m bbl n (add_cell bbl (as_cell n) m)"
  using add_cell_run [OF assms(1,2) queueable_anonymous [OF assms(1,3,4)]]
  by (auto intro: queuedI [OF assms(1,3)] split: if_splits)

text \<open>A file block gets a copy of its name that no other block holds.\<close>

lemma queueable_named:
  assumes "queue_ok m bbl" "bb_block n \<notin> bb_block ` set (queue_view m bbl)"
    "names_ok m (queue_view m bbl)" "bb_src n = File (Some (length (names m))) off"
  shows "queueable n (queue_view m bbl)"
proof -
  have "\<forall>q \<in> set (concat (map (src_name \<circ> bb_src) (queue_view m bbl))). q < length (names m)"
    using assms(3) unfolding names_ok_def load_name_def by (metis option.simps(3))
  moreover have "unshared (queue_view m bbl)"
    using assms(1) by (auto simp: queue_ok_def queue_view_def split: option.splits)
  ultimately show ?thesis
    using assms(2,4) by (auto simp: queueable_def unshared_def)
qed

lemma add_file_queued:
  assumes "queue_ok m bbl" "2 \<le> avail m" "block \<notin> bb_block ` set (queue_view m bbl)"
    "names_ok m (queue_view m bbl)"
    and n: "n = \<lparr>bb_block = block, bb_len = len, bb_src = File (Some (length (names m))) off\<rparr>"
  shows "queued m bbl n (backed_block_add_file bbl filename off len block m)"
    "\<exists>r bbl' m'. backed_block_add_file bbl filename off len block m = Some (r, bbl', m') \<and>
       load_name m' (length (names m)) = Some filename"
proof -
  let ?c0 = "\<lparr>bb_block = block, bb_len = len, bb_src = File None off, bb_next = None\<rparr>"
  let ?m0 = "m\<lparr>cells := cells m @ [Some ?c0], avail := avail m - 1\<rparr>" and ?a = "length (cells m)"
  let ?m1 = "?m0\<lparr>names := names m @ [Some filename], avail := avail m - 2\<rparr>"
  let ?m2 = "write_cell ?m1 ?a (Some (as_cell n))"
  have ld0: "load ?m1 = (load m)(?a \<mapsto> ?c0)"
    by (auto simp: load_def fun_eq_iff nth_append)
  then have "load ?m1 ?a = Some ?c0" by simp
  then have ld: "load ?m2 = (load m)(?a \<mapsto> as_cell n)"
    using ld0 by simp
  have run: "backed_block_add_file bbl filename off len block m = queue_bb bbl ?a ?m2"
    using assms(2) \<open>load ?m1 ?a = Some ?c0\<close>
    by (simp add: backed_block_add_file_def alloc_cell_def strdup_name_def n bb_core.extend_def numeral_2_eq_2)
  have q: "queueable n (queue_view m bbl)"
    using queueable_named [OF assms(1) _ assms(4)] assms(3) by (simp add: n)
  obtain bbl' m' where r: "queue_bb bbl ?a ?m2 = Some (0, bbl', m')"
    "queue_view m' bbl' = queue_spec (block_size bbl) n (queue_view m bbl)"
    "block_size bbl' = block_size bbl" "names m' = names ?m2"
    "\<not> absorbed (block_size bbl) n (queue_view m bbl) \<Longrightarrow> queue_ok m' bbl'"
    using queue_fresh_run [OF assms(1) q ld] by auto
  then show "queued m bbl n (backed_block_add_file bbl filename off len block m)"
    using assms(3) by (intro queuedI [OF assms(1) _ run [unfolded r(1)]]) (simp_all add: n)
  show "\<exists>r bbl' m'. backed_block_add_file bbl filename off len block m = Some (r, bbl', m') \<and>
       load_name m' (length (names m)) = Some filename"
    using run r(1,4) by (simp add: load_name_def)
qed

text \<open>
  C3: \<^verbatim>\<open>backed_block_add_fill\<close>, \<^verbatim>\<open>backed_block_add_data\<close>, \<^verbatim>\<open>backed_block_add_fd\<close> and
  \<^verbatim>\<open>backed_block_add_file\<close> implement the abstract queue: on a well-formed list whose file names are
  allocated, with memory left and a free block number, they succeed and the list then holds the
  blocks in ascending order with the new one merged with the neighbours it continues; a file
  block refers to a copy of the given name.  When the lengths are whole blocks (and below 32
  bits together) the image the list describes gains exactly the bytes of the new block.  Unless
  the new block was merged into its predecessor, the list is well formed again.
\<close>

theorem backed_block_add_refines:
  assumes "queue_ok m bbl" "names_ok m (queue_view m bbl)" "2 \<le> avail m"
    and "block \<notin> bb_block ` set (queue_view m bbl)"
  shows "queued m bbl \<lparr>bb_block = block, bb_len = len, bb_src = Fill v\<rparr>
      (backed_block_add_fill bbl v len block m) \<and>
    queued m bbl \<lparr>bb_block = block, bb_len = len, bb_src = Data d\<rparr>
      (backed_block_add_data bbl d len block m) \<and>
    queued m bbl \<lparr>bb_block = block, bb_len = len, bb_src = Fd fd off\<rparr>
      (backed_block_add_fd bbl fd off len block m) \<and>
    queued m bbl \<lparr>bb_block = block, bb_len = len, bb_src = File (Some (length (names m))) off\<rparr>
      (backed_block_add_file bbl filename off len block m) \<and>
    (\<exists>r bbl' m'. backed_block_add_file bbl filename off len block m = Some (r, bbl', m') \<and>
       load_name m' (length (names m)) = Some filename)"
proof -
  have "0 < avail m" using assms(3) by simp
  note q = add_cell_queued [OF assms(1) this]
  show ?thesis
    using q [of "\<lparr>bb_block = block, bb_len = len, bb_src = Fill v\<rparr>"]
      q [of "\<lparr>bb_block = block, bb_len = len, bb_src = Data d\<rparr>"]
      q [of "\<lparr>bb_block = block, bb_len = len, bb_src = Fd fd off\<rparr>"] assms(4)
      add_file_queued [OF assms(1,3,4,2) refl, where len = len and off = off and filename = filename]
    by (simp add: backed_block_add_fill_def backed_block_add_data_def backed_block_add_fd_def
        bb_core.extend_def)
qed

text \<open>A list of one fill, with room for more.\<close>

definition ex_bbl :: backed_block_list where
  "ex_bbl = \<lparr>data_blocks = Some 0, last_used = None, block_size = 8\<rparr>"

definition ex_bbl_mem :: bb_mem where
  "ex_bbl_mem = \<lparr>cells = [Some \<lparr>bb_block = 3, bb_len = 8, bb_src = Fill 7, bb_next = None\<rparr>],
     names = [], avail = 5\<rparr>"

lemma ex_bbl_ok: "queue_ok ex_bbl_mem ex_bbl"
  "queue_view ex_bbl_mem ex_bbl = [\<lparr>bb_block = 3, bb_len = 8, bb_src = Fill 7\<rparr>]"
  by (simp_all add: queue_ok_def queue_view_def ex_bbl_def ex_bbl_mem_def load_def unshared_def
      cache_ok_def core_def bb_core.truncate_def)

theorem backed_block_add_refines_witness:
  "queued ex_bbl_mem ex_bbl \<lparr>bb_block = 2, bb_len = 8, bb_src = Fill 7\<rparr>
     (backed_block_add_fill ex_bbl 7 8 2 ex_bbl_mem) \<and>
   queued ex_bbl_mem ex_bbl \<lparr>bb_block = 2, bb_len = 8, bb_src = File (Some 0) 0\<rparr>
     (backed_block_add_file ex_bbl ''system.img'' 0 8 2 ex_bbl_mem)"
  using backed_block_add_refines [OF ex_bbl_ok(1), of 2 8 7 "[]" 0 0 "''system.img''"] ex_bbl_ok(2)
  by (simp add: ex_bbl_mem_def names_ok_def)

lemma queue_spec_head:
  assumes "absorbed bs n xs"
  shows "queue_spec bs n xs \<noteq> []" "bb_block (hd (queue_spec bs n xs)) = bb_block (hd xs)"
proof -
  have x: "xs \<noteq> []" "bb_block (hd xs) < bb_block n"
    using assms by (simp_all add: absorbed_def)
  let ?ps = "takeWhile (\<lambda>b. bb_block b < bb_block n) xs"
  have "?ps \<noteq> []" "hd ?ps = hd xs"
    using x by (cases xs; simp)+
  then have "butlast ?ps @ merged (last ?ps) y # ys \<noteq> [] \<and>
      bb_block (hd (butlast ?ps @ merged (last ?ps) y # ys)) = bb_block (hd xs)" for y ys
    by (cases ?ps rule: rev_cases; cases "butlast ?ps") auto
  then show "queue_spec bs n xs \<noteq> []" "bb_block (hd (queue_spec bs n xs)) = bb_block (hd xs)"
    using x assms by (simp_all add: queue_spec_behind_head absorbed_def merge_prev_def not_less)
qed

text \<open>
  C32: Once an addition has been merged into the preceding block, the list's cached pointer
  refers to freed memory: the addition itself succeeds, but the next addition that does not
  go in front of the whole list reads the freed block.
\<close>

theorem queue_bb_use_after_free:
  assumes "queue_ok m bbl" "2 \<le> avail m" "block \<notin> bb_block ` set (queue_view m bbl)"
    and "absorbed (block_size bbl) \<lparr>bb_block = block, bb_len = len, bb_src = Fill v\<rparr> (queue_view m bbl)"
    and "bb_block (hd (queue_view m bbl)) \<le> block2"
  shows "\<exists>bbl' m'. backed_block_add_fill bbl v len block m = Some (0, bbl', m') \<and>
    backed_block_add_fill bbl' w len2 block2 m' = None"
proof -
  let ?n = "\<lparr>bb_block = block, bb_len = len, bb_src = Fill v\<rparr>" and ?xs = "queue_view m bbl"
  obtain bbl' m' lu where add: "add_cell bbl (as_cell ?n) m = Some (0, bbl', m')"
    "queue_view m' bbl' = queue_spec (block_size bbl) ?n ?xs" "avail m' = avail m - 1"
    "last_used bbl' = Some lu" "load m' lu = None" "lu < length (cells m')"
    using add_cell_run [OF assms(1) _ queueable_anonymous [OF assms(1)], of ?n] assms(2-4) by auto
  have hd: "queue_view m' bbl' \<noteq> []" "bb_block (hd (queue_view m' bbl')) = bb_block (hd ?xs)"
    using queue_spec_head [OF assms(4)] add(2) by simp_all
  then obtain as' where as': "walk m' (data_blocks bbl') = Some as'" "as' \<noteq> []"
    by (cases "walk m' (data_blocks bbl')") (auto simp: queue_view_def bbs_def)
  then obtain h as where "walk m' (data_blocks bbl') = Some (h # as)"
    by (cases as') auto
  then have "data_blocks bbl' = Some h" "\<exists>hb. load m' h = Some hb \<and> bb_block hb = bb_block (hd ?xs)"
    using walk_chain [of m' "data_blocks bbl'" "h # as"] hd(2) by (auto simp: queue_view_def)
  then have "add_cell bbl' (as_cell \<lparr>bb_block = block2, bb_len = len2, bb_src = Fill w\<rparr>) m' = None"
    using add_cell_dangling [OF add(4-6)] add(3) assms(2,5) by auto
  then show ?thesis
    using add(1) by (simp add: backed_block_add_fill_def bb_core.extend_def)
qed

theorem queue_bb_use_after_free_witness:
  "\<exists>bbl' m'. backed_block_add_fill ex_bbl 7 8 4 ex_bbl_mem = Some (0, bbl', m') \<and>
    backed_block_add_fill bbl' 7 8 5 m' = None"
  using queue_bb_use_after_free [OF ex_bbl_ok(1), of 4 8 7 5 7 8]
  by (simp add: ex_bbl_ok(2) absorbed_def can_merge_def merge_next_def) (simp add: ex_bbl_def ex_bbl_mem_def)

text \<open>
  C30: \<^verbatim>\<open>backed_block_list_destroy\<close> of a well-formed list whose file names are allocated frees every
  block of the list and every file name they hold, each exactly once, and touches nothing
  else.
\<close>

theorem backed_block_list_destroy_frees:
  assumes "queue_ok m bbl" "names_ok m (queue_view m bbl)" "walk m (data_blocks bbl) = Some as"
  shows "\<exists>m'. backed_block_list_destroy bbl m = Some m' \<and>
    (\<forall>a. load m' a = (if a \<in> set as then None else load m a)) \<and>
    (\<forall>n. load_name m' n = (if n \<in> set (concat (map (src_name \<circ> bb_src) (queue_view m bbl)))
       then None else load_name m n))"
proof -
  have "unshared (queue_view m bbl)" "queue_view m bbl = bbs (load m) as"
    using assms(1,3) by (auto simp: queue_ok_def queue_view_def)
  then show ?thesis
    using destroy_from_run [OF walk_chain [OF assms(3)]] assms(2)
    by (simp add: backed_block_list_destroy_def)
qed

theorem backed_block_list_destroy_frees_witness:
  "\<exists>m'. backed_block_list_destroy ex_bbl ex_bbl_mem = Some m' \<and> load m' 0 = None"
proof -
  have "walk ex_bbl_mem (data_blocks ex_bbl) = Some [0]"
    by (simp add: ex_bbl_def ex_bbl_mem_def load_def)
  then show ?thesis
    using backed_block_list_destroy_frees [OF ex_bbl_ok(1), of "[0]"]
    by (auto simp: ex_bbl_ok(2) names_ok_def)
qed

end
