(* ===== verification/Crc32.thy ===== *)
theory Crc32
  imports Prelude
begin

text \<open>
  The table-driven CRC-32 of \<^verbatim>\<open>libsparse/sparse_crc32.c\<close>, which protects the payload of a
  sparse image: the 256-entry table as the file has it, the byte loop, the equivalence
  with the bit-serial shift register the file's comment describes (polynomial
  \<^verbatim>\<open>0xedb88320\<close>), the law that lets the callers feed an image piecewise, and the
  guarantee that no single-byte corruption goes unnoticed.
\<close>

section \<open>The program\<close>

definition crc32_tab :: "u32 list" where
  "crc32_tab =
    [0x00000000, 0x77073096, 0xee0e612c, 0x990951ba, 0x076dc419, 0x706af48f,
     0xe963a535, 0x9e6495a3, 0x0edb8832, 0x79dcb8a4, 0xe0d5e91e, 0x97d2d988,
     0x09b64c2b, 0x7eb17cbd, 0xe7b82d07, 0x90bf1d91, 0x1db71064, 0x6ab020f2,
     0xf3b97148, 0x84be41de, 0x1adad47d, 0x6ddde4eb, 0xf4d4b551, 0x83d385c7,
     0x136c9856, 0x646ba8c0, 0xfd62f97a, 0x8a65c9ec, 0x14015c4f, 0x63066cd9,
     0xfa0f3d63, 0x8d080df5, 0x3b6e20c8, 0x4c69105e, 0xd56041e4, 0xa2677172,
     0x3c03e4d1, 0x4b04d447, 0xd20d85fd, 0xa50ab56b, 0x35b5a8fa, 0x42b2986c,
     0xdbbbc9d6, 0xacbcf940, 0x32d86ce3, 0x45df5c75, 0xdcd60dcf, 0xabd13d59,
     0x26d930ac, 0x51de003a, 0xc8d75180, 0xbfd06116, 0x21b4f4b5, 0x56b3c423,
     0xcfba9599, 0xb8bda50f, 0x2802b89e, 0x5f058808, 0xc60cd9b2, 0xb10be924,
     0x2f6f7c87, 0x58684c11, 0xc1611dab, 0xb6662d3d, 0x76dc4190, 0x01db7106,
     0x98d220bc, 0xefd5102a, 0x71b18589, 0x06b6b51f, 0x9fbfe4a5, 0xe8b8d433,
     0x7807c9a2, 0x0f00f934, 0x9609a88e, 0xe10e9818, 0x7f6a0dbb, 0x086d3d2d,
     0x91646c97, 0xe6635c01, 0x6b6b51f4, 0x1c6c6162, 0x856530d8, 0xf262004e,
     0x6c0695ed, 0x1b01a57b, 0x8208f4c1, 0xf50fc457, 0x65b0d9c6, 0x12b7e950,
     0x8bbeb8ea, 0xfcb9887c, 0x62dd1ddf, 0x15da2d49, 0x8cd37cf3, 0xfbd44c65,
     0x4db26158, 0x3ab551ce, 0xa3bc0074, 0xd4bb30e2, 0x4adfa541, 0x3dd895d7,
     0xa4d1c46d, 0xd3d6f4fb, 0x4369e96a, 0x346ed9fc, 0xad678846, 0xda60b8d0,
     0x44042d73, 0x33031de5, 0xaa0a4c5f, 0xdd0d7cc9, 0x5005713c, 0x270241aa,
     0xbe0b1010, 0xc90c2086, 0x5768b525, 0x206f85b3, 0xb966d409, 0xce61e49f,
     0x5edef90e, 0x29d9c998, 0xb0d09822, 0xc7d7a8b4, 0x59b33d17, 0x2eb40d81,
     0xb7bd5c3b, 0xc0ba6cad, 0xedb88320, 0x9abfb3b6, 0x03b6e20c, 0x74b1d29a,
     0xead54739, 0x9dd277af, 0x04db2615, 0x73dc1683, 0xe3630b12, 0x94643b84,
     0x0d6d6a3e, 0x7a6a5aa8, 0xe40ecf0b, 0x9309ff9d, 0x0a00ae27, 0x7d079eb1,
     0xf00f9344, 0x8708a3d2, 0x1e01f268, 0x6906c2fe, 0xf762575d, 0x806567cb,
     0x196c3671, 0x6e6b06e7, 0xfed41b76, 0x89d32be0, 0x10da7a5a, 0x67dd4acc,
     0xf9b9df6f, 0x8ebeeff9, 0x17b7be43, 0x60b08ed5, 0xd6d6a3e8, 0xa1d1937e,
     0x38d8c2c4, 0x4fdff252, 0xd1bb67f1, 0xa6bc5767, 0x3fb506dd, 0x48b2364b,
     0xd80d2bda, 0xaf0a1b4c, 0x36034af6, 0x41047a60, 0xdf60efc3, 0xa867df55,
     0x316e8eef, 0x4669be79, 0xcb61b38c, 0xbc66831a, 0x256fd2a0, 0x5268e236,
     0xcc0c7795, 0xbb0b4703, 0x220216b9, 0x5505262f, 0xc5ba3bbe, 0xb2bd0b28,
     0x2bb45a92, 0x5cb36a04, 0xc2d7ffa7, 0xb5d0cf31, 0x2cd99e8b, 0x5bdeae1d,
     0x9b64c2b0, 0xec63f226, 0x756aa39c, 0x026d930a, 0x9c0906a9, 0xeb0e363f,
     0x72076785, 0x05005713, 0x95bf4a82, 0xe2b87a14, 0x7bb12bae, 0x0cb61b38,
     0x92d28e9b, 0xe5d5be0d, 0x7cdcefb7, 0x0bdbdf21, 0x86d3d2d4, 0xf1d4e242,
     0x68ddb3f8, 0x1fda836e, 0x81be16cd, 0xf6b9265b, 0x6fb077e1, 0x18b74777,
     0x88085ae6, 0xff0f6a70, 0x66063bca, 0x11010b5c, 0x8f659eff, 0xf862ae69,
     0x616bffd3, 0x166ccf45, 0xa00ae278, 0xd70dd2ee, 0x4e048354, 0x3903b3c2,
     0xa7672661, 0xd06016f7, 0x4969474d, 0x3e6e77db, 0xaed16a4a, 0xd9d65adc,
     0x40df0b66, 0x37d83bf0, 0xa9bcae53, 0xdebb9ec5, 0x47b2cf7f, 0x30b5ffe9,
     0xbdbdf21c, 0xcabac28a, 0x53b39330, 0x24b4a3a6, 0xbad03605, 0xcdd70693,
     0x54de5729, 0x23d967bf, 0xb3667a2e, 0xc4614ab8, 0x5d681b02, 0x2a6f2b94,
     0xb40bbe37, 0xc30c8ea1, 0x5a05df1b, 0x2d02ef8d]"

text \<open>One turn of the byte loop, and \<^verbatim>\<open>sparse_crc32\<close> itself.\<close>

definition crc32_byte :: "byte \<Rightarrow> u32 \<Rightarrow> u32" where
  "crc32_byte p crc = crc32_tab ! unat ((crc XOR ucast p) AND 0xFF) XOR drop_bit 8 crc"

definition sparse_crc32 :: "u32 \<Rightarrow> byte list \<Rightarrow> u32" where
  "sparse_crc32 crc_in buf = fold crc32_byte buf (crc_in XOR NOT 0) XOR NOT 0"

section \<open>The bit-serial reference\<close>

text \<open>
  The shift register of the file's comment: the lowest bit leaves on the right and, when it
  was set, the feedback terms are added.
\<close>

definition crc_shift :: "u32 \<Rightarrow> u32" where
  "crc_shift c = (if bit c 0 then drop_bit 1 c XOR 0xedb88320 else drop_bit 1 c)"

definition crc_ref_byte :: "byte \<Rightarrow> u32 \<Rightarrow> u32" where
  "crc_ref_byte p c = (crc_shift ^^ 8) (c XOR ucast p)"

definition crc_ref :: "u32 \<Rightarrow> byte list \<Rightarrow> u32" where
  "crc_ref c buf = NOT (fold crc_ref_byte buf (NOT c))"

section \<open>The register is linear and loses no information\<close>

lemma crc_shift_xor: "crc_shift (x XOR y) = crc_shift x XOR crc_shift y"
proof -
  have "drop_bit 1 (x XOR y) = drop_bit 1 x XOR drop_bit 1 y"
    by (rule bit_word_eqI) (simp add: bit_simps)
  then show ?thesis
    by (auto simp: crc_shift_def bit_simps ac_simps xor.left_commute)
qed

lemma crc_shift_pow_xor:
  "(crc_shift ^^ n) (x XOR y) = (crc_shift ^^ n) x XOR (crc_shift ^^ n) y"
  by (induction n) (simp_all add: crc_shift_xor)

lemma crc_shift_pow_high:
  "(\<forall>i < n. \<not> bit x i) \<Longrightarrow> (crc_shift ^^ n) x = drop_bit n x"
proof (induction n arbitrary: x)
  case 0
  then show ?case by simp
next
  case (Suc n)
  have "crc_shift x = drop_bit 1 x"
    using Suc.prems by (simp add: crc_shift_def)
  moreover have "\<forall>i < n. \<not> bit (drop_bit 1 x) i"
    using Suc.prems by (auto simp: bit_simps)
  ultimately show ?case
    using Suc.IH [of "drop_bit 1 x"] by (simp add: funpow_swap1)
qed

lemma byte_mask: "(0xFF :: u32) = mask 8"
  by (simp add: mask_eq_exp_minus_1)

lemma crc_shift_split:
  "(crc_shift ^^ 8) x = (crc_shift ^^ 8) (x AND 0xFF) XOR drop_bit 8 x"
proof -
  have low: "\<forall>i < 8. \<not> bit (x AND NOT 0xFF) i"
    unfolding byte_mask by (auto simp: bit_simps)
  have "x = (x AND 0xFF) XOR (x AND NOT 0xFF)"
    by (rule bit_word_eqI) (auto simp: bit_simps)
  then have "(crc_shift ^^ 8) x =
      (crc_shift ^^ 8) (x AND 0xFF) XOR (crc_shift ^^ 8) (x AND NOT 0xFF)"
    by (metis crc_shift_pow_xor)
  also have "(crc_shift ^^ 8) (x AND NOT 0xFF) = drop_bit 8 (x AND NOT 0xFF)"
    by (rule crc_shift_pow_high [OF low])
  also have "drop_bit 8 (x AND NOT 0xFF) = drop_bit 8 x"
    unfolding byte_mask by (rule bit_word_eqI) (auto simp: bit_simps dest: bit_imp_le_length)
  finally show ?thesis .
qed

lemma crc_shift_inj: "crc_shift x = crc_shift y \<Longrightarrow> x = y"
proof -
  assume eq: "crc_shift x = crc_shift y"
  have top: "bit (crc_shift c) 31 = bit c 0" for c
    using bit_imp_le_length [of c 32] by (auto simp: crc_shift_def bit_simps)
  have "bit x 0 = bit y 0"
    using eq top by metis
  moreover from this have "drop_bit 1 x = drop_bit 1 y"
    using eq by (auto simp: crc_shift_def word_xor_cancel split: if_splits)
  ultimately have "bit x n = bit y n" for n
    by (cases n) (auto simp: bit_drop_bit_eq dest: arg_cong [where f = "\<lambda>w. bit w (n - 1)"])
  then show ?thesis
    by (intro bit_word_eqI) simp
qed

lemma crc_shift_pow_inj: "(crc_shift ^^ n) x = (crc_shift ^^ n) y \<Longrightarrow> x = y"
  by (induction n) (auto dest: crc_shift_inj)

section \<open>The table holds eight shifts of every byte\<close>

lemma crc_shift_unfold8:
  "(crc_shift ^^ 8) c = crc_shift (crc_shift (crc_shift (crc_shift
     (crc_shift (crc_shift (crc_shift (crc_shift c)))))))"
  by (simp add: eval_nat_numeral)

lemma crc_shift_eval:
  "crc_shift 0 = 0"
  "crc_shift 1 = 0xedb88320"
  "crc_shift (numeral k) =
     (if bit (numeral k :: u32) 0 then drop_bit 1 (numeral k) XOR 0xedb88320
      else drop_bit 1 (numeral k))"
  by (simp_all add: crc_shift_def)

lemma crc32_tab_eq: "crc32_tab = map (\<lambda>n. (crc_shift ^^ 8) (word_of_nat n)) [0..<256]"
  by (simp add: crc32_tab_def crc_shift_unfold8 crc_shift_eval upt_conv_Cons)

lemma crc32_tab_nth:
  assumes "n < 256"
  shows "crc32_tab ! n = (crc_shift ^^ 8) (word_of_nat n)"
  using assms unfolding crc32_tab_eq by simp

lemma crc32_byte_eq: "crc32_byte p = crc_ref_byte p"
proof
  fix c :: u32
  let ?x = "c XOR ucast p"
  have "unat (?x AND 0xFF) \<le> unat (0xFF :: u32)"
    by (rule word_and_le1 [THEN word_le_nat_alt [THEN iffD1]])
  then have "unat (?x AND 0xFF) < 256"
    by simp
  then have "crc32_tab ! unat (?x AND 0xFF) = (crc_shift ^^ 8) (?x AND 0xFF)"
    using crc32_tab_nth [of "unat (?x AND 0xFF)"] by simp
  moreover have "drop_bit 8 ?x = drop_bit 8 c"
    by (rule bit_word_eqI) (auto simp: bit_simps dest: bit_imp_le_length)
  ultimately show "crc32_byte p c = crc_ref_byte p c"
    unfolding crc32_byte_def crc_ref_byte_def by (simp add: crc_shift_split [of ?x])
qed

lemma crc_ref_byte_inj: "crc_ref_byte p c = crc_ref_byte p d \<longleftrightarrow> c = d"
  by (auto simp: crc_ref_byte_def word_xor_cancel dest: crc_shift_pow_inj)

lemma crc_ref_byte_byte_inj:
  assumes "crc_ref_byte p c = crc_ref_byte q c"
  shows "p = q"
proof -
  have "c XOR ucast p = c XOR (ucast q :: u32)"
    using assms crc_shift_pow_inj unfolding crc_ref_byte_def by blast
  then have "(ucast p :: u32) = ucast q"
    by (simp add: word_xor_cancel xor.commute [of c])
  then have "bit p n = bit q n" if "n < 8" for n
    using that by (auto simp: bit_simps dest: arg_cong [where f = "\<lambda>w. bit w n"])
  then show ?thesis
    by (intro bit_word_eqI) simp
qed

lemma fold_crc_ref_inj: "fold crc_ref_byte buf c = fold crc_ref_byte buf d \<longleftrightarrow> c = d"
  by (induction buf arbitrary: c d) (simp_all add: crc_ref_byte_inj)

section \<open>Properties\<close>

lemma xor_ones: "c XOR NOT 0 = NOT (c :: u32)"
  by (rule bit_word_eqI) (auto simp: bit_simps)

lemma sparse_crc32_Nil [simp]: "sparse_crc32 c [] = c"
  by (simp add: sparse_crc32_def xor_ones)

text \<open>The callers feed an image piece by piece; the result is that of the whole.\<close>

lemma sparse_crc32_append: "sparse_crc32 c (xs @ ys) = sparse_crc32 (sparse_crc32 c xs) ys"
  by (simp add: sparse_crc32_def xor_ones)

lemma sparse_crc32_ref: "sparse_crc32 c buf = crc_ref c buf"
  unfolding sparse_crc32_def crc_ref_def crc32_byte_eq [abs_def] xor_ones ..

text \<open>
  C22: The table-driven loop of \<^verbatim>\<open>sparse_crc32\<close> computes, for every initial value and every
  buffer, exactly the CRC of the bit-serial shift register with polynomial 0xedb88320.
\<close>

theorem sparse_crc32_eq_ref: "sparse_crc32 c buf = crc_ref c buf"
  by (rule sparse_crc32_ref)

text \<open>
  Replacing one byte of a buffer by a different one always changes the checksum: two
  buffers that differ in exactly one position have equal CRCs only when the byte there is
  equal too.
\<close>

theorem sparse_crc32_single_byte:
  "sparse_crc32 c (xs @ b # ys) = sparse_crc32 c (xs @ b' # ys) \<longleftrightarrow> b = b'"
proof
  assume "sparse_crc32 c (xs @ b # ys) = sparse_crc32 c (xs @ b' # ys)"
  then have "crc_ref_byte b (fold crc_ref_byte xs (NOT c)) =
      crc_ref_byte b' (fold crc_ref_byte xs (NOT c))"
    by (simp add: sparse_crc32_def crc32_byte_eq [abs_def] xor_ones fold_crc_ref_inj)
  then show "b = b'"
    by (rule crc_ref_byte_byte_inj)
qed simp

end
