(* ===== verification/Posix_File.thy ===== *)
theory Posix_File
  imports Prelude
begin

text \<open>
  The part of the operating system's file interface the library uses, on one open file:
  its bytes, the file position, the size the device has room for and the most bytes one
  \<^verbatim>\<open>read\<close> call delivers (a pipe or a socket returns less than was asked).  \<open>io_error\<close> is the
  error every \<^verbatim>\<open>read\<close> reports, if the descriptor is broken.  \<^verbatim>\<open>read_all\<close> is the retry loop of
  \<^verbatim>\<open>libsparse/output_file.c\<close>.
\<close>

record posix_file =
  contents :: "byte list"
  pos :: nat
  cap :: nat
  rd_max :: nat
  io_error :: "int option"

section \<open>System calls\<close>

definition put_bytes :: "byte list \<Rightarrow> nat \<Rightarrow> byte list \<Rightarrow> byte list" where
  "put_bytes c p d = take p c @ replicate (p - length c) 0 @ d @ drop (p + length d) c"

text \<open>\<^verbatim>\<open>write\<close>: the number of bytes written, \<open>-1\<close> when there is room for none.\<close>

definition posix_write :: "byte list \<Rightarrow> posix_file \<Rightarrow> int \<times> posix_file" where
  "posix_write d f = (let n = min (length d) (cap f - pos f) in
     if d = [] then (0, f)
     else if n = 0 then (- 1, f)
     else (int n, f\<lparr>contents := put_bytes (contents f) (pos f) (take n d), pos := pos f + n\<rparr>))"

definition posix_lseek_cur :: "int \<Rightarrow> posix_file \<Rightarrow> int \<times> posix_file" where
  "posix_lseek_cur off f = (let p = int (pos f) + off in
     if p < 0 then (- 1, f) else (p, f\<lparr>pos := nat p\<rparr>))"

definition posix_lseek_set :: "int \<Rightarrow> posix_file \<Rightarrow> int \<times> posix_file" where
  "posix_lseek_set p f = (if p < 0 then (- 1, f) else (p, f\<lparr>pos := nat p\<rparr>))"

definition posix_lseek_end :: "int \<Rightarrow> posix_file \<Rightarrow> int \<times> posix_file" where
  "posix_lseek_end off f = posix_lseek_set (int (length (contents f)) + off) f"

text \<open>\<^verbatim>\<open>ftruncate\<close>: 0, or the negated error number.\<close>

definition posix_ftruncate :: "int \<Rightarrow> posix_file \<Rightarrow> int \<times> posix_file" where
  "posix_ftruncate len f = (if len < 0 then (- EINVAL, f)
     else if nat len > cap f then (- EFBIG, f)
     else (0, f\<lparr>contents := take (nat len) (contents f) @
       replicate (nat len - length (contents f)) 0\<rparr>))"

definition posix_read :: "nat \<Rightarrow> posix_file \<Rightarrow> (int + byte list) \<times> posix_file" where
  "posix_read n f = (case io_error f of Some e \<Rightarrow> (Inl e, f)
     | None \<Rightarrow> (let d = take (min n (rd_max f)) (drop (pos f) (contents f))
         in (Inr d, f\<lparr>pos := pos f + length d\<rparr>)))"

text \<open>
  \<^verbatim>\<open>mmap\<close> of \<open>sz\<close> bytes at a page-aligned offset: the error number, or the bytes the mapping
  shows, which are zero from the end of the file to the end of its last page.
\<close>

definition page_pad :: "byte list \<Rightarrow> byte list" where
  "page_pad c = c @ replicate (4096 * ((length c + 4095) div 4096) - length c) 0"

definition posix_mmap :: "byte list option \<Rightarrow> int \<Rightarrow> int \<Rightarrow> int + byte list" where
  "posix_mmap c sz off = (case c of None \<Rightarrow> Inl EBADF
     | Some c \<Rightarrow> if sz < 0 then Inl ENOMEM
         else if sz = 0 \<or> off < 0 then Inl EINVAL
         else Inr (drop (nat off) (page_pad c)))"

section \<open>Reading a whole buffer\<close>

function read_all_loop :: "nat \<Rightarrow> byte list \<Rightarrow> posix_file \<Rightarrow> (int + byte list) \<times> posix_file" where
  "read_all_loop n buf f = (if n = 0 then (Inr buf, f)
     else (case posix_read n f of
         (Inl e, f) \<Rightarrow> (Inl (- e), f)
       | (Inr d, f) \<Rightarrow> if d = [] then (Inl (- EINVAL), f)
           else read_all_loop (n - length d) (buf @ d) f))"
  by pat_completeness auto
termination
  by (relation "measure (\<lambda>(n, buf, f). n)")
    (auto simp: posix_read_def Let_def split: option.splits)

definition read_all :: "nat \<Rightarrow> posix_file \<Rightarrow> (int + byte list) \<times> posix_file" where
  "read_all len f = read_all_loop len [] f"

declare read_all_loop.simps [simp del]

section \<open>What reading delivers\<close>

text \<open>The state after \<open>n\<close> bytes have been read.\<close>

definition advance :: "nat \<Rightarrow> posix_file \<Rightarrow> posix_file" where
  "advance n f = f\<lparr>pos := pos f + n\<rparr>"

definition rest :: "posix_file \<Rightarrow> byte list" where
  "rest f = drop (pos f) (contents f)"

definition readable :: "posix_file \<Rightarrow> bool" where
  "readable f \<longleftrightarrow> 0 < rd_max f \<and> io_error f = None"

lemma rest_advance [simp]: "rest (advance n f) = drop n (rest f)"
  by (simp add: rest_def advance_def ac_simps)

lemma readable_advance [simp]: "readable (advance n f) = readable f"
  by (simp add: readable_def advance_def)

lemma advance_advance [simp]: "advance n (advance k f) = advance (k + n) f"
  by (simp add: advance_def ac_simps)

lemma advance_0 [simp]: "advance 0 f = f"
  by (simp add: advance_def)

lemma advance_sel [simp]:
  "contents (advance n f) = contents f" "pos (advance n f) = pos f + n"
  "cap (advance n f) = cap f"
  by (simp_all add: advance_def)

lemma read_all_loop_ok:
  assumes "readable f" "n \<le> length (rest f)"
  shows "read_all_loop n buf f = (Inr (buf @ take n (rest f)), advance n f)"
  using assms
proof (induction n buf f rule: read_all_loop.induct)
  case (1 n buf f)
  show ?case
  proof (cases "n = 0")
    case True
    then show ?thesis by (simp add: read_all_loop.simps)
  next
    case False
    let ?k = "min n (rd_max f)"
    have rd: "posix_read n f = (Inr (take ?k (rest f)), advance ?k f)"
      using "1.prems" by (simp add: posix_read_def readable_def rest_def advance_def)
    have k: "0 < ?k" "?k \<le> n" "?k \<le> length (rest f)"
      using False "1.prems" by (auto simp: readable_def)
    have ne: "rest f \<noteq> []"
      using False "1.prems" by auto
    have "read_all_loop (n - ?k) (buf @ take ?k (rest f)) (advance ?k f) =
        (Inr ((buf @ take ?k (rest f)) @ take (n - ?k) (rest (advance ?k f))),
         advance (n - ?k) (advance ?k f))"
      using "1.IH" [OF False rd [symmetric] refl] ne k "1.prems" by (simp add: diff_le_mono)
    also have "(buf @ take ?k (rest f)) @ take (n - ?k) (rest (advance ?k f)) = buf @ take n (rest f)"
      using k by (simp add: take_add [symmetric])
    finally show ?thesis
      using False rd k ne by (simp add: read_all_loop.simps [of n])
  qed
qed

lemma read_all_loop_eof:
  assumes "readable f" "length (rest f) < n"
  shows "fst (read_all_loop n buf f) = Inl (- EINVAL)"
  using assms
proof (induction n buf f rule: read_all_loop.induct)
  case (1 n buf f)
  let ?d = "take (min n (rd_max f)) (rest f)"
  have rd: "posix_read n f = (Inr ?d, advance (length ?d) f)"
    using "1.prems" by (simp add: posix_read_def readable_def rest_def advance_def)
  show ?case
  proof (cases "?d = []")
    case True
    then show ?thesis
      using rd "1.prems" by (simp add: read_all_loop.simps [of n])
  next
    case False
    then show ?thesis
      using "1.IH" [OF _ rd [symmetric] refl False] rd "1.prems"
      by (simp add: read_all_loop.simps [of n])
  qed
qed

lemma read_all_ok:
  "readable f \<Longrightarrow> n \<le> length (rest f) \<Longrightarrow> read_all n f = (Inr (take n (rest f)), advance n f)"
  by (simp add: read_all_def read_all_loop_ok)

lemma read_all_eof:
  "readable f \<Longrightarrow> length (rest f) < n \<Longrightarrow> fst (read_all n f) = Inl (- EINVAL)"
  by (simp add: read_all_def read_all_loop_eof)

end
