(* ===== verification/Output_File.thy ===== *)
theory Output_File
  imports Crc32 Posix_File
begin

text \<open>
  The image writer, \<^verbatim>\<open>libsparse/output_file.c\<close>.  An \<^verbatim>\<open>output_file\<close> has two tables of operations:
  \<open>sink\<close> is the backend that takes the bytes (a file descriptor, a zlib stream, a callback)
  and \<open>ops\<close> decides the format (the chunks of a sparse image, or the plain image).

  The memory behind a \<^verbatim>\<open>void *\<close> argument is the list of bytes from the pointer on; writing more
  bytes than it holds to a file is \<^term>\<open>None\<close>.  zlib is not part of the repository: its three
  functions are the fields of \<open>gz_ops\<close>, arguments of the model.  A callback is a function of
  its private state; a null buffer is \<^term>\<open>None\<close>.  \<^verbatim>\<open>int64_t\<close> is \<^typ>\<open>int\<close>; 32-bit quantities are
  words, read with \<^term>\<open>sint\<close> where the code converts them to \<^verbatim>\<open>int\<close>.
\<close>

section \<open>The on-disk headers\<close>

record sparse_header =
  magic :: u32
  major_version :: u16
  minor_version :: u16
  file_hdr_sz :: u16
  chunk_hdr_sz :: u16
  blk_sz :: u32
  total_blks :: u32
  total_chunks :: u32
  image_checksum :: u32

record chunk_header =
  chunk_type :: u16
  reserved1 :: u16
  chunk_sz :: u32
  total_sz :: u32

abbreviation SPARSE_HEADER_MAGIC :: u32 where "SPARSE_HEADER_MAGIC \<equiv> 0xed26ff3a"
abbreviation CHUNK_TYPE_RAW :: u16 where "CHUNK_TYPE_RAW \<equiv> 0xCAC1"
abbreviation CHUNK_TYPE_FILL :: u16 where "CHUNK_TYPE_FILL \<equiv> 0xCAC2"
abbreviation CHUNK_TYPE_DONT_CARE :: u16 where "CHUNK_TYPE_DONT_CARE \<equiv> 0xCAC3"
abbreviation CHUNK_TYPE_CRC32 :: u16 where "CHUNK_TYPE_CRC32 \<equiv> 0xCAC4"
abbreviation SPARSE_HEADER_MAJOR_VER :: u16 where "SPARSE_HEADER_MAJOR_VER \<equiv> 1"
abbreviation SPARSE_HEADER_MINOR_VER :: u16 where "SPARSE_HEADER_MINOR_VER \<equiv> 0"
abbreviation SPARSE_HEADER_LEN :: nat where "SPARSE_HEADER_LEN \<equiv> 28"
abbreviation CHUNK_HEADER_LEN :: nat where "CHUNK_HEADER_LEN \<equiv> 12"

text \<open>The structures as they lie in memory, little-endian and without padding.\<close>

definition enc_sparse_header :: "sparse_header \<Rightarrow> byte list" where
  "enc_sparse_header h = le32 (magic h) @ le16 (major_version h) @ le16 (minor_version h) @
     le16 (file_hdr_sz h) @ le16 (chunk_hdr_sz h) @ le32 (blk_sz h) @ le32 (total_blks h) @
     le32 (total_chunks h) @ le32 (image_checksum h)"

definition enc_chunk_header :: "chunk_header \<Rightarrow> byte list" where
  "enc_chunk_header h = le16 (chunk_type h) @ le16 (reserved1 h) @ le32 (chunk_sz h) @
     le32 (total_sz h)"

section \<open>Rounding macros\<close>

definition DIV_ROUND_UP :: "u32 \<Rightarrow> u32 \<Rightarrow> u32" where
  "DIV_ROUND_UP x y = (x + y - 1) div y"

definition ALIGN :: "u32 \<Rightarrow> u32 \<Rightarrow> u32" where
  "ALIGN x y = y * DIV_ROUND_UP x y"

section \<open>Backends\<close>

record 'e gz_ops =
  gzwrite :: "'e \<Rightarrow> byte list \<Rightarrow> int \<Rightarrow> int \<times> 'e"
  gzseek_cur :: "'e \<Rightarrow> int \<Rightarrow> int \<times> 'e"
  gzseek_set :: "'e \<Rightarrow> int \<Rightarrow> int \<times> 'e"
  gztell :: "'e \<Rightarrow> int"

datatype 'e sink =
    NormalSink posix_file
  | GzSink "'e gz_ops" 'e
  | CallbackSink "'e \<Rightarrow> byte list option \<Rightarrow> int \<Rightarrow> int \<times> 'e" 'e

subsection \<open>Plain files\<close>

definition file_skip :: "int \<Rightarrow> posix_file \<Rightarrow> int \<times> posix_file" where
  "file_skip cnt f = (case posix_lseek_cur cnt f of (ret, f) \<Rightarrow>
     if ret < 0 then (- 1, f) else (0, f))"

definition file_pad :: "int \<Rightarrow> posix_file \<Rightarrow> int \<times> posix_file" where
  "file_pad len f = (case posix_ftruncate len f of (ret, f) \<Rightarrow>
     if ret < 0 then (ret, f) else (0, f))"

text \<open>A negative length is a \<^verbatim>\<open>size_t\<close> above \<^verbatim>\<open>SSIZE_MAX\<close>, which \<^verbatim>\<open>write\<close> rejects.\<close>

definition file_write :: "byte list \<Rightarrow> int \<Rightarrow> posix_file \<Rightarrow> (int \<times> posix_file) option" where
  "file_write data len f = (if len < 0 then Some (- 1, f)
     else if length data < nat len then None
     else (case posix_write (take (nat len) data) f of (ret, f) \<Rightarrow>
       if ret < 0 then Some (- 1, f)
       else if ret < len then Some (- 1, f)
       else Some (0, f)))"

subsection \<open>zlib streams\<close>

definition gz_file_skip :: "'e gz_ops \<Rightarrow> int \<Rightarrow> 'e \<Rightarrow> int \<times> 'e" where
  "gz_file_skip z cnt e = (case gzseek_cur z e cnt of (ret, e) \<Rightarrow>
     if ret < 0 then (- 1, e) else (0, e))"

definition gz_file_pad :: "'e gz_ops \<Rightarrow> int \<Rightarrow> 'e \<Rightarrow> int \<times> 'e" where
  "gz_file_pad z len e = (if gztell z e < 0 then (- 1, e)
     else if gztell z e \<ge> len then (0, e)
     else (case gzseek_set z e (len - 1) of (ret, e) \<Rightarrow>
       if ret < 0 then (- 1, e) else (0, snd (gzwrite z e [0] 1))))"

definition gz_file_write :: "'e gz_ops \<Rightarrow> byte list \<Rightarrow> int \<Rightarrow> 'e \<Rightarrow> int \<times> 'e" where
  "gz_file_write z data len e = (case gzwrite z e data len of (ret, e) \<Rightarrow>
     if ret < 0 then (- 1, e) else if ret < len then (- 1, e) else (0, e))"

subsection \<open>Callbacks\<close>

function callback_file_skip ::
  "('e \<Rightarrow> byte list option \<Rightarrow> int \<Rightarrow> int \<times> 'e) \<Rightarrow> int \<Rightarrow> 'e \<Rightarrow> int \<times> 'e" where
  "callback_file_skip wr off e = (if off > 0 then
       let to_write = min off INT_MAX in
       (case wr e None to_write of (ret, e) \<Rightarrow>
         if ret < 0 then (ret, e) else callback_file_skip wr (off - to_write) e)
     else (0, e))"
  by pat_completeness auto
termination
  by (relation "measure (\<lambda>(wr, off, e). nat off)") auto

declare callback_file_skip.simps [simp del]

definition callback_file_pad :: "int \<Rightarrow> 'e \<Rightarrow> int \<times> 'e" where
  "callback_file_pad len e = (- 1, e)"

definition callback_file_write ::
  "('e \<Rightarrow> byte list option \<Rightarrow> int \<Rightarrow> int \<times> 'e) \<Rightarrow> byte list \<Rightarrow> int \<Rightarrow> 'e \<Rightarrow> int \<times> 'e" where
  "callback_file_write wr data len e = wr e (Some data) len"

subsection \<open>The table of backend operations\<close>

fun ops_write :: "byte list \<Rightarrow> int \<Rightarrow> 'e sink \<Rightarrow> (int \<times> 'e sink) option" where
  "ops_write data len (NormalSink f) =
     map_option (\<lambda>(r, f). (r, NormalSink f)) (file_write data len f)"
| "ops_write data len (GzSink z e) =
     (case gz_file_write z data len e of (r, e) \<Rightarrow> Some (r, GzSink z e))"
| "ops_write data len (CallbackSink wr e) =
     (case callback_file_write wr data len e of (r, e) \<Rightarrow> Some (r, CallbackSink wr e))"

fun ops_skip :: "int \<Rightarrow> 'e sink \<Rightarrow> int \<times> 'e sink" where
  "ops_skip cnt (NormalSink f) = (case file_skip cnt f of (r, f) \<Rightarrow> (r, NormalSink f))"
| "ops_skip cnt (GzSink z e) = (case gz_file_skip z cnt e of (r, e) \<Rightarrow> (r, GzSink z e))"
| "ops_skip cnt (CallbackSink wr e) =
     (case callback_file_skip wr cnt e of (r, e) \<Rightarrow> (r, CallbackSink wr e))"

fun ops_pad :: "int \<Rightarrow> 'e sink \<Rightarrow> int \<times> 'e sink" where
  "ops_pad len (NormalSink f) = (case file_pad len f of (r, f) \<Rightarrow> (r, NormalSink f))"
| "ops_pad len (GzSink z e) = (case gz_file_pad z len e of (r, e) \<Rightarrow> (r, GzSink z e))"
| "ops_pad len (CallbackSink wr e) = (case callback_file_pad len e of (r, e) \<Rightarrow> (r, CallbackSink wr e))"

section \<open>The output file\<close>

datatype sparse_file_ops = SPARSE_FILE_OPS | NORMAL_FILE_OPS

record 'e output_file =
  cur_out_ptr :: int
  chunk_cnt :: u32
  crc32 :: u32
  sink :: "'e sink"
  ops :: sparse_file_ops
  use_crc :: bool
  out_block_size :: u32
  out_len :: int
  zero_buf :: "byte list"
  fill_buf :: "byte list"

text \<open>\<^verbatim>\<open>out->ops->write(out, data, len)\<close> and its siblings.\<close>

definition out_write ::
  "byte list \<Rightarrow> int \<Rightarrow> 'e output_file \<Rightarrow> (int \<times> 'e output_file) option" where
  "out_write data len out = do { (r, s) \<leftarrow> ops_write data len (sink out); Some (r, out\<lparr>sink := s\<rparr>) }"

definition out_skip :: "int \<Rightarrow> 'e output_file \<Rightarrow> int \<times> 'e output_file" where
  "out_skip cnt out = (case ops_skip cnt (sink out) of (r, s) \<Rightarrow> (r, out\<lparr>sink := s\<rparr>))"

definition out_pad :: "int \<Rightarrow> 'e output_file \<Rightarrow> int \<times> 'e output_file" where
  "out_pad len out = (case ops_pad len (sink out) of (r, s) \<Rightarrow> (r, out\<lparr>sink := s\<rparr>))"

text \<open>\<^verbatim>\<open>sparse_crc32\<close> over \<open>n\<close> bytes at a pointer.\<close>

definition crc_mem :: "u32 \<Rightarrow> byte list \<Rightarrow> int \<Rightarrow> u32 option" where
  "crc_mem c data n = (if n < 0 \<or> length data < nat n then None
     else Some (sparse_crc32 c (take (nat n) data)))"

section \<open>Sparse chunks\<close>

definition write_sparse_skip_chunk ::
  "int \<Rightarrow> 'e output_file \<Rightarrow> (int \<times> 'e output_file) option" where
  "write_sparse_skip_chunk skip_len out = (if out_block_size out = 0 then None
     else if skip_len smod uint (out_block_size out) \<noteq> 0 then Some (- 1, out)
     else do {
       (ret, out) \<leftarrow> out_write (enc_chunk_header
           \<lparr>chunk_type = CHUNK_TYPE_DONT_CARE, reserved1 = 0,
            chunk_sz = word_of_int (skip_len sdiv uint (out_block_size out)),
            total_sz = 12\<rparr>) 12 out;
       if ret < 0 then Some (- 1, out)
       else Some (0, out\<lparr>cur_out_ptr := cur_out_ptr out + skip_len,
              chunk_cnt := chunk_cnt out + 1\<rparr>) })"

text \<open>The checksum loop of \<^verbatim>\<open>write_sparse_fill_chunk\<close>: \<^verbatim>\<open>block_size / 4\<close> fill words.\<close>

definition fill_crc :: "u32 \<Rightarrow> u32 \<Rightarrow> u32 \<Rightarrow> u32" where
  "fill_crc bs fill_val c = ((\<lambda>c. sparse_crc32 c (le32 fill_val)) ^^ unat (bs div 4)) c"

definition write_sparse_fill_chunk ::
  "u32 \<Rightarrow> u32 \<Rightarrow> 'e output_file \<Rightarrow> (int \<times> 'e output_file) option" where
  "write_sparse_fill_chunk len fill_val out = (if out_block_size out = 0 then None else do {
     let rnd_up_len = ALIGN len (out_block_size out);
     (ret, out) \<leftarrow> out_write (enc_chunk_header
         \<lparr>chunk_type = CHUNK_TYPE_FILL, reserved1 = 0,
          chunk_sz = rnd_up_len div out_block_size out, total_sz = 12 + 4\<rparr>) 12 out;
     if ret < 0 then Some (- 1, out)
     else do {
       (ret, out) \<leftarrow> out_write (le32 fill_val) 4 out;
       if ret < 0 then Some (- 1, out)
       else do {
         let out = (if use_crc out
           then out\<lparr>crc32 := fill_crc (out_block_size out) fill_val (crc32 out)\<rparr> else out);
         Some (0, out\<lparr>cur_out_ptr := cur_out_ptr out + sint rnd_up_len,
                chunk_cnt := chunk_cnt out + 1\<rparr>) } } })"

definition data_crc :: "u32 \<Rightarrow> byte list \<Rightarrow> u32 \<Rightarrow> 'e output_file \<Rightarrow> 'e output_file option" where
  "data_crc len data zero_len out = (if use_crc out then do {
       c \<leftarrow> crc_mem (crc32 out) data (sint len);
       c \<leftarrow> (if zero_len \<noteq> 0 then crc_mem c (zero_buf out) (sint zero_len) else Some c);
       Some (out\<lparr>crc32 := c\<rparr>) }
     else Some out)"

definition write_sparse_data_chunk ::
  "u32 \<Rightarrow> byte list \<Rightarrow> 'e output_file \<Rightarrow> (int \<times> 'e output_file) option" where
  "write_sparse_data_chunk len data out = (if out_block_size out = 0 then None else do {
     let rnd_up_len = ALIGN len (out_block_size out);
     let zero_len = rnd_up_len - len;
     (ret, out) \<leftarrow> out_write (enc_chunk_header
         \<lparr>chunk_type = CHUNK_TYPE_RAW, reserved1 = 0,
          chunk_sz = rnd_up_len div out_block_size out, total_sz = 12 + rnd_up_len\<rparr>) 12 out;
     if ret < 0 then Some (- 1, out)
     else do {
       (ret, out) \<leftarrow> out_write data (sint len) out;
       if ret < 0 then Some (- 1, out)
       else do {
         (ret, out) \<leftarrow> (if zero_len \<noteq> 0 then out_write (zero_buf out) (sint zero_len) out
            else Some (0, out));
         if ret < 0 then Some (- 1, out)
         else do {
           out \<leftarrow> data_crc len data zero_len out;
           Some (0, out\<lparr>cur_out_ptr := cur_out_ptr out + sint rnd_up_len,
                  chunk_cnt := chunk_cnt out + 1\<rparr>) } } } })"

text \<open>The result of writing the checksum itself is not looked at.\<close>

definition write_sparse_end_chunk :: "'e output_file \<Rightarrow> (int \<times> 'e output_file) option" where
  "write_sparse_end_chunk out = (if use_crc out then do {
       (ret, out) \<leftarrow> out_write (enc_chunk_header
           \<lparr>chunk_type = CHUNK_TYPE_CRC32, reserved1 = 0, chunk_sz = 0, total_sz = 12 + 4\<rparr>) 12 out;
       if ret < 0 then Some (ret, out)
       else do {
         (_, out) \<leftarrow> out_write (le32 (crc32 out)) 4 out;
         Some (0, out\<lparr>chunk_cnt := chunk_cnt out + 1\<rparr>) } }
     else Some (0, out))"

section \<open>Plain images\<close>

definition write_normal_data_chunk ::
  "u32 \<Rightarrow> byte list \<Rightarrow> 'e output_file \<Rightarrow> (int \<times> 'e output_file) option" where
  "write_normal_data_chunk len data out = (if out_block_size out = 0 then None else do {
     let rnd_up_len = ALIGN len (out_block_size out);
     (ret, out) \<leftarrow> out_write data (sint len) out;
     if ret < 0 then Some (ret, out)
     else if rnd_up_len > len then Some (out_skip (uint (rnd_up_len - len)) out)
     else Some (ret, out) })"

text \<open>Blocks of the fill buffer; with a zero block size the loop would make no progress.\<close>

function fill_loop :: "u32 \<Rightarrow> 'e output_file \<Rightarrow> (int \<times> 'e output_file) option" where
  "fill_loop len out = (if len = 0 then Some (0, out)
     else if out_block_size out = 0 then None
     else (let write_len = min len (out_block_size out) in
       (case out_write (fill_buf out) (sint write_len) out of
          None \<Rightarrow> None
        | Some (ret, out') \<Rightarrow> if ret < 0 then Some (ret, out')
            else fill_loop (len - write_len) out')))"
  by pat_completeness auto
termination
proof (relation "measure (\<lambda>(len, out). unat len)", goal_cases)
  case (2 len out)
  let ?w = "min len (out_block_size out)"
  have "?w \<le> len" "?w \<noteq> 0"
    using 2(1,2) by (auto simp: min_def)
  then have "unat (len - ?w) < unat len"
    by (simp add: unat_sub word_le_nat_alt) (metis diff_less order.strict_trans2 unat_gt_0)
  then show ?case
    using 2(3) by simp
qed simp

declare fill_loop.simps [simp del]

definition write_normal_fill_chunk ::
  "u32 \<Rightarrow> u32 \<Rightarrow> 'e output_file \<Rightarrow> (int \<times> 'e output_file) option" where
  "write_normal_fill_chunk len fill_val out = (
     let n = unat (out_block_size out div 4);
         out = out\<lparr>fill_buf := concat (replicate n (le32 fill_val)) @ drop (4 * n) (fill_buf out)\<rparr>
     in fill_loop len out)"

definition write_normal_skip_chunk :: "int \<Rightarrow> 'e output_file \<Rightarrow> int \<times> 'e output_file" where
  "write_normal_skip_chunk len out = out_skip len out"

definition write_normal_end_chunk :: "'e output_file \<Rightarrow> int \<times> 'e output_file" where
  "write_normal_end_chunk out = out_pad (out_len out) out"

section \<open>The format table\<close>

definition write_data_chunk ::
  "u32 \<Rightarrow> byte list \<Rightarrow> 'e output_file \<Rightarrow> (int \<times> 'e output_file) option" where
  "write_data_chunk len data out = (case ops out of
       SPARSE_FILE_OPS \<Rightarrow> write_sparse_data_chunk len data out
     | NORMAL_FILE_OPS \<Rightarrow> write_normal_data_chunk len data out)"

definition write_fill_chunk ::
  "u32 \<Rightarrow> u32 \<Rightarrow> 'e output_file \<Rightarrow> (int \<times> 'e output_file) option" where
  "write_fill_chunk len fill_val out = (case ops out of
       SPARSE_FILE_OPS \<Rightarrow> write_sparse_fill_chunk len fill_val out
     | NORMAL_FILE_OPS \<Rightarrow> write_normal_fill_chunk len fill_val out)"

definition write_skip_chunk :: "int \<Rightarrow> 'e output_file \<Rightarrow> (int \<times> 'e output_file) option" where
  "write_skip_chunk len out = (case ops out of
       SPARSE_FILE_OPS \<Rightarrow> write_sparse_skip_chunk len out
     | NORMAL_FILE_OPS \<Rightarrow> Some (write_normal_skip_chunk len out))"

definition write_end_chunk :: "'e output_file \<Rightarrow> (int \<times> 'e output_file) option" where
  "write_end_chunk out = (case ops out of
       SPARSE_FILE_OPS \<Rightarrow> write_sparse_end_chunk out
     | NORMAL_FILE_OPS \<Rightarrow> Some (write_normal_end_chunk out))"

text \<open>
  Data that lies in another file is mapped and handed on; \<open>file\<close> is what the descriptor
  refers to.
\<close>

definition write_fd_chunk ::
  "u32 \<Rightarrow> byte list option \<Rightarrow> int \<Rightarrow> 'e output_file \<Rightarrow> (int \<times> 'e output_file) option" where
  "write_fd_chunk len file offset out = (
     let aligned_offset = offset - offset mod 4096;
         aligned_diff = offset - aligned_offset;
         buffer_size = sint (len + word_of_int aligned_diff)
     in (case posix_mmap file buffer_size aligned_offset of
          Inl e \<Rightarrow> Some (- e, out)
        | Inr data \<Rightarrow> write_data_chunk len (drop (nat aligned_diff) data) out))"

definition write_file_chunk ::
  "(string \<Rightarrow> byte list option) \<Rightarrow> u32 \<Rightarrow> string \<Rightarrow> int \<Rightarrow> 'e output_file
    \<Rightarrow> (int \<times> 'e output_file) option" where
  "write_file_chunk files len name offset out = (case files name of
       None \<Rightarrow> Some (- ENOENT, out)
     | Some c \<Rightarrow> write_fd_chunk len (Some c) offset out)"

section \<open>Opening and closing\<close>

definition output_file_close :: "'e output_file \<Rightarrow> 'e sink option" where
  "output_file_close out = do { (_, out) \<leftarrow> write_end_chunk out; Some (sink out) }"

text \<open>
  \<open>av\<close> counts the allocations that still succeed; a block size of 2 GiB or more becomes negative
  as an \<^verbatim>\<open>int\<close>, and an allocation of that size fails.  A failed start reports the error and
  leaves the sink as far as it got.
\<close>

definition output_file_init ::
  "'e sink \<Rightarrow> u32 \<Rightarrow> int \<Rightarrow> bool \<Rightarrow> u32 \<Rightarrow> bool \<Rightarrow> nat \<Rightarrow> (int \<times> 'e output_file \<times> nat) option" where
  "output_file_init snk bs len sparse chunks crc av = (
     let out = \<lparr>cur_out_ptr = 0, chunk_cnt = 0, crc32 = 0, sink = snk,
           ops = (if sparse then SPARSE_FILE_OPS else NORMAL_FILE_OPS), use_crc = crc,
           out_block_size = bs, out_len = len,
           zero_buf = replicate (unat bs) 0, fill_buf = replicate (unat bs) 0\<rparr>
     in if 2 ^ 31 \<le> unat bs then Some (- ENOMEM, out, av)
     else if av < 2 then Some (- ENOMEM, out, 0)
     else if \<not> sparse then Some (0, out, av - 2)
     else if bs = 0 then None
     else do {
       (ret, out) \<leftarrow> out_write (enc_sparse_header
           \<lparr>magic = SPARSE_HEADER_MAGIC, major_version = SPARSE_HEADER_MAJOR_VER,
            minor_version = SPARSE_HEADER_MINOR_VER, file_hdr_sz = 28, chunk_hdr_sz = 12,
            blk_sz = bs, total_blks = word_of_int (len sdiv uint bs),
            total_chunks = (if crc then chunks + 1 else chunks), image_checksum = 0\<rparr>) 28 out;
       if ret < 0 then Some (ret, out, av - 2) else Some (0, out, av - 2) })"

text \<open>The result is the opened file, or the sink when \<^verbatim>\<open>NULL\<close> is returned.\<close>

definition output_file_open ::
  "'e sink \<Rightarrow> u32 \<Rightarrow> int \<Rightarrow> bool \<Rightarrow> u32 \<Rightarrow> bool \<Rightarrow> nat
    \<Rightarrow> (('e sink + 'e output_file) \<times> nat) option" where
  "output_file_open snk bs len sparse chunks crc av = (if av = 0 then Some (Inl snk, 0)
     else do {
       (ret, out, av) \<leftarrow> output_file_init snk bs len sparse chunks crc (av - 1);
       if ret < 0 then Some (Inl (sink out), av) else Some (Inr out, av) })"

definition output_file_open_callback ::
  "('e \<Rightarrow> byte list option \<Rightarrow> int \<Rightarrow> int \<times> 'e) \<Rightarrow> 'e \<Rightarrow> u32 \<Rightarrow> int \<Rightarrow> bool \<Rightarrow> u32 \<Rightarrow> bool \<Rightarrow> nat
    \<Rightarrow> (('e sink + 'e output_file) \<times> nat) option" where
  "output_file_open_callback wr priv bs len sparse chunks crc av =
     output_file_open (CallbackSink wr priv) bs len sparse chunks crc av"

definition output_file_open_fd ::
  "posix_file \<Rightarrow> ('e gz_ops \<times> 'e) option \<Rightarrow> u32 \<Rightarrow> int \<Rightarrow> bool \<Rightarrow> u32 \<Rightarrow> bool \<Rightarrow> nat
    \<Rightarrow> (('e sink + 'e output_file) \<times> nat) option" where
  "output_file_open_fd fd gz bs len sparse chunks crc av =
     output_file_open (case gz of Some (z, e) \<Rightarrow> GzSink z e | None \<Rightarrow> NormalSink fd)
       bs len sparse chunks crc av"

end
