(* ===== verification/Sparse_File.thy ===== *)
theory Sparse_File
  imports Backed_Block Output_File
begin

text \<open>
  \<^verbatim>\<open>libsparse/sparse.c\<close>: the sparse file object, writing it out as an image, measuring it, and
  cutting it into pieces of bounded size.  The backed-block list of a sparse file is its
  own, so it is part of the record; its blocks live in the common store.  \<open>env\<close> is what the
  descriptors and the file names of the blocks refer to when the image is written.
\<close>

record sparse_file =
  sf_block_size :: u32
  sf_len :: int
  sf_verbose :: bool
  sf_blocks :: backed_block_list

record io_env =
  env_fds :: "int \<Rightarrow> byte list option"
  env_files :: "string \<Rightarrow> byte list option"

abbreviation EFAULT :: int where "EFAULT \<equiv> 14"

section \<open>Creation and adding blocks\<close>

definition sparse_file_new ::
  "u32 \<Rightarrow> int \<Rightarrow> bb_mem \<Rightarrow> (sparse_file option \<times> bb_mem) option" where
  "sparse_file_new bs len m = (if avail m = 0 then Some (None, m)
     else do {
       (b, m) \<leftarrow> backed_block_list_new bs (m\<lparr>avail := avail m - 1\<rparr>);
       Some (Some \<lparr>sf_block_size = bs, sf_len = len, sf_verbose = False, sf_blocks = b\<rparr>, m) })"

definition sparse_file_destroy :: "sparse_file \<Rightarrow> bb_mem \<Rightarrow> bb_mem option" where
  "sparse_file_destroy s m = backed_block_list_destroy (sf_blocks s) m"

definition sparse_file_add_data ::
  "sparse_file \<Rightarrow> byte list \<Rightarrow> u32 \<Rightarrow> u32 \<Rightarrow> bb_mem \<Rightarrow> (int \<times> sparse_file \<times> bb_mem) option" where
  "sparse_file_add_data s data len block m = do {
     (r, b, m) \<leftarrow> backed_block_add_data (sf_blocks s) data len block m;
     Some (r, s\<lparr>sf_blocks := b\<rparr>, m) }"

definition sparse_file_add_fill ::
  "sparse_file \<Rightarrow> u32 \<Rightarrow> u32 \<Rightarrow> u32 \<Rightarrow> bb_mem \<Rightarrow> (int \<times> sparse_file \<times> bb_mem) option" where
  "sparse_file_add_fill s fill_val len block m = do {
     (r, b, m) \<leftarrow> backed_block_add_fill (sf_blocks s) fill_val len block m;
     Some (r, s\<lparr>sf_blocks := b\<rparr>, m) }"

definition sparse_file_add_file ::
  "sparse_file \<Rightarrow> string \<Rightarrow> int \<Rightarrow> u32 \<Rightarrow> u32 \<Rightarrow> bb_mem
    \<Rightarrow> (int \<times> sparse_file \<times> bb_mem) option" where
  "sparse_file_add_file s filename file_offset len block m = do {
     (r, b, m) \<leftarrow> backed_block_add_file (sf_blocks s) filename file_offset len block m;
     Some (r, s\<lparr>sf_blocks := b\<rparr>, m) }"

definition sparse_file_add_fd ::
  "sparse_file \<Rightarrow> int \<Rightarrow> int \<Rightarrow> u32 \<Rightarrow> u32 \<Rightarrow> bb_mem \<Rightarrow> (int \<times> sparse_file \<times> bb_mem) option" where
  "sparse_file_add_fd s fd file_offset len block m = do {
     (r, b, m) \<leftarrow> backed_block_add_fd (sf_blocks s) fd file_offset len block m;
     Some (r, s\<lparr>sf_blocks := b\<rparr>, m) }"

definition sparse_file_verbose :: "sparse_file \<Rightarrow> sparse_file" where
  "sparse_file_verbose s = s\<lparr>sf_verbose := True\<rparr>"

section \<open>Counting chunks\<close>

text \<open>The block after the end of a block: \<^verbatim>\<open>block + DIV_ROUND_UP(len, block_size)\<close>.\<close>

definition block_end :: "u32 \<Rightarrow> backed_block \<Rightarrow> u32" where
  "block_end bs b = bb_block b + DIV_ROUND_UP (bb_len b) bs"

partial_function (option) count_chunks_from ::
  "bb_mem \<Rightarrow> u32 \<Rightarrow> addr option \<Rightarrow> u32 \<Rightarrow> u32 \<Rightarrow> (u32 \<times> u32) option" where
  "count_chunks_from m bs bb last_block chunks = (case bb of
       None \<Rightarrow> Some (last_block, chunks)
     | Some a \<Rightarrow> do {
         b \<leftarrow> load m a;
         let chunks = (if bb_block b > last_block then chunks + 1 else chunks);
         if bs = 0 then None
         else count_chunks_from m bs (bb_next b) (block_end bs b) (chunks + 1) })"

declare count_chunks_from.simps [code]

definition sparse_count_chunks :: "sparse_file \<Rightarrow> bb_mem \<Rightarrow> u32 option" where
  "sparse_count_chunks s m = do {
     (last_block, chunks) \<leftarrow> count_chunks_from m (sf_block_size s)
        (backed_block_iter_new (sf_blocks s)) 0 0;
     if sf_block_size s = 0 then None
     else Some (if uint last_block < (sf_len s + uint (sf_block_size s) - 1) sdiv uint (sf_block_size s)
       then chunks + 1 else chunks) }"

section \<open>Writing\<close>

definition sparse_file_write_block ::
  "io_env \<Rightarrow> bb_mem \<Rightarrow> addr \<Rightarrow> 'e output_file \<Rightarrow> (int \<times> 'e output_file) option" where
  "sparse_file_write_block env m bb out = do {
     t \<leftarrow> backed_block_type_of m bb;
     len \<leftarrow> backed_block_len m bb;
     case t of
       BACKED_BLOCK_DATA \<Rightarrow> do { data \<leftarrow> backed_block_data m bb; write_data_chunk len data out }
     | BACKED_BLOCK_FILE \<Rightarrow> do {
         name \<leftarrow> backed_block_filename m bb;
         off \<leftarrow> backed_block_file_offset m bb;
         case name of None \<Rightarrow> Some (- EFAULT, out)
         | Some p \<Rightarrow> do { n \<leftarrow> load_name m p; write_file_chunk (env_files env) len n off out } }
     | BACKED_BLOCK_FD \<Rightarrow> do {
         fd \<leftarrow> backed_block_fd m bb;
         off \<leftarrow> backed_block_file_offset m bb;
         write_fd_chunk len (env_fds env fd) off out }
     | BACKED_BLOCK_FILL \<Rightarrow> do { v \<leftarrow> backed_block_fill_val m bb; write_fill_chunk len v out } }"

text \<open>The result of writing a gap is not looked at.\<close>

partial_function (option) write_blocks_from ::
  "io_env \<Rightarrow> bb_mem \<Rightarrow> u32 \<Rightarrow> addr option \<Rightarrow> u32 \<Rightarrow> 'e output_file
    \<Rightarrow> (int \<times> u32 \<times> 'e output_file) option" where
  "write_blocks_from env m bs bb last_block out = (case bb of
       None \<Rightarrow> Some (0, last_block, out)
     | Some a \<Rightarrow> do {
         b \<leftarrow> load m a;
         out \<leftarrow> (if bb_block b > last_block
            then do { (_, out) \<leftarrow> write_skip_chunk (uint (bb_block b - last_block) * uint bs) out;
                      Some out }
            else Some out);
         (ret, out) \<leftarrow> sparse_file_write_block env m a out;
         if ret \<noteq> 0 then Some (ret, last_block, out)
         else if bs = 0 then None
         else write_blocks_from env m bs (bb_next b) (block_end bs b) out })"

declare write_blocks_from.simps [code]

definition write_all_blocks ::
  "io_env \<Rightarrow> sparse_file \<Rightarrow> bb_mem \<Rightarrow> 'e output_file \<Rightarrow> (int \<times> 'e output_file) option" where
  "write_all_blocks env s m out = do {
     (ret, last_block, out) \<leftarrow> write_blocks_from env m (sf_block_size s)
        (backed_block_iter_new (sf_blocks s)) 0 out;
     if ret \<noteq> 0 then Some (ret, out)
     else do {
       let pad = sf_len s - uint last_block * uint (sf_block_size s);
       if pad < 0 then None
       else if pad > 0 then do { (_, out) \<leftarrow> write_skip_chunk pad out; Some (0, out) }
       else Some (0, out) } }"

text \<open>The result and the sink with everything written to it.\<close>

definition sparse_file_emit ::
  "io_env \<Rightarrow> sparse_file \<Rightarrow> bb_mem \<Rightarrow> (('e sink + 'e output_file) \<times> nat) option
    \<Rightarrow> (int \<times> 'e sink) option" where
  "sparse_file_emit env s m opened = do {
     (out, av) \<leftarrow> opened;
     case out of Inl snk \<Rightarrow> Some (- ENOMEM, snk)
     | Inr out \<Rightarrow> do {
         (ret, out) \<leftarrow> write_all_blocks env s m out;
         snk \<leftarrow> output_file_close out;
         Some (ret, snk) } }"

definition sparse_file_write ::
  "io_env \<Rightarrow> sparse_file \<Rightarrow> posix_file \<Rightarrow> ('e gz_ops \<times> 'e) option \<Rightarrow> bool \<Rightarrow> bool \<Rightarrow> bb_mem
    \<Rightarrow> (int \<times> 'e sink) option" where
  "sparse_file_write env s fd gz sparse crc m = do {
     chunks \<leftarrow> sparse_count_chunks s m;
     sparse_file_emit env s m (output_file_open_fd fd gz (sf_block_size s) (sf_len s) sparse
       chunks crc (avail m)) }"

definition sparse_file_callback ::
  "io_env \<Rightarrow> sparse_file \<Rightarrow> bool \<Rightarrow> bool \<Rightarrow> ('e \<Rightarrow> byte list option \<Rightarrow> int \<Rightarrow> int \<times> 'e) \<Rightarrow> 'e \<Rightarrow> bb_mem
    \<Rightarrow> (int \<times> 'e sink) option" where
  "sparse_file_callback env s sparse crc wr priv m = do {
     chunks \<leftarrow> sparse_count_chunks s m;
     sparse_file_emit env s m (output_file_open_callback wr priv (sf_block_size s) (sf_len s) sparse
       chunks crc (avail m)) }"

section \<open>Measuring\<close>

definition out_counter_write :: "int \<Rightarrow> byte list option \<Rightarrow> int \<Rightarrow> int \<times> int" where
  "out_counter_write count data len = (0, count + len)"

fun counted :: "int sink \<Rightarrow> int" where
  "counted (CallbackSink _ c) = c"
| "counted _ = 0"

definition sparse_file_length ::
  "io_env \<Rightarrow> sparse_file \<Rightarrow> bool \<Rightarrow> bool \<Rightarrow> bb_mem \<Rightarrow> int option" where
  "sparse_file_length env s sparse crc m = do {
     chunks \<leftarrow> sparse_count_chunks s m;
     (out, av) \<leftarrow> output_file_open_callback out_counter_write 0 (sf_block_size s) (sf_len s) sparse
        chunks crc (avail m);
     case out of Inl _ \<Rightarrow> Some (- 1)
     | Inr out \<Rightarrow> do {
         (ret, out) \<leftarrow> write_all_blocks env s m out;
         snk \<leftarrow> output_file_close out;
         Some (if ret < 0 then - 1 else counted snk) } }"

section \<open>Cutting into pieces\<close>

text \<open>
  The loop of \<^verbatim>\<open>move_chunks_up_to_len\<close>.  The result is the block at which it stopped, the last
  block that fits, the store, and whether the blocks up to there are to be moved (a failed
  write abandons the move).
\<close>

partial_function (option) measure_from ::
  "io_env \<Rightarrow> backed_block_list \<Rightarrow> u32 \<Rightarrow> u32 \<Rightarrow> addr option \<Rightarrow> addr option \<Rightarrow> u32 \<Rightarrow> int \<Rightarrow>
   int output_file \<Rightarrow> bb_mem \<Rightarrow> (addr option \<times> addr option \<times> bb_mem \<times> bool) option" where
  "measure_from env frm bs len bb last_bb last_block file_len out m = (case bb of
       None \<Rightarrow> Some (None, last_bb, m, True)
     | Some a \<Rightarrow> do {
         b \<leftarrow> load m a;
         let count = (if bb_block b > last_block then 12 else 0);
         if bs = 0 then None
         else do {
           (ret, out) \<leftarrow> sparse_file_write_block env m a
              (out\<lparr>sink := CallbackSink out_counter_write count\<rparr>);
           let count = counted (sink out);
           if ret \<noteq> 0 then Some (None, last_bb, m, False)
           else if file_len + count > uint len then do {
             let file_len = file_len + 12;
             if last_bb = None \<or> uint len - file_len > uint (len div 8) then do {
               (_, m) \<leftarrow> backed_block_split frm a (word_of_int (uint len - file_len)) m;
               Some (Some a, Some a, m, True) }
             else Some (Some a, last_bb, m, True) }
           else measure_from env frm bs len (bb_next b) (Some a) (block_end bs b)
                  (file_len + count) out m } })"

declare measure_from.simps [code]

definition move_chunks_up_to_len ::
  "io_env \<Rightarrow> sparse_file \<Rightarrow> sparse_file \<Rightarrow> u32 \<Rightarrow> bb_mem
    \<Rightarrow> (addr option \<times> sparse_file \<times> sparse_file \<times> bb_mem) option" where
  "move_chunks_up_to_len env frm to len m = do {
     let len = len - 56;
     let start = backed_block_iter_new (sf_blocks frm);
     (out, av) \<leftarrow> output_file_open_callback out_counter_write 0 (sf_block_size to) (sf_len to) True
        0 False (avail m);
     let m = m\<lparr>avail := av\<rparr>;
     case out of Inl _ \<Rightarrow> Some (None, frm, to, m)
     | Inr out \<Rightarrow> do {
         (bb, last_bb, m, mv) \<leftarrow> measure_from env (sf_blocks frm) (sf_block_size to) len start None
            0 0 out m;
         if \<not> mv then Some (bb, frm, to, m)
         else do {
           (f, t, m) \<leftarrow> backed_block_list_move (sf_blocks frm) (sf_blocks to) start last_bb m;
           Some (bb, frm\<lparr>sf_blocks := f\<rparr>, to\<lparr>sf_blocks := t\<rparr>, m) } } }"

text \<open>
  The loop of \<^verbatim>\<open>sparse_file_resparse\<close>: pieces beyond the caller's array are collected in a
  temporary file.  A null piece would be dereferenced.
\<close>

partial_function (option) resparse_loop ::
  "io_env \<Rightarrow> u32 \<Rightarrow> int \<Rightarrow> sparse_file \<Rightarrow> sparse_file \<Rightarrow> int \<Rightarrow> sparse_file list \<Rightarrow> bb_mem
    \<Rightarrow> (int \<times> sparse_file list \<times> sparse_file \<times> sparse_file \<times> bb_mem) option" where
  "resparse_loop env max_len out_s_count in_s tmp c out_s m = do {
     (s, m) \<leftarrow> sparse_file_new (sf_block_size in_s) (sf_len in_s) m;
     s \<leftarrow> s;
     (bb, in_s, s, m) \<leftarrow> move_chunks_up_to_len env in_s s max_len m;
     (out_s, tmp, m) \<leftarrow> (if c < out_s_count then Some (out_s @ [s], tmp, m)
        else do {
          (f, t, m) \<leftarrow> backed_block_list_move (sf_blocks s) (sf_blocks tmp) None None m;
          m \<leftarrow> sparse_file_destroy (s\<lparr>sf_blocks := f\<rparr>) m;
          Some (out_s, tmp\<lparr>sf_blocks := t\<rparr>, m) });
     case bb of None \<Rightarrow> Some (c + 1, out_s, in_s, tmp, m)
     | Some _ \<Rightarrow> resparse_loop env max_len out_s_count in_s tmp (c + 1) out_s m }"

declare resparse_loop.simps [code]

definition sparse_file_resparse ::
  "io_env \<Rightarrow> sparse_file \<Rightarrow> u32 \<Rightarrow> int \<Rightarrow> bb_mem
    \<Rightarrow> (int \<times> sparse_file list \<times> sparse_file \<times> bb_mem) option" where
  "sparse_file_resparse env in_s max_len out_s_count m = do {
     (tmp, m) \<leftarrow> sparse_file_new (sf_block_size in_s) (sf_len in_s) m;
     case tmp of None \<Rightarrow> Some (- ENOMEM, [], in_s, m)
     | Some tmp \<Rightarrow> do {
         (c, out_s, in_s, tmp, m) \<leftarrow> resparse_loop env max_len out_s_count in_s tmp 0 [] m;
         (t, i, m) \<leftarrow> backed_block_list_move (sf_blocks tmp) (sf_blocks in_s) None None m;
         m \<leftarrow> sparse_file_destroy (tmp\<lparr>sf_blocks := t\<rparr>) m;
         Some (c, out_s, in_s\<lparr>sf_blocks := i\<rparr>, m) } }"

end
