(* ===== verification/Sparse_Read.thy ===== *)
theory Sparse_Read
  imports Sparse_File
begin

text \<open>
  \<^verbatim>\<open>libsparse/sparse_read.c\<close>: reading an image back into a sparse file, from the sparse format
  or from a plain image.  A reader's state is the descriptor's file, the sparse file under
  construction, the store and the running checksum (\<^term>\<open>None\<close> for the null \<^verbatim>\<open>crc32\<close> pointer).
  The messages of \<^verbatim>\<open>verbose_error\<close> are not modelled: they have no effect on the result.
\<close>

section \<open>Decoding the headers\<close>

definition dec_sparse_header :: "byte list \<Rightarrow> sparse_header" where
  "dec_sparse_header b =
     \<lparr>magic = un_le32 b, major_version = un_le16 (drop 4 b), minor_version = un_le16 (drop 6 b),
      file_hdr_sz = un_le16 (drop 8 b), chunk_hdr_sz = un_le16 (drop 10 b),
      blk_sz = un_le32 (drop 12 b), total_blks = un_le32 (drop 16 b),
      total_chunks = un_le32 (drop 20 b), image_checksum = un_le32 (drop 24 b)\<rparr>"

definition dec_chunk_header :: "byte list \<Rightarrow> chunk_header" where
  "dec_chunk_header b = \<lparr>chunk_type = un_le16 b, reserved1 = un_le16 (drop 2 b),
     chunk_sz = un_le32 (drop 4 b), total_sz = un_le32 (drop 8 b)\<rparr>"

lemma length_enc [simp]:
  "length (enc_sparse_header h) = 28" "length (enc_chunk_header c) = 12"
  by (simp_all add: enc_sparse_header_def enc_chunk_header_def)

lemma dec_enc_sparse_header [simp]: "dec_sparse_header (enc_sparse_header h @ r) = h"
  by (simp add: dec_sparse_header_def enc_sparse_header_def le_simps)

lemma dec_enc_chunk_header [simp]: "dec_chunk_header (enc_chunk_header h @ r) = h"
  by (simp add: dec_chunk_header_def enc_chunk_header_def le_simps)

section \<open>Chunks\<close>

record reader =
  rd_file :: posix_file
  rd_sparse :: sparse_file
  rd_mem :: bb_mem
  rd_crc :: "u32 option"

abbreviation COPY_BUF_SIZE :: int where "COPY_BUF_SIZE \<equiv> 1024 * 1024"

text \<open>The loop that reads the data of a raw chunk through the copy buffer to checksum it.\<close>

function raw_crc_loop :: "nat \<Rightarrow> posix_file \<Rightarrow> u32 \<Rightarrow> int \<times> posix_file \<times> u32" where
  "raw_crc_loop len f crc = (if len = 0 then (0, f, crc)
     else let chunk = min len (1024 * 1024) in
       (case read_all chunk f of
          (Inl e, f) \<Rightarrow> (e, f, crc)
        | (Inr d, f) \<Rightarrow> raw_crc_loop (len - chunk) f (sparse_crc32 crc d)))"
  by pat_completeness auto
termination
  by (relation "measure (\<lambda>(len, f, crc). len)") auto

declare raw_crc_loop.simps [simp del]

definition process_raw_chunk ::
  "u32 \<Rightarrow> int \<Rightarrow> int \<Rightarrow> u32 \<Rightarrow> u32 \<Rightarrow> reader \<Rightarrow> (int \<times> reader) option" where
  "process_raw_chunk chunk_size fd offset blocks block r = (
     let bs = sf_block_size (rd_sparse r); len = blocks * bs in
     if bs = 0 then None
     else if chunk_size mod bs \<noteq> 0 then Some (- EINVAL, r)
     else if chunk_size div bs \<noteq> blocks then Some (- EINVAL, r)
     else do {
       (ret, s, m) \<leftarrow> sparse_file_add_fd (rd_sparse r) fd offset len block (rd_mem r);
       let r = r\<lparr>rd_sparse := s, rd_mem := m\<rparr>;
       if ret < 0 then Some (ret, r)
       else (case rd_crc r of
           Some crc \<Rightarrow> (case raw_crc_loop (unat len) (rd_file r) crc of
             (ret, f, crc) \<Rightarrow> Some (ret, r\<lparr>rd_file := f, rd_crc := Some crc\<rparr>))
         | None \<Rightarrow> Some (0, r\<lparr>rd_file := snd (posix_lseek_cur (uint len) (rd_file r))\<rparr>)) })"

text \<open>The first \<open>n\<close> bytes of the copy buffer once it is filled with a word.\<close>

definition fill_bytes :: "u32 \<Rightarrow> nat \<Rightarrow> byte list" where
  "fill_bytes v n = map (\<lambda>i. le32 v ! (i mod 4)) [0..<n]"

function buf_crc_loop :: "u32 \<Rightarrow> int \<Rightarrow> u32 \<Rightarrow> u32" where
  "buf_crc_loop v len crc = (if len \<le> 0 then crc
     else let chunk = min len COPY_BUF_SIZE in
       buf_crc_loop v (len - chunk) (sparse_crc32 crc (fill_bytes v (nat chunk))))"
  by pat_completeness auto
termination
  by (relation "measure (\<lambda>(v, len, crc). nat len)") auto

declare buf_crc_loop.simps [simp del]

definition process_fill_chunk ::
  "u32 \<Rightarrow> u32 \<Rightarrow> u32 \<Rightarrow> reader \<Rightarrow> (int \<times> reader) option" where
  "process_fill_chunk chunk_size blocks block r = (
     let len = uint blocks * uint (sf_block_size (rd_sparse r)) in
     if 2 ^ 63 \<le> len then None
     else if chunk_size \<noteq> 4 then Some (- EINVAL, r)
     else (case read_all 4 (rd_file r) of
         (Inl e, f) \<Rightarrow> Some (e, r\<lparr>rd_file := f\<rparr>)
       | (Inr d, f) \<Rightarrow> do {
           (ret, s, m) \<leftarrow> sparse_file_add_fill (rd_sparse r) (un_le32 d) (word_of_int len) block
              (rd_mem r);
           let r = r\<lparr>rd_file := f, rd_sparse := s, rd_mem := m\<rparr>;
           if ret < 0 then Some (ret, r)
           else Some (0, r\<lparr>rd_crc := map_option (buf_crc_loop (un_le32 d) len) (rd_crc r)\<rparr>) }))"

definition process_skip_chunk :: "u32 \<Rightarrow> u32 \<Rightarrow> reader \<Rightarrow> (int \<times> reader) option" where
  "process_skip_chunk chunk_size blocks r = (
     let len = uint blocks * uint (sf_block_size (rd_sparse r)) in
     if 2 ^ 63 \<le> len then None
     else if chunk_size \<noteq> 0 then Some (- EINVAL, r)
     else Some (0, r\<lparr>rd_crc := map_option (buf_crc_loop 0 len) (rd_crc r)\<rparr>))"

definition process_crc32_chunk :: "u32 \<Rightarrow> u32 \<Rightarrow> reader \<Rightarrow> int \<times> reader" where
  "process_crc32_chunk chunk_size crc r = (if chunk_size \<noteq> 4 then (- EINVAL, r)
     else (case read_all 4 (rd_file r) of
         (Inl e, f) \<Rightarrow> (e, r\<lparr>rd_file := f\<rparr>)
       | (Inr d, f) \<Rightarrow> (if un_le32 d \<noteq> crc then - EINVAL else 0, r\<lparr>rd_file := f\<rparr>)))"

text \<open>
  The checksum chunk reads through the checksum pointer, which is null when no checksum was
  asked for.  A chunk of unknown type is reported and passed over as if it were empty.
\<close>

definition process_chunk ::
  "int \<Rightarrow> int \<Rightarrow> u32 \<Rightarrow> chunk_header \<Rightarrow> u32 \<Rightarrow> reader \<Rightarrow> (int \<times> reader) option" where
  "process_chunk fd offset hdr_sz h cur_block r = (
     let chunk_data_size = total_sz h - hdr_sz in
     if chunk_type h = CHUNK_TYPE_RAW then do {
       (ret, r) \<leftarrow> process_raw_chunk chunk_data_size fd offset (chunk_sz h) cur_block r;
       Some (if ret < 0 then ret else sint (chunk_sz h), r) }
     else if chunk_type h = CHUNK_TYPE_FILL then do {
       (ret, r) \<leftarrow> process_fill_chunk chunk_data_size (chunk_sz h) cur_block r;
       Some (if ret < 0 then ret else sint (chunk_sz h), r) }
     else if chunk_type h = CHUNK_TYPE_DONT_CARE then do {
       (ret, r) \<leftarrow> process_skip_chunk chunk_data_size (chunk_sz h) r;
       Some (if chunk_data_size \<noteq> 0 \<and> ret < 0 then ret else sint (chunk_sz h), r) }
     else if chunk_type h = CHUNK_TYPE_CRC32 then do {
       crc \<leftarrow> rd_crc r;
       case process_crc32_chunk chunk_data_size crc r of (ret, r) \<Rightarrow>
         Some (if ret < 0 then ret else 0, r) }
     else Some (0, r))"

section \<open>Reading a sparse image\<close>

text \<open>The chunk loop: the number of chunks left, and the current block.\<close>

fun read_chunks ::
  "nat \<Rightarrow> int \<Rightarrow> u16 \<Rightarrow> u32 \<Rightarrow> reader \<Rightarrow> (int \<times> u32 \<times> reader) option" where
  "read_chunks 0 fd hdr_sz cur_block r = Some (0, cur_block, r)"
| "read_chunks (Suc n) fd hdr_sz cur_block r =
     (case read_all CHUNK_HEADER_LEN (rd_file r) of
        (Inl e, f) \<Rightarrow> Some (e, cur_block, r\<lparr>rd_file := f\<rparr>)
      | (Inr d, f) \<Rightarrow> do {
          let f = (if unat hdr_sz > CHUNK_HEADER_LEN
                then snd (posix_lseek_cur (uint hdr_sz - 12) f) else f);
          (ret, r) \<leftarrow> process_chunk fd (int (pos f)) (ucast hdr_sz) (dec_chunk_header d) cur_block
             (r\<lparr>rd_file := f\<rparr>);
          if ret < 0 then Some (ret, cur_block, r)
          else read_chunks n fd hdr_sz (cur_block + word_of_int ret) r })"

text \<open>\<open>copybuf\<close>: whether the copy buffer could be allocated.\<close>

definition sparse_file_read_sparse ::
  "bool \<Rightarrow> int \<Rightarrow> bool \<Rightarrow> reader \<Rightarrow> (int \<times> reader) option" where
  "sparse_file_read_sparse copybuf fd crc r = (if \<not> copybuf then Some (- ENOMEM, r)
     else let r = r\<lparr>rd_crc := (if crc then Some 0 else None)\<rparr> in
     (case read_all SPARSE_HEADER_LEN (rd_file r) of
        (Inl e, f) \<Rightarrow> Some (e, r\<lparr>rd_file := f\<rparr>)
      | (Inr d, f) \<Rightarrow>
          let h = dec_sparse_header d; r = r\<lparr>rd_file := f\<rparr> in
          if magic h \<noteq> SPARSE_HEADER_MAGIC then Some (- EINVAL, r)
          else if major_version h \<noteq> SPARSE_HEADER_MAJOR_VER then Some (- EINVAL, r)
          else if unat (file_hdr_sz h) < SPARSE_HEADER_LEN then Some (- EINVAL, r)
          else if unat (chunk_hdr_sz h) < CHUNK_HEADER_LEN then Some (- EINVAL, r)
          else do {
            let f = (if unat (file_hdr_sz h) > SPARSE_HEADER_LEN
                  then snd (posix_lseek_cur (uint (file_hdr_sz h) - 28) f) else f);
            (ret, cur_block, r) \<leftarrow> read_chunks (unat (total_chunks h)) fd (chunk_hdr_sz h) 0
               (r\<lparr>rd_file := f\<rparr>);
            if ret < 0 then Some (ret, r)
            else if total_blks h \<noteq> cur_block then Some (- EINVAL, r)
            else Some (0, r) }))"

section \<open>Reading a plain image\<close>

text \<open>Whether a block is one repeated word; it is at least a word long or memory is overread.\<close>

definition uniform_block :: "byte list \<Rightarrow> bool" where
  "uniform_block buf \<longleftrightarrow> (\<forall>i \<in> set [1..<length buf div 4].
     un_le32 buf = un_le32 (drop (4 * i) buf))"

text \<open>With a zero block size the loop would make no progress.\<close>

function read_normal_loop ::
  "int \<Rightarrow> int \<Rightarrow> int \<Rightarrow> u32 \<Rightarrow> reader \<Rightarrow> (int \<times> reader) option" where
  "read_normal_loop remain fd offset block r = (if remain \<le> 0 then Some (0, r)
     else if sf_block_size (rd_sparse r) = 0 then None
     else
       let bs = sf_block_size (rd_sparse r);
           to_read = (if remain < uint bs then word_of_int remain else bs) in
       (case read_all (unat to_read) (rd_file r) of
          (Inl e, f) \<Rightarrow> Some (e, r\<lparr>rd_file := f\<rparr>)
        | (Inr buf, f) \<Rightarrow>
            (case (if to_read = bs \<and> bs < 4 then None
                   else if to_read = bs \<and> uniform_block buf
                   then sparse_file_add_fill (rd_sparse r) (un_le32 buf) to_read block (rd_mem r)
                   else sparse_file_add_fd (rd_sparse r) fd offset to_read block (rd_mem r)) of
               None \<Rightarrow> None
             | Some (_, s, m) \<Rightarrow>
                 read_normal_loop (remain - uint to_read) fd (offset + uint to_read) (block + 1)
                   (r\<lparr>rd_file := f, rd_sparse := s, rd_mem := m\<rparr>))))"
  by pat_completeness auto
termination
proof (relation "measure (\<lambda>(remain, fd, offset, block, r). nat remain)", goal_cases)
  case (2 remain fd offset block r)
  then have "0 < uint (if remain < uint (sf_block_size (rd_sparse r)) then word_of_int remain
      else sf_block_size (rd_sparse r))"
  proof (cases "remain < uint (sf_block_size (rd_sparse r))")
    case True
    then have "remain < 2 ^ 32"
      using uint_lt2p [of "sf_block_size (rd_sparse r)"] by simp
    then show ?thesis
      using True 2 by (simp add: uint_word_of_int)
  next
    case False
    have "0 < uint (sf_block_size (rd_sparse r))"
      using 2(2) uint_0_iff [of "sf_block_size (rd_sparse r)"]
        uint_ge_0 [of "sf_block_size (rd_sparse r)"] by linarith
    with False show ?thesis
      by simp
  qed
  with 2(1) show ?case
    by (simp add: 2(3, 4) split: if_splits)
qed simp

declare read_normal_loop.simps [simp del]

definition sparse_file_read_normal :: "bool \<Rightarrow> int \<Rightarrow> reader \<Rightarrow> (int \<times> reader) option" where
  "sparse_file_read_normal buf_ok fd r = (if \<not> buf_ok then Some (- ENOMEM, r)
     else read_normal_loop (sf_len (rd_sparse r)) fd 0 0 r)"

definition sparse_file_read ::
  "bool \<Rightarrow> int \<Rightarrow> bool \<Rightarrow> bool \<Rightarrow> reader \<Rightarrow> (int \<times> reader) option" where
  "sparse_file_read buf_ok fd sparse crc r = (if crc \<and> \<not> sparse then Some (- EINVAL, r)
     else if sparse then sparse_file_read_sparse buf_ok fd crc r
     else sparse_file_read_normal buf_ok fd r)"

section \<open>Importing\<close>

definition import_read ::
  "bool \<Rightarrow> int \<Rightarrow> bool \<Rightarrow> reader \<Rightarrow> (sparse_file option \<times> posix_file \<times> bb_mem) option" where
  "import_read buf_ok fd crc r = do {
     (ret, r) \<leftarrow> sparse_file_read buf_ok fd True crc r;
     if ret < 0 then do {
       m \<leftarrow> sparse_file_destroy (rd_sparse r) (rd_mem r);
       Some (None, rd_file r, m) }
     else Some (Some (rd_sparse r), rd_file r, rd_mem r) }"

definition sparse_file_import ::
  "bool \<Rightarrow> int \<Rightarrow> bool \<Rightarrow> bool \<Rightarrow> posix_file \<Rightarrow> bb_mem
    \<Rightarrow> (sparse_file option \<times> posix_file \<times> bb_mem) option" where
  "sparse_file_import buf_ok fd verbose crc f m = (case read_all SPARSE_HEADER_LEN f of
       (Inl e, f) \<Rightarrow> Some (None, f, m)
     | (Inr d, f) \<Rightarrow>
         let h = dec_sparse_header d in
         if magic h \<noteq> SPARSE_HEADER_MAGIC then Some (None, f, m)
         else if major_version h \<noteq> SPARSE_HEADER_MAJOR_VER then Some (None, f, m)
         else if unat (file_hdr_sz h) < SPARSE_HEADER_LEN then Some (None, f, m)
         else if unat (chunk_hdr_sz h) < CHUNK_HEADER_LEN then Some (None, f, m)
         else do {
           (s, m) \<leftarrow> sparse_file_new (blk_sz h) (uint (total_blks h) * uint (blk_sz h)) m;
           case s of None \<Rightarrow> Some (None, f, m)
           | Some s \<Rightarrow> (case posix_lseek_set 0 f of (ret, f) \<Rightarrow>
               if ret < 0 then do { m \<leftarrow> sparse_file_destroy s m; Some (None, f, m) }
               else import_read buf_ok fd crc
                 \<lparr>rd_file = f, rd_sparse = s\<lparr>sf_verbose := verbose\<rparr>, rd_mem = m, rd_crc = None\<rparr>) })"

definition sparse_file_import_auto ::
  "bool \<Rightarrow> int \<Rightarrow> bool \<Rightarrow> bool \<Rightarrow> posix_file \<Rightarrow> bb_mem
    \<Rightarrow> (sparse_file option \<times> posix_file \<times> bb_mem) option" where
  "sparse_file_import_auto buf_ok fd crc verbose f m = do {
     (s, f, m) \<leftarrow> sparse_file_import buf_ok fd verbose crc f m;
     case s of Some s \<Rightarrow> Some (Some s, f, m)
     | None \<Rightarrow> (case posix_lseek_end 0 f of (len, f) \<Rightarrow>
         if len < 0 then Some (None, f, m)
         else do {
           let f = snd (posix_lseek_set 0 f);
           (s, m) \<leftarrow> sparse_file_new 4096 len m;
           case s of None \<Rightarrow> Some (None, f, m)
           | Some s \<Rightarrow> do {
               (ret, r) \<leftarrow> sparse_file_read_normal buf_ok fd
                  \<lparr>rd_file = f, rd_sparse = s, rd_mem = m, rd_crc = None\<rparr>;
               if ret < 0 then do {
                 m \<leftarrow> sparse_file_destroy (rd_sparse r) (rd_mem r);
                 Some (None, rd_file r, m) }
               else Some (Some (rd_sparse r), rd_file r, rd_mem r) } }) }"

end
