(* ===== verification/Sparse_Format.thy ===== *)
theory Sparse_Format
  imports Backed_Queue Sparse_Read
begin

text \<open>
  The sparse image format as a specification: an image is a sequence of chunks, the layout
  of a list of pending blocks is the sequence of chunks that represents it, and a chunk has
  an encoding and a contents.  \<^verbatim>\<open>Sparse_Writer\<close> and \<^verbatim>\<open>Sparse_Reader\<close> show that the code of
  \<^verbatim>\<open>output_file.c\<close>, \<^verbatim>\<open>sparse.c\<close> and \<^verbatim>\<open>sparse_read.c\<close> writes and reads this format.
\<close>

section \<open>Chunks\<close>

datatype sp_chunk = Raw nat "byte list" | Filled nat u32 | DontCare nat

fun chunk_blocks :: "sp_chunk \<Rightarrow> nat" where
  "chunk_blocks (Raw n d) = n"
| "chunk_blocks (Filled n v) = n"
| "chunk_blocks (DontCare n) = n"

text \<open>
  Files hold little-endian numbers.  A chunk has a header of twelve bytes: type, a reserved
  field, the number of blocks it stands for, and the number of bytes of the chunk with its
  header.
\<close>

definition chunk_bytes :: "nat \<Rightarrow> nat \<Rightarrow> byte list \<Rightarrow> byte list" where
  "chunk_bytes ty blks payload = little_endian 2 ty @ little_endian 2 0 @ little_endian 4 blks @
     little_endian 4 (12 + length payload) @ payload"

fun enc_chunk :: "sp_chunk \<Rightarrow> byte list" where
  "enc_chunk (Raw n d) = chunk_bytes 0xCAC1 n d"
| "enc_chunk (Filled n v) = chunk_bytes 0xCAC2 n (little_endian 4 (unat v))"
| "enc_chunk (DontCare n) = chunk_bytes 0xCAC3 n []"

definition enc_chunks :: "sp_chunk list \<Rightarrow> byte list" where
  "enc_chunks cs = concat (map enc_chunk cs)"

definition crc_chunk :: "u32 \<Rightarrow> byte list" where
  "crc_chunk c = chunk_bytes 0xCAC4 0 (little_endian 4 (unat c))"

text \<open>
  The header: magic, version 1.0, the two header sizes, block size, numbers of blocks and
  chunks, and a checksum field that is left zero.
\<close>

definition header_bytes :: "u32 \<Rightarrow> nat \<Rightarrow> nat \<Rightarrow> byte list" where
  "header_bytes bs blks chunks = little_endian 4 0xed26ff3a @ little_endian 2 1 @ little_endian 2 0 @
     little_endian 2 28 @ little_endian 2 12 @ little_endian 4 (unat bs) @ little_endian 4 blks @
     little_endian 4 chunks @ little_endian 4 0"

text \<open>
  The bytes that enter the checksum a writer stores: the data of a raw chunk, one block of a
  fill whatever its length, and nothing for a gap.
\<close>

fun summed :: "u32 \<Rightarrow> sp_chunk \<Rightarrow> byte list" where
  "summed bs (Raw n d) = d"
| "summed bs (Filled n v) = concat (replicate (unat bs div 4) (little_endian 4 (unat v)))"
| "summed bs (DontCare n) = []"

definition written_crc :: "u32 \<Rightarrow> sp_chunk list \<Rightarrow> u32" where
  "written_crc bs cs = crc_ref 0 (concat (map (summed bs) cs))"

text \<open>The contents of a chunk, a gap reading as zeroes, and the checksum of all of them.\<close>

fun chunk_data :: "u32 \<Rightarrow> sp_chunk \<Rightarrow> byte list" where
  "chunk_data bs (Raw n d) = d"
| "chunk_data bs (Filled n v) = fill_bytes v (n * unat bs)"
| "chunk_data bs (DontCare n) = fill_bytes 0 (n * unat bs)"

definition image_crc :: "u32 \<Rightarrow> sp_chunk list \<Rightarrow> u32" where
  "image_crc bs cs = crc_ref 0 (concat (map (chunk_data bs) cs))"

text \<open>A whole image, with a checksum chunk or without.\<close>

definition sparse_image :: "u32 \<Rightarrow> nat \<Rightarrow> bool \<Rightarrow> sp_chunk list \<Rightarrow> byte list" where
  "sparse_image bs blks crc cs =
     header_bytes bs blks (if crc then length cs + 1 else length cs) @
     enc_chunks cs @ (if crc then crc_chunk (written_crc bs cs) else [])"

section \<open>The format and the structures of the code\<close>

definition file_header :: "u32 \<Rightarrow> nat \<Rightarrow> nat \<Rightarrow> sparse_header" where
  "file_header bs blks chunks = \<lparr>magic = SPARSE_HEADER_MAGIC,
     major_version = SPARSE_HEADER_MAJOR_VER, minor_version = SPARSE_HEADER_MINOR_VER,
     file_hdr_sz = 28, chunk_hdr_sz = 12, blk_sz = bs, total_blks = of_nat blks,
     total_chunks = of_nat chunks, image_checksum = 0\<rparr>"

lemma le32_unat: "little_endian 4 (unat v) = le32 v"
  using le32_little_endian [of "unat v"] by simp

lemma chunk_bytes_eq: "chunk_bytes ty n p = enc_chunk_header \<lparr>chunk_type = of_nat ty, reserved1 = 0,
    chunk_sz = of_nat n, total_sz = of_nat (12 + length p)\<rparr> @ p"
  using le16_little_endian [of 0] by (simp add: chunk_bytes_def enc_chunk_header_def
      le16_little_endian [symmetric] le32_little_endian [symmetric])

lemma header_bytes_eq: "header_bytes bs blks k = enc_sparse_header (file_header bs blks k)"
  by (simp add: header_bytes_def enc_sparse_header_def file_header_def
      le16_little_endian [symmetric] le32_little_endian [symmetric])

lemma enc_chunk_eqs [simp]:
  "enc_chunk (Raw n d) = enc_chunk_header \<lparr>chunk_type = CHUNK_TYPE_RAW, reserved1 = 0,
     chunk_sz = of_nat n, total_sz = 12 + of_nat (length d)\<rparr> @ d"
  "enc_chunk (Filled n v) = enc_chunk_header \<lparr>chunk_type = CHUNK_TYPE_FILL, reserved1 = 0,
     chunk_sz = of_nat n, total_sz = 16\<rparr> @ le32 v"
  "enc_chunk (DontCare n) = enc_chunk_header \<lparr>chunk_type = CHUNK_TYPE_DONT_CARE, reserved1 = 0,
     chunk_sz = of_nat n, total_sz = 12\<rparr>"
  by (simp_all add: chunk_bytes_eq le32_unat)

declare enc_chunk.simps [simp del]

lemma crc_chunk_eq: "crc_chunk c = enc_chunk_header \<lparr>chunk_type = CHUNK_TYPE_CRC32, reserved1 = 0,
    chunk_sz = 0, total_sz = 16\<rparr> @ le32 c"
  by (simp add: crc_chunk_def chunk_bytes_eq le32_unat)

lemmas sparse_image_eq = sparse_image_def [unfolded header_bytes_eq]

lemma image_crc_eq: "image_crc bs cs = sparse_crc32 0 (concat (map (chunk_data bs) cs))"
  by (simp add: image_crc_def sparse_crc32_ref)

text \<open>The writer's checksum, chunk by chunk.\<close>

definition chunk_crc :: "u32 \<Rightarrow> sp_chunk \<Rightarrow> u32 \<Rightarrow> u32" where
  "chunk_crc bs c z = crc_ref z (summed bs c)"

lemma chunk_crc_eqs [simp]:
  "chunk_crc bs (Raw n d) c = sparse_crc32 c d"
  "chunk_crc bs (Filled n v) c = fill_crc bs v c"
  "chunk_crc bs (DontCare n) c = c"
proof -
  have "sparse_crc32 c (concat (replicate k (le32 v))) = ((\<lambda>c. sparse_crc32 c (le32 v)) ^^ k) c" for k
    by (induction k arbitrary: c)
       (simp_all add: sparse_crc32_append funpow_swap1 [of "\<lambda>c. sparse_crc32 c (le32 v)", simplified])
  then show "chunk_crc bs (Filled n v) c = fill_crc bs v c"
    by (simp add: chunk_crc_def fill_crc_def le32_unat sparse_crc32_ref [symmetric] unat_div_distrib)
qed (simp_all add: chunk_crc_def sparse_crc32_ref [symmetric])

lemma written_crc_fold: "written_crc bs cs = fold (chunk_crc bs) cs 0"
proof -
  have "fold (chunk_crc bs) cs z = crc_ref z (concat (map (summed bs) cs))" for z
    by (induction cs arbitrary: z)
       (simp_all add: chunk_crc_def sparse_crc32_ref [symmetric] sparse_crc32_append)
  then show ?thesis by (simp add: written_crc_def)
qed

section \<open>The contents of a block\<close>

definition window :: "byte list \<Rightarrow> int \<Rightarrow> nat \<Rightarrow> byte list option" where
  "window c off n = (if 0 \<le> off \<and> nat off + n \<le> length (page_pad c)
     then Some (take n (drop (nat off) (page_pad c))) else None)"

text \<open>The bytes a block stands for, where its source has them; names are looked up in \<open>nm\<close>.\<close>

definition src_bytes :: "io_env \<Rightarrow> (addr \<Rightarrow> string option) \<Rightarrow> bb_core \<Rightarrow> byte list option" where
  "src_bytes env nm b = (case bb_src b of
       Data d \<Rightarrow> if unat (bb_len b) \<le> length d then Some (take (unat (bb_len b)) d) else None
     | File n off \<Rightarrow> do { p \<leftarrow> n; s \<leftarrow> nm p; c \<leftarrow> env_files env s; window c off (unat (bb_len b)) }
     | Fd fd off \<Rightarrow> do { c \<leftarrow> env_fds env fd; window c off (unat (bb_len b)) }
     | Fill v \<Rightarrow> Some (fill_bytes v (unat (bb_len b))))"

section \<open>The layout of a list of blocks\<close>

definition nblks :: "u32 \<Rightarrow> bb_core \<Rightarrow> nat" where
  "nblks bs b = (unat (bb_len b) + unat bs - 1) div unat bs"

definition chunk_of :: "u32 \<Rightarrow> io_env \<Rightarrow> (addr \<Rightarrow> string option) \<Rightarrow> bb_core \<Rightarrow> sp_chunk" where
  "chunk_of bs env nm b = (case bb_src b of Fill v \<Rightarrow> Filled (nblks bs b) v
     | _ \<Rightarrow> Raw (nblks bs b) (the (src_bytes env nm b) @
              replicate (unat bs * nblks bs b - unat (bb_len b)) 0))"

definition gap :: "nat \<Rightarrow> nat \<Rightarrow> sp_chunk list" where
  "gap l n = (if l < n then [DontCare (n - l)] else [])"

primrec body :: "u32 \<Rightarrow> (bb_core \<Rightarrow> sp_chunk) \<Rightarrow> nat \<Rightarrow> bb_core list \<Rightarrow> sp_chunk list" where
  "body bs f l [] = []"
| "body bs f l (b # xs) = gap l (unat (bb_block b)) @
     f b # body bs f (unat (bb_block b) + nblks bs b) xs"

primrec blocks_end :: "u32 \<Rightarrow> nat \<Rightarrow> bb_core list \<Rightarrow> nat" where
  "blocks_end bs l [] = l"
| "blocks_end bs l (b # xs) = blocks_end bs (unat (bb_block b) + nblks bs b) xs"

definition layout :: "u32 \<Rightarrow> nat \<Rightarrow> (bb_core \<Rightarrow> sp_chunk) \<Rightarrow> bb_core list \<Rightarrow> sp_chunk list" where
  "layout bs tot f xs = body bs f 0 xs @ gap (blocks_end bs 0 xs) tot"

text \<open>
  The blocks lie one after the other within \<open>tot\<close> blocks, and the rounded length of each
  stays below 2 GiB less a page (the code keeps it in an \<^verbatim>\<open>int\<close> and adds the offset within a
  page).
\<close>

definition fits :: "u32 \<Rightarrow> bb_core \<Rightarrow> bool" where
  "fits bs b \<longleftrightarrow> bs \<noteq> 0 \<and> bb_len b \<noteq> 0 \<and> unat bs * nblks bs b + 4096 < 2 ^ 31"

primrec placed :: "u32 \<Rightarrow> nat \<Rightarrow> nat \<Rightarrow> bb_core list \<Rightarrow> bool" where
  "placed bs tot l [] \<longleftrightarrow> l \<le> tot"
| "placed bs tot l (b # xs) \<longleftrightarrow> fits bs b \<and> l \<le> unat (bb_block b) \<and>
     placed bs tot (unat (bb_block b) + nblks bs b) xs"

section \<open>Rounding\<close>

lemma fits_bounds:
  assumes "fits bs b"
  shows "0 < unat bs" "0 < unat (bb_len b)" "0 < nblks bs b"
    "unat (bb_len b) \<le> unat bs * nblks bs b" "unat bs * nblks bs b < unat (bb_len b) + unat bs"
    "unat bs * nblks bs b + 4096 < 2 ^ 31" "unat bs < 2 ^ 31" "nblks bs b < 2 ^ 31"
proof -
  let ?n = "unat (bb_len b) + unat bs - 1"
  show p: "0 < unat bs" "0 < unat (bb_len b)" "unat bs * nblks bs b + 4096 < 2 ^ 31"
    using assms by (simp_all add: fits_def unat_gt_0)
  have "unat bs \<le> ?n"
    using p by simp
  then show n: "0 < nblks bs b"
    using p by (simp add: nblks_def div_greater_zero_iff)
  have "?n = unat bs * nblks bs b + ?n mod unat bs"
    by (simp add: nblks_def)
  moreover have "?n mod unat bs < unat bs"
    using p by simp
  ultimately show "unat (bb_len b) \<le> unat bs * nblks bs b"
    "unat bs * nblks bs b < unat (bb_len b) + unat bs"
    using p by linarith+
  show "unat bs < 2 ^ 31" "nblks bs b < 2 ^ 31"
    using p n le_less_trans [of "unat bs" "unat bs * nblks bs b" "2 ^ 31"]
      le_less_trans [of "nblks bs b" "unat bs * nblks bs b" "2 ^ 31"] by simp_all
qed

lemma DIV_ROUND_UP_fits:
  assumes "fits bs b"
  shows "unat (DIV_ROUND_UP (bb_len b) bs) = nblks bs b"
proof -
  note f = fits_bounds [OF assms]
  have s: "unat (bb_len b + bs) = unat (bb_len b) + unat bs"
    using f by (simp add: unat_word_ariths)
  have "(1 :: u32) \<le> bb_len b + bs"
    using f s by (simp add: word_le_nat_alt)
  then have "unat (bb_len b + bs - 1) = unat (bb_len b) + unat bs - 1"
    using s by (simp add: unat_sub)
  then show ?thesis
    by (simp add: DIV_ROUND_UP_def nblks_def unat_div_distrib)
qed

lemma ALIGN_fits:
  assumes "fits bs b"
  shows "unat (ALIGN (bb_len b) bs) = unat bs * nblks bs b"
  using fits_bounds [OF assms] DIV_ROUND_UP_fits [OF assms]
  by (simp add: ALIGN_def unat_word_ariths)

lemma sint_small:
  assumes "unat (w :: u32) < 2 ^ 31"
  shows "sint w = int (unat w)"
proof -
  have "uint w < 2 ^ 31"
    using assms by (metis of_nat_less_iff of_nat_numeral of_nat_power uint_nat)
  then show ?thesis
    by (simp add: sint_uint signed_take_bit_int_eq_self order.trans [OF _ uint_ge_0])
qed

lemma word_of_unat: "unat w = n \<Longrightarrow> w = of_nat n"
  by auto

lemma ALIGN_words:
  assumes "fits bs b"
  defines "A \<equiv> ALIGN (bb_len b) bs" and "n \<equiv> unat bs * nblks bs b"
  shows "A div bs = of_nat (nblks bs b)" "A = of_nat n" "sint A = int n"
    "sint (bb_len b) = int (unat (bb_len b))" "unat (A - bb_len b) = n - unat (bb_len b)"
    "sint (A - bb_len b) = int (n - unat (bb_len b))"
    "A - bb_len b = 0 \<longleftrightarrow> n - unat (bb_len b) = 0"
proof -
  note f = fits_bounds [OF assms(1)]
  have A: "unat A = n"
    using ALIGN_fits [OF assms(1)] by (simp add: A_def n_def)
  then show "A = of_nat n"
    by (rule word_of_unat)
  show "A div bs = of_nat (nblks bs b)"
    by (rule word_of_unat) (use A f in \<open>simp add: unat_div_distrib n_def\<close>)
  show "sint A = int n"
    using A f sint_small [of A] by (simp add: n_def)
  show "sint (bb_len b) = int (unat (bb_len b))"
    using f by (intro sint_small) simp
  have "bb_len b \<le> A"
    using A f by (simp add: word_le_nat_alt n_def)
  then show d: "unat (A - bb_len b) = n - unat (bb_len b)"
    using A by (simp add: unat_sub)
  then show "sint (A - bb_len b) = int (n - unat (bb_len b))"
    using f sint_small [of "A - bb_len b"] by (simp add: n_def)
  show "A - bb_len b = 0 \<longleftrightarrow> n - unat (bb_len b) = 0"
    using d by (metis unat_eq_zero)
qed

lemma placed_le: "placed bs tot l xs \<Longrightarrow> l \<le> tot"
  by (induction xs arbitrary: l) fastforce+

lemma placed_end: "placed bs tot l xs \<Longrightarrow> blocks_end bs l xs \<le> tot"
  by (induction xs arbitrary: l) auto

lemma block_end_fits: "fits bs (core b) \<Longrightarrow>
    block_end bs b = of_nat (unat (bb_block b) + nblks bs (core b))"
  using DIV_ROUND_UP_fits [of bs "core b"] by (simp add: block_end_def word_of_unat)

lemma unat_of_nat_u32: "n < 2 ^ 32 \<Longrightarrow> unat (of_nat n :: u32) = n"
  by (simp add: unat_of_nat take_bit_eq_mod)

lemma uint_of_nat_u32: "n < 2 ^ 32 \<Longrightarrow> uint (of_nat n :: u32) = int n"
  by (simp only: uint_nat unat_of_nat_u32)

lemma of_nat_less_u32: "l < 2 ^ 32 \<Longrightarrow> (of_nat l :: u32) < w \<longleftrightarrow> l < unat w"
  by (simp add: word_less_nat_alt unat_of_nat_u32)

lemma uint_gap:
  assumes "l \<le> unat w"
  shows "uint (w - of_nat l :: u32) = int (unat w - l)"
proof -
  have "unat (of_nat l :: u32) = l"
    using assms unsigned_less [of w, where ?'a = nat] by (intro unat_of_nat_u32) simp
  then have "unat (w - of_nat l) = unat w - l"
    using assms by (simp add: unat_sub word_le_nat_alt)
  then show ?thesis
    by (simp only: uint_nat)
qed

end
