(* ===== verification/Sparse_Writer.thy ===== *)
theory Sparse_Writer
  imports Sparse_Format
begin

text \<open>
  The writer produces the format of \<^verbatim>\<open>Sparse_Format\<close>: on a backend that takes every byte, the
  operations of \<^verbatim>\<open>output_file.c\<close> and \<^verbatim>\<open>sparse.c\<close> hand it exactly the encoded image of the
  pending blocks.  The argument is made once, over what a backend promises, and used for the
  file backend and for the counting callback of \<^verbatim>\<open>sparse_file_len\<close>.
\<close>

section \<open>Mapping a file\<close>

lemma write_fd_chunk_window:
  assumes "0 \<le> off" "len \<noteq> 0" "unat len + 4096 < 2 ^ 31"
  shows "write_fd_chunk len (Some c) off out = write_data_chunk len (drop (nat off) (page_pad c)) out"
proof -
  let ?d = "off mod 4096"
  have d: "0 \<le> ?d" "?d < 4096" "?d \<le> off"
    using assms(1) by (simp_all add: zmod_le_nonneg_dividend)
  then have "unat (word_of_int ?d :: u32) = nat ?d"
    by (simp add: unat_eq_nat_uint uint_word_of_int)
  then have "unat (len + word_of_int ?d) = unat len + nat ?d"
    using d assms(3) by (simp add: unat_word_ariths)
  then have "sint (len + word_of_int ?d) = int (unat len + nat ?d)"
    using d assms(3) sint_small [of "len + word_of_int ?d"] by simp
  moreover have "0 < unat len"
    using assms(2) by (simp add: unat_gt_0)
  ultimately have "0 < sint (len + word_of_int ?d)"
    by linarith
  moreover have "nat ?d + nat (off - ?d) = nat off"
    using d by simp
  ultimately show ?thesis
    using d assms(1) by (simp add: write_fd_chunk_def posix_mmap_def Let_def)
qed

section \<open>Files that can be written\<close>

text \<open>
  The blocks lie within a whole number of blocks, fewer than \<open>2 ^ 31\<close> of them, and every
  source has the bytes its block refers to.
\<close>

definition blocks_of :: "bb_mem \<Rightarrow> sparse_file \<Rightarrow> bb_core list" where
  "blocks_of m s = queue_view m (sf_blocks s)"

definition total_of :: "sparse_file \<Rightarrow> nat" where
  "total_of s = nat (sf_len s div uint (sf_block_size s))"

definition writable :: "io_env \<Rightarrow> bb_mem \<Rightarrow> sparse_file \<Rightarrow> bool" where
  "writable env m s \<longleftrightarrow> sf_block_size s \<noteq> 0 \<and> unat (sf_block_size s) < 2 ^ 31 \<and> 0 \<le> sf_len s \<and>
     sf_len s mod uint (sf_block_size s) = 0 \<and> total_of s < 2 ^ 31 \<and>
     walk m (data_blocks (sf_blocks s)) \<noteq> None \<and>
     placed (sf_block_size s) (total_of s) 0 (blocks_of m s) \<and>
     (\<forall>x \<in> set (blocks_of m s). src_bytes env (load_name m) x \<noteq> None)"

definition chunks_of :: "io_env \<Rightarrow> bb_mem \<Rightarrow> sparse_file \<Rightarrow> sp_chunk list" where
  "chunks_of env m s = layout (sf_block_size s) (total_of s)
     (chunk_of (sf_block_size s) env (load_name m)) (blocks_of m s)"

definition image_of :: "io_env \<Rightarrow> bool \<Rightarrow> bb_mem \<Rightarrow> sparse_file \<Rightarrow> byte list" where
  "image_of env crc m s = sparse_image (sf_block_size s) (total_of s) crc (chunks_of env m s)"

lemma writableE:
  assumes "writable env m s"
  obtains as where "chain (load m) (data_blocks (sf_blocks s)) as None"
    "blocks_of m s = bbs (load m) as"
  using assms walk_chain [of m "data_blocks (sf_blocks s)"]
  by (auto simp: writable_def blocks_of_def queue_view_def)

lemma uint_pos: "w \<noteq> 0 \<Longrightarrow> 0 < uint (w :: u32)"
  using uint_ge_0 [of w] uint_0_iff [of w] by linarith

lemma writable_len: "writable env m s \<Longrightarrow> sf_len s = int (total_of s) * uint (sf_block_size s)"
  using uint_pos [of "sf_block_size s"]
  by (auto simp: writable_def total_of_def pos_imp_zdiv_nonneg_iff)

section \<open>Counting chunks\<close>

lemma count_chunks_from_run:
  assumes "chain (load m) p as None" "placed bs tot l (bbs (load m) as)" "tot < 2 ^ 32"
  shows "count_chunks_from m bs p (of_nat l) k =
    Some (of_nat (blocks_end bs l (bbs (load m) as)),
      k + of_nat (length (body bs f l (bbs (load m) as))))"
  using assms
proof (induction as arbitrary: p l k)
  case Nil
  then show ?case by (simp add: count_chunks_from.simps)
next
  case (Cons a as)
  then obtain b where b: "p = Some a" "load m a = Some b" "chain (load m) (bb_next b) as None"
    by auto
  let ?e = "unat (bb_block b) + nblks bs (core b)"
  have pl: "fits bs (core b)" "l \<le> unat (bb_block b)" "placed bs tot ?e (bbs (load m) as)"
    using Cons.prems(2) b(2) by simp_all
  have "l < 2 ^ 32" "bs \<noteq> 0"
    using pl placed_le [OF pl(3)] Cons.prems(3) by (simp_all add: fits_def)
  then show ?case
    using Cons.IH [OF b(3) pl(3) Cons.prems(3)] b(1,2) block_end_fits [OF pl(1)]
    by (simp add: count_chunks_from.simps [of m bs "Some a"] of_nat_less_u32 gap_def)
qed

lemma sparse_count_chunks_run:
  assumes "writable env m s"
  shows "sparse_count_chunks s m = Some (of_nat (length (chunks_of env m s)))"
proof -
  let ?bs = "sf_block_size s" and ?t = "total_of s" and ?e = "blocks_end (sf_block_size s) 0 (blocks_of m s)"
  obtain as where as: "chain (load m) (data_blocks (sf_blocks s)) as None"
    "blocks_of m s = bbs (load m) as"
    using writableE [OF assms] .
  have w: "?bs \<noteq> 0" "placed ?bs ?t 0 (blocks_of m s)" "?t < 2 ^ 31"
    using assms by (simp_all add: writable_def)
  have "sf_len s + uint ?bs - 1 = (uint ?bs - 1) + int ?t * uint ?bs"
    using writable_len [OF assms] by simp
  moreover have "((uint ?bs - 1) + int ?t * uint ?bs) sdiv uint ?bs =
      ((uint ?bs - 1) + int ?t * uint ?bs) div uint ?bs"
    using uint_pos [OF w(1)] by (intro sdiv_nonneg) simp_all
  moreover have "((uint ?bs - 1) + int ?t * uint ?bs) div uint ?bs = int ?t"
    using uint_pos [OF w(1)] by (subst div_mult_self1) (simp_all add: div_pos_pos_trivial)
  ultimately have "(sf_len s + uint ?bs - 1) sdiv uint ?bs = int ?t"
    by metis
  moreover have "?e < 2 ^ 32"
    using placed_end [OF w(2)] w(3) by simp
  then have "uint (of_nat ?e :: u32) = int ?e"
    by (simp only: uint_nat unat_of_nat_u32)
  ultimately show ?thesis
    using count_chunks_from_run [OF as(1) w(2) [unfolded as(2)], of 0
        "chunk_of ?bs env (load_name m)"] w as(2)
    by (simp add: sparse_count_chunks_def backed_block_iter_new_def chunks_of_def layout_def gap_def)
qed

section \<open>Backends that take every byte\<close>

locale byte_sink =
  fixes emit :: "byte list \<Rightarrow> 'e sink \<Rightarrow> 'e sink"
    and accepts :: "nat \<Rightarrow> 'e sink \<Rightarrow> bool"
  assumes write_law: "accepts (length d) s \<Longrightarrow>
      ops_write (d @ r) (int (length d)) s = Some (0, emit d s)"
    and accepts_emit: "accepts (length d + n) s \<Longrightarrow> accepts n (emit d s)"
    and accepts_mono: "accepts n s \<Longrightarrow> k \<le> n \<Longrightarrow> accepts k s"
    and emit_emit: "emit b (emit a s) = emit (a @ b) s"
begin

definition put_chunk :: "sp_chunk \<Rightarrow> 'e output_file \<Rightarrow> 'e output_file" where
  "put_chunk c out = out\<lparr>
     cur_out_ptr := cur_out_ptr out + int (unat (out_block_size out) * chunk_blocks c),
     chunk_cnt := chunk_cnt out + 1,
     crc32 := (if use_crc out then chunk_crc (out_block_size out) c (crc32 out) else crc32 out),
     sink := emit (enc_chunk c) (sink out)\<rparr>"

lemma put_chunk_sel [simp]:
  "ops (put_chunk c out) = ops out" "use_crc (put_chunk c out) = use_crc out"
  "out_block_size (put_chunk c out) = out_block_size out" "out_len (put_chunk c out) = out_len out"
  "zero_buf (put_chunk c out) = zero_buf out" "sink (put_chunk c out) = emit (enc_chunk c) (sink out)"
  by (simp_all add: put_chunk_def)

lemma out_write_ok:
  assumes "accepts (length d) (sink out)" "n = int (length d)"
  shows "out_write (d @ r) n out = Some (0, out\<lparr>sink := emit d (sink out)\<rparr>)"
  using write_law [OF assms(1)] assms(2) by (simp add: out_write_def)

lemmas out_write_all = out_write_ok [where r = "[]", simplified]

lemma write_sparse_skip_chunk_run:
  assumes "out_block_size out \<noteq> 0" "accepts 12 (sink out)"
  shows "write_sparse_skip_chunk (int n * uint (out_block_size out)) out =
    Some (0, put_chunk (DontCare n) out)"
proof -
  let ?b = "uint (out_block_size out)"
  have b: "?b = int (unat (out_block_size out))"
    by (rule uint_nat)
  have "0 < unat (out_block_size out)"
    using assms(1) by (simp add: unat_gt_0)
  with b have "0 < ?b"
    by linarith
  then have "int n * ?b smod ?b = 0" "int n * ?b sdiv ?b = int n"
    by (simp_all add: signed_modulo_int_def signed_divide_int_def sgn_if abs_mult)
  then show ?thesis
    using assms by (simp add: write_sparse_skip_chunk_def out_write_all put_chunk_def)
qed

lemma write_sparse_fill_chunk_run:
  assumes "fits (out_block_size out) b" "accepts 16 (sink out)"
  shows "write_sparse_fill_chunk (bb_len b) v out =
    Some (0, put_chunk (Filled (nblks (out_block_size out) b) v) out)"
proof -
  note w = ALIGN_words [OF assms(1)]
  have bs: "out_block_size out \<noteq> 0"
    using assms(1) by (simp add: fits_def)
  have "accepts 12 (sink out)"
    using assms(2) by (rule accepts_mono) simp
  then show ?thesis
    using accepts_emit [of "enc_chunk_header h" 4 "sink out" for h] assms(2) w(1,3) bs
    by (simp add: write_sparse_fill_chunk_def out_write_all put_chunk_def emit_emit Let_def)
qed

lemma data_crc_run:
  assumes "fits (out_block_size out) b" "unat (bb_len b) \<le> length data"
    and "zero_buf out = replicate (unat (out_block_size out)) 0"
  defines "z \<equiv> unat (out_block_size out) * nblks (out_block_size out) b - unat (bb_len b)"
  shows "data_crc (bb_len b) data (ALIGN (bb_len b) (out_block_size out) - bb_len b) out =
    Some (out\<lparr>crc32 := (if use_crc out
      then sparse_crc32 (crc32 out) (take (unat (bb_len b)) data @ replicate z 0) else crc32 out)\<rparr>)"
proof -
  define zl where "zl = ALIGN (bb_len b) (out_block_size out) - bb_len b"
  note w = ALIGN_words(4,6,7) [OF assms(1), folded z_def zl_def]
  have "z \<le> unat (out_block_size out)"
    using fits_bounds [OF assms(1)] by (simp add: z_def)
  then show ?thesis
    using assms(2)
    by (simp add: data_crc_def crc_mem_def w assms(3) sparse_crc32_append sparse_crc32_Nil
        flip: zl_def)
qed

lemma write_sparse_data_chunk_run:
  assumes f: "fits (out_block_size out) b" and len: "unat (bb_len b) \<le> length data"
    and zb: "zero_buf out = replicate (unat (out_block_size out)) 0"
  defines "n \<equiv> nblks (out_block_size out) b"
  defines "d \<equiv> take (unat (bb_len b)) data @
      replicate (unat (out_block_size out) * n - unat (bb_len b)) 0"
  assumes acc: "accepts (12 + length d) (sink out)"
  shows "write_sparse_data_chunk (bb_len b) data out = Some (0, put_chunk (Raw n d) out)"
proof -
  define A where "A = ALIGN (bb_len b) (out_block_size out)"
  define z where "z = unat (out_block_size out) * n - unat (bb_len b)"
  note w = ALIGN_words [OF f, folded A_def n_def]
  note fb = fits_bounds [OF f, folded n_def]
  let ?h = "enc_chunk_header \<lparr>chunk_type = CHUNK_TYPE_RAW, reserved1 = 0, chunk_sz = of_nat n,
     total_sz = 12 + A\<rparr>" and ?d = "take (unat (bb_len b)) data"
  have bs: "out_block_size out \<noteq> 0"
    using f by (simp add: fits_def)
  have ld: "length ?d = unat (bb_len b)" "length d = unat (out_block_size out) * n"
    using len fb by (simp_all add: d_def)
  have acc2: "accepts (length d) (emit ?h (sink out))"
    using acc by (intro accepts_emit) simp
  have acc1: "accepts 12 (sink out)" "accepts (length ?d) (emit ?h (sink out))"
    using acc acc2 by (auto intro: accepts_mono simp: d_def simp del: length_take)
  have acc3: "accepts z (emit (?h @ ?d) (sink out))"
    using acc2 accepts_emit [of ?d z "emit ?h (sink out)"] by (simp add: d_def z_def emit_emit)
  have zl: "z \<le> unat (out_block_size out)"
    using fb by (simp add: z_def)
  have w1: "out_write data (sint (bb_len b)) (out\<lparr>sink := emit ?h (sink out)\<rparr>) =
      Some (0, out\<lparr>sink := emit (?h @ ?d) (sink out)\<rparr>)"
    using out_write_ok [of ?d "out\<lparr>sink := emit ?h (sink out)\<rparr>" "sint (bb_len b)"
      "drop (unat (bb_len b)) data"] acc1(2) ld(1) w(4) by (simp add: emit_emit)
  have w2: "out_write (zero_buf out) (int z) (out\<lparr>sink := emit (?h @ ?d) (sink out)\<rparr>) =
      Some (0, out\<lparr>sink := emit (?h @ d) (sink out)\<rparr>)"
    using out_write_ok [of "replicate z 0" "out\<lparr>sink := emit (?h @ ?d) (sink out)\<rparr>" "int z"
      "replicate (unat (out_block_size out) - z) 0"] acc3 zl
    by (simp add: zb emit_emit d_def z_def flip: replicate_add)
  define zl where "zl = A - bb_len b"
  have w3: "zl = 0 \<Longrightarrow> d = ?d" "zl \<noteq> 0 \<Longrightarrow> out_write (zero_buf out) (sint zl)
        (out\<lparr>sink := emit (?h @ ?d) (sink out)\<rparr>) =
      Some (0, out\<lparr>sink := emit (?h @ d) (sink out)\<rparr>)"
    using w2 w(6,7) [folded z_def zl_def] by (simp_all add: d_def flip: z_def)
  have crc: "data_crc (bb_len b) data zl (out\<lparr>sink := emit (?h @ d) (sink out)\<rparr>) =
      Some (out\<lparr>sink := emit (?h @ d) (sink out),
        crc32 := (if use_crc out then sparse_crc32 (crc32 out) d else crc32 out)\<rparr>)"
    using data_crc_run [of "out\<lparr>sink := emit (?h @ d) (sink out)\<rparr>" b data] f len zb
    by (simp add: A_def d_def n_def zl_def)
  have hd: "?h = enc_chunk_header \<lparr>chunk_type = CHUNK_TYPE_RAW, reserved1 = 0, chunk_sz = of_nat n,
     total_sz = 12 + of_nat (length d)\<rparr>"
    using w(2) ld(2) by simp
  have "write_sparse_data_chunk (bb_len b) data out =
      Some (0, out\<lparr>sink := emit (?h @ d) (sink out),
        crc32 := (if use_crc out then sparse_crc32 (crc32 out) d else crc32 out),
        cur_out_ptr := cur_out_ptr out + sint A, chunk_cnt := chunk_cnt out + 1\<rparr>)"
    unfolding write_sparse_data_chunk_def Let_def A_def [symmetric] zl_def [symmetric] w(1)
    using bs acc1(1) w3 crc by (cases "zl = 0") (simp_all add: out_write_all w1)
  then show ?thesis
    unfolding hd using w(3) by (simp add: put_chunk_def)
qed

definition writing :: "u32 \<Rightarrow> 'e output_file \<Rightarrow> bool" where
  "writing bs out \<longleftrightarrow> ops out = SPARSE_FILE_OPS \<and> out_block_size out = bs \<and>
     zero_buf out = replicate (unat bs) 0"

lemma writing_put_chunk [simp]: "writing bs (put_chunk c out) = writing bs out"
  by (simp add: writing_def)

lemma write_raw_run:
  assumes "writing bs out" "fits bs b" "unat (bb_len b) \<le> length data"
    and "c = Raw (nblks bs b) (take (unat (bb_len b)) data @
      replicate (unat bs * nblks bs b - unat (bb_len b)) 0)"
    and "accepts (length (enc_chunk c)) (sink out)"
  shows "write_data_chunk (bb_len b) data out = Some (0, put_chunk c out)"
  using assms write_sparse_data_chunk_run [of out b data]
  by (auto simp: write_data_chunk_def writing_def)

lemma sparse_file_write_block_run:
  assumes w: "writing bs out" and f: "fits bs (core b)" and ld: "load m a = Some b"
    and src: "src_bytes env (load_name m) (core b) \<noteq> None"
    and acc: "accepts (length (enc_chunk (chunk_of bs env (load_name m) (core b)))) (sink out)"
  shows "sparse_file_write_block env m a out =
    Some (0, put_chunk (chunk_of bs env (load_name m) (core b)) out)"
proof -
  let ?c = "chunk_of bs env (load_name m) (core b)"
  note fb = fits_bounds [OF f, simplified]
  have map_run: "write_fd_chunk (bb_len b) (Some c) off out = Some (0, put_chunk ?c out)"
    if "src_bytes env (load_name m) (core b) = window c off (unat (bb_len b))"
      "case bb_src b of Fill _ \<Rightarrow> False | _ \<Rightarrow> True" for c off
  proof -
    have win: "0 \<le> off" "nat off + unat (bb_len b) \<le> length (page_pad c)"
      "the (src_bytes env (load_name m) (core b)) = take (unat (bb_len b)) (drop (nat off) (page_pad c))"
      using that src by (auto simp: window_def split: if_splits)
    have "write_fd_chunk (bb_len b) (Some c) off out =
        write_data_chunk (bb_len b) (drop (nat off) (page_pad c)) out"
      using win(1) fb by (intro write_fd_chunk_window) (auto simp: unat_gt_0)
    also have "\<dots> = Some (0, put_chunk ?c out)"
      using write_raw_run [of bs out "core b" "drop (nat off) (page_pad c)" ?c] w f win acc that(2)
      by (simp add: chunk_of_def split: bb_union.splits)
    finally show ?thesis .
  qed
  show ?thesis
  proof (cases "bb_src b")
    case (Data d)
    then have "unat (bb_len b) \<le> length d"
      "?c = Raw (nblks bs (core b)) (take (unat (bb_len b)) d @
         replicate (unat bs * nblks bs (core b) - unat (bb_len b)) 0)"
      using src by (simp_all add: chunk_of_def src_bytes_def split: if_splits)
    then have "write_data_chunk (bb_len b) d out = Some (0, put_chunk ?c out)"
      using write_raw_run [of bs out "core b" d ?c] w f acc by simp
    then show ?thesis
      using ld Data by (simp add: sparse_file_write_block_def backed_block_type_of_def
          backed_block_len_def backed_block_data_def)
  next
    case (File n off)
    with src obtain p s c where "n = Some p" "load_name m p = Some s" "env_files env s = Some c"
      by (auto simp: src_bytes_def option_run)
    then show ?thesis
      using map_run [of c off] File ld
      by (simp add: sparse_file_write_block_def backed_block_type_of_def backed_block_len_def
          backed_block_filename_def backed_block_file_offset_def write_file_chunk_def src_bytes_def)
  next
    case (Fd fd off)
    with src obtain c where "env_fds env fd = Some c"
      by (auto simp: src_bytes_def option_run)
    then show ?thesis
      using map_run [of c off] Fd ld
      by (simp add: sparse_file_write_block_def backed_block_type_of_def backed_block_len_def
          backed_block_fd_def backed_block_file_offset_def src_bytes_def)
  next
    case (Fill v)
    then show ?thesis
      using write_sparse_fill_chunk_run [of out "core b" v] w f acc ld
      by (simp add: sparse_file_write_block_def backed_block_type_of_def backed_block_len_def
          backed_block_fill_val_def chunk_of_def write_fill_chunk_def writing_def)
  qed
qed

abbreviation put_chunks :: "sp_chunk list \<Rightarrow> 'e output_file \<Rightarrow> 'e output_file" where
  "put_chunks cs out \<equiv> fold put_chunk cs out"

lemma writing_put_chunks [simp]: "writing bs (put_chunks cs out) = writing bs out"
  by (induction cs arbitrary: out) simp_all

lemma sink_put_chunks: "cs \<noteq> [] \<Longrightarrow> sink (put_chunks cs out) = emit (enc_chunks cs) (sink out)"
proof (induction cs arbitrary: out)
  case (Cons c cs)
  then show ?case
    by (cases cs) (simp_all add: enc_chunks_def emit_emit)
qed simp

lemma accepts_put_chunks:
  "accepts (length (enc_chunks cs) + n) (sink out) \<Longrightarrow> accepts n (sink (put_chunks cs out))"
  by (cases "cs = []") (simp_all add: sink_put_chunks accepts_emit, simp add: enc_chunks_def)

lemma write_gap_run:
  assumes w: "writing bs out" and "bs \<noteq> 0" and acc: "accepts (length (enc_chunks (gap l n))) (sink out)"
    and l: "l < n"
  shows "write_skip_chunk (int (n - l) * uint bs) out = Some (0, put_chunks (gap l n) out)"
  using assms write_sparse_skip_chunk_run [of out "n - l"]
  by (simp add: write_skip_chunk_def writing_def gap_def enc_chunks_def)

lemma write_blocks_from_run:
  assumes "chain (load m) p as None" "placed bs tot l (bbs (load m) as)" "tot < 2 ^ 32"
    and "\<forall>x \<in> set (bbs (load m) as). src_bytes env (load_name m) x \<noteq> None" "writing bs out"
    and "accepts (length (enc_chunks (body bs (chunk_of bs env (load_name m)) l (bbs (load m) as))))
      (sink out)"
  shows "write_blocks_from env m bs p (of_nat l) out =
    Some (0, of_nat (blocks_end bs l (bbs (load m) as)),
      put_chunks (body bs (chunk_of bs env (load_name m)) l (bbs (load m) as)) out)"
  using assms
proof (induction as arbitrary: p l out)
  case Nil
  then show ?case by (simp add: write_blocks_from.simps)
next
  case (Cons a as)
  then obtain b where b: "p = Some a" "load m a = Some b" "chain (load m) (bb_next b) as None"
    by auto
  let ?f = "chunk_of bs env (load_name m)" and ?n = "unat (bb_block b)"
  let ?e = "?n + nblks bs (core b)" and ?xs = "bbs (load m) as"
  have pl: "fits bs (core b)" "l \<le> ?n" "placed bs tot ?e ?xs"
    using Cons.prems(2) b(2) by simp_all
  have bs: "bs \<noteq> 0"
    using pl(1) by (simp add: fits_def)
  let ?g = "put_chunks (gap l ?n) out"
  have acc: "accepts (length (enc_chunks (gap l ?n)) + (length (enc_chunk (?f (core b))) +
      length (enc_chunks (body bs ?f ?e ?xs)))) (sink out)"
    using Cons.prems(6) b(2) by (simp add: enc_chunks_def)
  have acc_g: "accepts (length (enc_chunk (?f (core b))) + length (enc_chunks (body bs ?f ?e ?xs)))
      (sink ?g)"
    using acc by (rule accepts_put_chunks)
  have gp: "(if bb_block b > of_nat l
      then do { (_, out) \<leftarrow> write_skip_chunk (uint (bb_block b - of_nat l) * uint bs) out; Some out }
      else Some out) = Some ?g"
  proof (cases "l < ?n")
    case True
    have "accepts (length (enc_chunks (gap l ?n))) (sink out)"
      using acc by (rule accepts_mono) simp
    then show ?thesis
      using True write_gap_run [OF Cons.prems(5) bs _ True] pl(2) Cons.prems(3)
        placed_le [OF pl(3)] uint_gap [OF pl(2)] by (simp add: of_nat_less_u32)
  next
    case False
    then show ?thesis
      using Cons.prems(3) pl(2) placed_le [OF pl(3)] by (simp add: of_nat_less_u32 gap_def)
  qed
  have blk: "sparse_file_write_block env m a ?g = Some (0, put_chunk (?f (core b)) ?g)"
    using Cons.prems(4,5) pl(1) b(2) accepts_mono [OF acc_g]
    by (intro sparse_file_write_block_run) auto
  have "write_blocks_from env m bs (bb_next b) (of_nat ?e) (put_chunk (?f (core b)) ?g) =
      Some (0, of_nat (blocks_end bs ?e ?xs), put_chunks (body bs ?f ?e ?xs) (put_chunk (?f (core b)) ?g))"
    using Cons.IH [OF b(3) pl(3) Cons.prems(3)] Cons.prems(4,5) accepts_emit [OF acc_g] by simp
  then show ?case
    using b bs gp blk block_end_fits [OF pl(1)]
    by (simp add: write_blocks_from.simps [of env m bs "Some a"])
qed

lemma write_all_blocks_run:
  assumes wr: "writable env m s" and w: "writing (sf_block_size s) out"
    and acc: "accepts (length (enc_chunks (chunks_of env m s))) (sink out)"
  shows "write_all_blocks env s m out = Some (0, put_chunks (chunks_of env m s) out)"
proof -
  let ?bs = "sf_block_size s" and ?t = "total_of s" and ?f = "chunk_of (sf_block_size s) env (load_name m)"
  let ?b = "body ?bs ?f 0 (blocks_of m s)" and ?e = "blocks_end ?bs 0 (blocks_of m s)"
  obtain as where as: "chain (load m) (data_blocks (sf_blocks s)) as None"
    "blocks_of m s = bbs (load m) as"
    using writableE [OF wr] .
  have pl: "?bs \<noteq> 0" "placed ?bs ?t 0 (blocks_of m s)" "?t < 2 ^ 32"
    and src: "\<forall>x \<in> set (blocks_of m s). src_bytes env (load_name m) x \<noteq> None"
    using wr by (simp_all add: writable_def)
  have acc': "accepts (length (enc_chunks ?b) + length (enc_chunks (gap ?e ?t))) (sink out)"
    using acc by (simp add: chunks_of_def layout_def enc_chunks_def)
  have run: "write_blocks_from env m ?bs (data_blocks (sf_blocks s)) 0 out =
      Some (0, of_nat ?e, put_chunks ?b out)"
    using write_blocks_from_run [OF as(1) pl(2) [unfolded as(2)] pl(3) src [unfolded as(2)] w]
      accepts_mono [OF acc'] as(2) by simp
  have e: "?e \<le> ?t"
    using pl(2) by (rule placed_end)
  then have "uint (of_nat ?e :: u32) = int ?e"
    using pl(3) by (simp only: uint_nat unat_of_nat_u32)
  then have pad: "sf_len s - uint (of_nat ?e :: u32) * uint ?bs = int (?t - ?e) * uint ?bs"
    using writable_len [OF wr] e by (simp add: of_nat_diff algebra_simps)
  have gp: "write_skip_chunk (int (?t - ?e) * uint ?bs) (put_chunks ?b out) =
      Some (0, put_chunks (gap ?e ?t) (put_chunks ?b out))" if "?e < ?t"
    using write_gap_run [of ?bs "put_chunks ?b out" ?e ?t] w pl(1) that accepts_put_chunks [OF acc']
    by simp
  show ?thesis
  proof (cases "?e < ?t")
    case True
    then have pos: "0 < int (?t - ?e) * uint ?bs"
      using uint_pos [OF pl(1)] by simp
    then have "uint (of_nat ?e :: u32) * uint ?bs < sf_len s"
      using pad by linarith
    then show ?thesis
      using run gp [OF True] pos
      by (simp add: write_all_blocks_def backed_block_iter_new_def pad chunks_of_def layout_def Let_def
          del: of_nat_diff)
  next
    case False
    then have "sf_len s = uint (of_nat ?e :: u32) * uint ?bs"
      using pad by simp
    then show ?thesis
      using run False by (simp add: write_all_blocks_def backed_block_iter_new_def chunks_of_def
          layout_def gap_def)
  qed
qed

lemma crc_put_chunks: "use_crc out \<Longrightarrow>
    crc32 (put_chunks cs out) = fold (chunk_crc (out_block_size out)) cs (crc32 out)"
  by (induction cs arbitrary: out) (simp_all add: put_chunk_def)

lemma cfg_put_chunks [simp]:
  "ops (put_chunks cs out) = ops out" "use_crc (put_chunks cs out) = use_crc out"
  by (induction cs arbitrary: out) simp_all

lemma output_file_close_run:
  assumes "ops out = SPARSE_FILE_OPS"
    and "accepts (length (if use_crc out then crc_chunk (crc32 out) else [])) (sink out)"
  shows "output_file_close out =
    Some (if use_crc out then emit (crc_chunk (crc32 out)) (sink out) else sink out)"
proof (cases "use_crc out")
  case True
  let ?h = "enc_chunk_header \<lparr>chunk_type = CHUNK_TYPE_CRC32, reserved1 = 0, chunk_sz = 0,
     total_sz = 16\<rparr>"
  have "accepts 16 (sink out)"
    using assms(2) True by (simp add: crc_chunk_eq)
  then have "accepts 12 (sink out)" "accepts 4 (emit ?h (sink out))"
    using accepts_emit [of ?h 4 "sink out"] by (auto intro: accepts_mono)
  then show ?thesis
    using assms(1) True by (simp add: output_file_close_def write_end_chunk_def
        write_sparse_end_chunk_def out_write_all emit_emit crc_chunk_eq)
next
  case False
  then show ?thesis
    using assms(1) by (simp add: output_file_close_def write_end_chunk_def write_sparse_end_chunk_def)
qed

lemma output_file_open_run:
  assumes bs: "bs \<noteq> 0" "unat bs < 2 ^ 31" and len: "len = int tot * uint bs" and av: "2 < av"
    and acc: "accepts 28 snk"
  shows "\<exists>out. output_file_open snk bs len True (of_nat k) crc av = Some (Inr out, av - 3) \<and>
    writing bs out \<and> use_crc out = crc \<and> crc32 out = 0 \<and>
    sink out = emit (enc_sparse_header (file_header bs tot (if crc then k + 1 else k))) snk"
proof -
  have "len sdiv uint bs = int tot"
    using uint_pos [OF bs(1)] len sdiv_nonneg [of len "uint bs"] by simp
  then show ?thesis
    using assms by (auto simp: output_file_open_def output_file_init_def Let_def out_write_all writing_def
        file_header_def add.commute)
qed

lemma out_block_size_writing: "writing bs out \<Longrightarrow> out_block_size out = bs"
  by (simp add: writing_def)

theorem emit_image:
  assumes wr: "writable env m s" and av: "2 < avail m"
    and acc: "accepts (length (image_of env crc m s)) snk"
    and k: "sparse_count_chunks s m = Some k"
  shows "sparse_file_emit env s m
      (output_file_open snk (sf_block_size s) (sf_len s) True k crc (avail m)) =
    Some (0, emit (image_of env crc m s) snk)"
proof -
  let ?bs = "sf_block_size s" and ?cs = "chunks_of env m s"
  let ?h = "enc_sparse_header (file_header ?bs (total_of s) (if crc then length ?cs + 1 else length ?cs))"
  let ?c = "if crc then crc_chunk (written_crc ?bs ?cs) else []"
  have k: "k = of_nat (length ?cs)"
    using k sparse_count_chunks_run [OF wr] by simp
  have bs: "?bs \<noteq> 0" "unat ?bs < 2 ^ 31"
    using wr by (simp_all add: writable_def)
  have acc': "accepts (length ?h + (length (enc_chunks ?cs) + length ?c)) snk"
    using acc by (simp add: image_of_def sparse_image_eq)
  obtain out where out: "output_file_open snk ?bs (sf_len s) True k crc (avail m) =
      Some (Inr out, avail m - 3)" "writing ?bs out" "use_crc out = crc" "crc32 out = 0"
      "sink out = emit ?h snk"
    using output_file_open_run [OF bs writable_len [OF wr] av, of snk "length ?cs" crc]
      accepts_mono [OF acc', of 28] k by auto
  have acc1: "accepts (length (enc_chunks ?cs) + length ?c) (sink out)"
    unfolding out(5) using acc' by (rule accepts_emit)
  have run: "write_all_blocks env s m out = Some (0, put_chunks ?cs out)"
    using accepts_mono [OF acc1] by (intro write_all_blocks_run [OF wr out(2)]) simp
  let ?out = "put_chunks ?cs out"
  have fin: "ops ?out = SPARSE_FILE_OPS" "use_crc ?out = crc"
      "crc \<Longrightarrow> crc32 ?out = written_crc ?bs ?cs"
    using out crc_put_chunks [of out ?cs] by (simp_all add: writing_def written_crc_fold)
  have snk: "sink ?out = emit (?h @ enc_chunks ?cs) snk"
    by (cases "?cs = []") (simp_all add: sink_put_chunks out(5) emit_emit enc_chunks_def)
  have "output_file_close ?out = Some (if crc then emit ?c (sink ?out) else sink ?out)"
    using output_file_close_run [OF fin(1)] fin accepts_put_chunks [OF acc1] by (simp split: if_splits)
  then show ?thesis
    using out(1) run
    by (simp add: sparse_file_emit_def snk emit_emit image_of_def sparse_image_eq)
qed

end

section \<open>The two backends\<close>

text \<open>A file positioned at its end, on a device with room.\<close>

fun file_emit :: "byte list \<Rightarrow> 'e sink \<Rightarrow> 'e sink" where
  "file_emit d (NormalSink f) = NormalSink (f\<lparr>contents := contents f @ d, pos := pos f + length d\<rparr>)"
| "file_emit d s = s"

fun file_accepts :: "nat \<Rightarrow> 'e sink \<Rightarrow> bool" where
  "file_accepts n (NormalSink f) \<longleftrightarrow> pos f = length (contents f) \<and> pos f + n \<le> cap f"
| "file_accepts n s \<longleftrightarrow> False"

interpretation file_sink: byte_sink file_emit file_accepts
proof unfold_locales
  fix d r :: "byte list" and s :: "'e sink"
  assume "file_accepts (length d) s"
  then show "ops_write (d @ r) (int (length d)) s = Some (0, file_emit d s)"
    by (cases s) (auto simp: file_write_def posix_write_def put_bytes_def Let_def)
next
  fix d :: "byte list" and n and s :: "'e sink"
  assume "file_accepts (length d + n) s"
  then show "file_accepts n (file_emit d s)"
    by (cases s) auto
next
  fix n k and s :: "'e sink"
  assume "file_accepts n s" "k \<le> n"
  then show "file_accepts k s"
    by (cases s) auto
next
  fix a b :: "byte list" and s :: "'e sink"
  show "file_emit b (file_emit a s) = file_emit (a @ b) s"
    by (cases s) auto
qed

text \<open>The counting callback.\<close>

fun count_emit :: "byte list \<Rightarrow> int sink \<Rightarrow> int sink" where
  "count_emit d (CallbackSink wr c) = CallbackSink wr (c + int (length d))"
| "count_emit d s = s"

definition counting :: "nat \<Rightarrow> int sink \<Rightarrow> bool" where
  "counting n s \<longleftrightarrow> (\<exists>c. s = CallbackSink out_counter_write c)"

interpretation count_sink: byte_sink count_emit counting
proof unfold_locales
  fix a b and s :: "int sink"
  show "count_emit b (count_emit a s) = count_emit (a @ b) s"
    by (cases s) auto
qed (auto simp: counting_def callback_file_write_def out_counter_write_def)

section \<open>An example\<close>

text \<open>
  Five blocks of eight bytes: five bytes of data in block 0, a fill of two blocks at block 2;
  blocks 1 and 4 are don't-care.
\<close>

definition ex_mem :: bb_mem where
  "ex_mem = \<lparr>cells = [Some \<lparr>bb_block = 0, bb_len = 5, bb_src = Data [1, 2, 3, 4, 5], bb_next = Some 1\<rparr>,
       Some \<lparr>bb_block = 2, bb_len = 16, bb_src = Fill 7, bb_next = None\<rparr>],
     names = [], avail = 20\<rparr>"

definition ex_sparse :: sparse_file where
  "ex_sparse = \<lparr>sf_block_size = 8, sf_len = 40, sf_verbose = False,
     sf_blocks = \<lparr>data_blocks = Some 0, last_used = None, block_size = 8\<rparr>\<rparr>"

definition ex_env :: io_env where
  "ex_env = \<lparr>env_fds = \<lambda>_. None, env_files = \<lambda>_. None\<rparr>"

definition ex_file :: posix_file where
  "ex_file = \<lparr>contents = [], pos = 0, cap = 1000, rd_max = 7, io_error = None\<rparr>"

lemma ex_blocks: "blocks_of ex_mem ex_sparse =
   [\<lparr>bb_block = 0, bb_len = 5, bb_src = Data [1, 2, 3, 4, 5]\<rparr>,
    \<lparr>bb_block = 2, bb_len = 16, bb_src = Fill 7\<rparr>]"
  by (simp add: blocks_of_def queue_view_def ex_sparse_def ex_mem_def load_def core_def
      bb_core.truncate_def)

lemma ex_chunks: "chunks_of ex_env ex_mem ex_sparse =
   [Raw 1 [1, 2, 3, 4, 5, 0, 0, 0], DontCare 1, Filled 2 7, DontCare 1]"
  unfolding chunks_of_def ex_blocks
  by (simp add: layout_def gap_def nblks_def chunk_of_def src_bytes_def total_of_def ex_sparse_def
      numeral_3_eq_3)

lemma ex_writable: "writable ex_env ex_mem ex_sparse"
  unfolding writable_def ex_blocks
  by (simp add: total_of_def fits_def nblks_def src_bytes_def ex_sparse_def ex_mem_def load_def)

lemma ex_image_length: "length (image_of ex_env crc ex_mem ex_sparse) = (if crc then 104 else 88)"
  by (simp add: image_of_def sparse_image_eq ex_chunks enc_chunks_def crc_chunk_eq)

lemma ex_sel: "avail ex_mem = 20" "contents ex_file = []" "pos ex_file = 0" "cap ex_file = 1000"
  "readable ex_file" "sf_block_size ex_sparse = 8" "sf_len ex_sparse = 40"
  by (simp_all add: ex_mem_def ex_file_def ex_sparse_def readable_def)

section \<open>What is written\<close>

lemma sparse_file_emit_0:
  assumes "sparse_file_emit env s m opened = Some (0, snk)"
  shows "\<exists>out av out'. opened = Some (Inr out, av) \<and> write_all_blocks env s m out = Some (0, out') \<and>
    output_file_close out' = Some snk"
proof -
  from assms obtain r av where o: "opened = Some (r, av)"
    by (auto simp: sparse_file_emit_def option_run)
  then show ?thesis
    using assms by (cases r) (auto simp: sparse_file_emit_def option_run)
qed

text \<open>
  C2: \<^verbatim>\<open>sparse_file_write\<close> of a well-placed sparse file, to a file positioned at its end on a device
  with room, returns 0 and appends exactly the sparse image of the pending blocks: the file
  header with a zero checksum field, one chunk per block and per gap in block order, padded up
  to the block size, and, when a checksum is asked for, a checksum chunk.  Its value is the
  CRC-32 of the data chunks and of one block of every fill chunk; gaps and the other blocks of
  a fill are not counted.
\<close>

theorem sparse_file_write_image:
  assumes "writable env m s" "2 < avail m" "pos f = length (contents f)"
    and "pos f + length (image_of env crc m s) \<le> cap f"
  shows "sparse_file_write env s f None True crc m =
    Some (0, NormalSink (f\<lparr>contents := contents f @ image_of env crc m s,
      pos := pos f + length (image_of env crc m s)\<rparr>))"
  using file_sink.emit_image [OF assms(1,2) _ sparse_count_chunks_run [OF assms(1)],
      of crc "NormalSink f"] assms(3,4) sparse_count_chunks_run [OF assms(1)]
  by (simp add: sparse_file_write_def output_file_open_fd_def)

theorem sparse_file_write_image_witness:
  "writable ex_env ex_mem ex_sparse \<and>
   sparse_file_write ex_env ex_sparse ex_file (None :: (unit gz_ops \<times> unit) option) True True ex_mem =
     Some (0, NormalSink (ex_file\<lparr>contents := image_of ex_env True ex_mem ex_sparse, pos := 104\<rparr>))"
  using sparse_file_write_image [OF ex_writable, of ex_file True] ex_writable
  by (simp add: ex_image_length ex_sel)

text \<open>
  C10: \<^verbatim>\<open>sparse_file_len\<close> of a well-placed sparse file is exactly the number of bytes its sparse
  image has, although no byte is written to obtain it.
\<close>

theorem sparse_file_length_exact:
  assumes "writable env m s" "2 < avail m"
  shows "sparse_file_length env s True crc m = Some (int (length (image_of env crc m s)))"
proof -
  have "sparse_file_emit env s m (output_file_open (CallbackSink out_counter_write 0)
      (sf_block_size s) (sf_len s) True (of_nat (length (chunks_of env m s))) crc (avail m)) =
    Some (0, CallbackSink out_counter_write (int (length (image_of env crc m s))))"
    using count_sink.emit_image [OF assms _ sparse_count_chunks_run [OF assms(1)],
        of crc "CallbackSink out_counter_write 0"]
    by (simp add: counting_def)
  then obtain out av out' where "output_file_open (CallbackSink out_counter_write 0)
      (sf_block_size s) (sf_len s) True (of_nat (length (chunks_of env m s))) crc (avail m) =
      Some (Inr out, av)" "write_all_blocks env s m out = Some (0, out')"
    "output_file_close out' =
      Some (CallbackSink out_counter_write (int (length (image_of env crc m s))))"
    using sparse_file_emit_0 by blast
  then show ?thesis
    using sparse_count_chunks_run [OF assms(1)]
    by (simp add: sparse_file_length_def output_file_open_callback_def)
qed

theorem sparse_file_length_exact_witness:
  "writable ex_env ex_mem ex_sparse \<and> sparse_file_length ex_env ex_sparse True False ex_mem = Some 88"
  using sparse_file_length_exact [OF ex_writable, of False] ex_writable
  by (simp add: ex_image_length ex_sel)

end
