(* ===== verification/Sparse_Reader.thy ===== *)
theory Sparse_Reader
  imports Sparse_Writer
begin

text \<open>
  The reader of \<^verbatim>\<open>sparse_read.c\<close> understands the format of \<^verbatim>\<open>Sparse_Format\<close>: importing an image
  queues one block per chunk that carries data, at the place in the file where the data lie,
  and computes the checksum of the whole contents.  With what \<^verbatim>\<open>Sparse_Writer\<close> shows this gives
  the round trip.
\<close>

section \<open>The checksum loops\<close>

lemma raw_crc_loop_run:
  assumes "readable f" "len \<le> length (rest f)"
  shows "raw_crc_loop len f crc = (0, advance len f, sparse_crc32 crc (take len (rest f)))"
  using assms
proof (induction len f crc rule: raw_crc_loop.induct)
  case (1 len f crc)
  show ?case
  proof (cases "len = 0")
    case True
    then show ?thesis by (simp add: raw_crc_loop.simps sparse_crc32_Nil)
  next
    case False
    let ?k = "min len (1024 * 1024)"
    have rd: "read_all ?k f = (Inr (take ?k (rest f)), advance ?k f)"
      using "1.prems" by (intro read_all_ok) auto
    have "raw_crc_loop (len - ?k) (advance ?k f) (sparse_crc32 crc (take ?k (rest f))) =
        (0, advance (len - ?k) (advance ?k f), sparse_crc32 (sparse_crc32 crc (take ?k (rest f)))
          (take (len - ?k) (rest (advance ?k f))))"
      using "1.IH" [OF False refl rd [symmetric] refl] "1.prems" by (simp add: diff_le_mono)
    also have "sparse_crc32 (sparse_crc32 crc (take ?k (rest f))) (take (len - ?k) (rest (advance ?k f))) =
        sparse_crc32 crc (take len (rest f))"
      by (simp add: sparse_crc32_append [symmetric] take_add [symmetric])
    finally show ?thesis
      using False rd by (simp add: raw_crc_loop.simps [of len])
  qed
qed

lemma diff_mod_4: "4 * k \<le> i \<Longrightarrow> (i - 4 * k) mod 4 = i mod (4 :: nat)"
  using mod_mult_self2 [of "i - 4 * k" 4 k] by simp

lemma length_fill_bytes [simp]: "length (fill_bytes v n) = n"
  by (simp add: fill_bytes_def)

lemma nth_fill_bytes: "i < n \<Longrightarrow> fill_bytes v n ! i = le32 v ! (i mod 4)"
  by (simp add: fill_bytes_def)

lemma fill_bytes_0 [simp]: "fill_bytes v 0 = []"
  by (simp add: fill_bytes_def)

lemma fill_bytes_add:
  assumes "4 dvd a"
  shows "fill_bytes v (a + b) = fill_bytes v a @ fill_bytes v b"
proof (rule nth_equalityI)
  fix i assume i: "i < length (fill_bytes v (a + b))"
  moreover have "(i - a) mod 4 = i mod 4" if "a \<le> i"
    using assms diff_mod_4 [of _ i] that by (auto elim!: dvdE)
  moreover have "i - a < b" if "a \<le> i"
    using i that by simp
  ultimately show "fill_bytes v (a + b) ! i = (fill_bytes v a @ fill_bytes v b) ! i"
    by (cases "i < a") (simp_all add: nth_fill_bytes nth_append)
qed simp

lemma fill_bytes_split:
  assumes "0 \<le> c" "4 dvd nat c"
  shows "fill_bytes v (nat len) =
    fill_bytes v (nat (min len c)) @ fill_bytes v (nat (len - min len c))"
proof (cases "len \<le> c")
  case False
  then have "nat len = nat c + nat (len - c)"
    using assms(1) by simp
  then have "fill_bytes v (nat len) = fill_bytes v (nat c) @ fill_bytes v (nat (len - c))"
    by (simp only: fill_bytes_add [OF assms(2)])
  with False show ?thesis
    by (simp add: min_def)
qed (simp add: min_def)

lemma buf_crc_loop_run:
  assumes "0 \<le> len"
  shows "buf_crc_loop v len crc = sparse_crc32 crc (fill_bytes v (nat len))"
  using assms
proof (induction v len crc rule: buf_crc_loop.induct)
  case (1 v len crc)
  let ?k = "min len COPY_BUF_SIZE"
  show ?case
  proof (cases "len = 0")
    case True
    then show ?thesis
      by (simp add: buf_crc_loop.simps [of v 0] sparse_crc32_Nil)
  next
    case False
    then have pos: "\<not> len \<le> 0"
      using "1.prems" by simp
    have "buf_crc_loop v (len - ?k) (sparse_crc32 crc (fill_bytes v (nat ?k))) =
        sparse_crc32 (sparse_crc32 crc (fill_bytes v (nat ?k))) (fill_bytes v (nat (len - ?k)))"
      using "1.IH" [OF pos refl] by simp
    also have "\<dots> = sparse_crc32 crc (fill_bytes v (nat len))"
      by (subst (3) fill_bytes_split [of COPY_BUF_SIZE]) (simp_all add: sparse_crc32_append)
    finally show ?thesis
      using pos by (simp add: buf_crc_loop.simps [of v len] Let_def)
  qed
qed

lemma buf_crc_loop_nat: "buf_crc_loop v (int n) = (\<lambda>z. sparse_crc32 z (fill_bytes v n))"
  using buf_crc_loop_run [of "int n"] by (simp add: fun_eq_iff)

section \<open>The blocks an image is read as\<close>

text \<open>\<open>l\<close> is the current block, \<open>o\<close> the position of the next chunk in the file.\<close>

fun chunk_block :: "u32 \<Rightarrow> int \<Rightarrow> nat \<Rightarrow> nat \<Rightarrow> sp_chunk \<Rightarrow> bb_core list" where
  "chunk_block bs fd l p (Raw n d) =
     [\<lparr>bb_block = of_nat l, bb_len = of_nat (length d), bb_src = Fd fd (int (p + 12))\<rparr>]"
| "chunk_block bs fd l p (Filled n v) =
     [\<lparr>bb_block = of_nat l, bb_len = of_nat (n * unat bs), bb_src = Fill v\<rparr>]"
| "chunk_block bs fd l p (DontCare n) = []"

primrec readback :: "u32 \<Rightarrow> int \<Rightarrow> nat \<Rightarrow> nat \<Rightarrow> sp_chunk list \<Rightarrow> bb_core list" where
  "readback bs fd l p [] = []"
| "readback bs fd l p (c # cs) = chunk_block bs fd l p c @
     readback bs fd (l + chunk_blocks c) (p + length (enc_chunk c)) cs"

definition blocks_sum :: "sp_chunk list \<Rightarrow> nat" where
  "blocks_sum cs = sum_list (map chunk_blocks cs)"

text \<open>A chunk as the format wants it: some blocks, and as many data as they hold.\<close>

definition good_chunk :: "u32 \<Rightarrow> sp_chunk \<Rightarrow> bool" where
  "good_chunk bs c \<longleftrightarrow> 0 < chunk_blocks c \<and> (case c of
       Raw n d \<Rightarrow> length d = n * unat bs \<and> n * unat bs < 2 ^ 32
     | Filled n v \<Rightarrow> n * unat bs < 2 ^ 32
     | DontCare n \<Rightarrow> True)"

text \<open>No two fills of the same value are neighbours.\<close>

fun same_fill :: "sp_chunk \<Rightarrow> sp_chunk \<Rightarrow> bool" where
  "same_fill (Filled _ v) (Filled _ w) = (v = w)"
| "same_fill _ _ = False"

abbreviation fills_apart :: "sp_chunk list \<Rightarrow> bool" where
  "fills_apart \<equiv> successively (\<lambda>a b. \<not> same_fill a b)"

lemma blocks_sum_simps [simp]:
  "blocks_sum [] = 0" "blocks_sum (c # cs) = chunk_blocks c + blocks_sum cs"
  by (simp_all add: blocks_sum_def)

lemma readback_bounds:
  assumes "x \<in> set (readback bs fd l p cs)" "\<forall>c \<in> set cs. good_chunk bs c"
    and "l + blocks_sum cs < 2 ^ 32"
  shows "l \<le> unat (bb_block x) \<and> unat (bb_block x) < l + blocks_sum cs \<and>
    src_name (bb_src x) = []"
  using assms
proof (induction cs arbitrary: l p)
  case (Cons c cs)
  have g: "0 < chunk_blocks c"
    using Cons.prems(2) by (simp add: good_chunk_def)
  show ?case
  proof (cases "x \<in> set (chunk_block bs fd l p c)")
    case True
    then have "unat (bb_block x) = l" "src_name (bb_src x) = []"
      using Cons.prems(3) unat_of_nat_u32 [of l] by (cases c; simp)+
    then show ?thesis
      using g by simp
  next
    case False
    then show ?thesis
      using Cons.IH [of "l + chunk_blocks c" "p + length (enc_chunk c)"] Cons.prems
      by (simp add: add.assoc)
  qed
qed simp

lemma readback_ascending:
  assumes "\<forall>c \<in> set cs. good_chunk bs c" "l + blocks_sum cs < 2 ^ 32"
  shows "ascending (readback bs fd l p cs)"
  using assms
proof (induction cs arbitrary: l p)
  case (Cons c cs)
  have g: "0 < chunk_blocks c"
    using Cons.prems(1) by (simp add: good_chunk_def)
  have "bb_block y < bb_block x" if "y \<in> set (chunk_block bs fd l p c)"
    "x \<in> set (readback bs fd (l + chunk_blocks c) (p + length (enc_chunk c)) cs)" for x y
  proof -
    have "unat (bb_block y) = l"
      using that(1) Cons.prems(2) unat_of_nat_u32 [of l] by (cases c) simp_all
    moreover have "l + chunk_blocks c \<le> unat (bb_block x)"
      using readback_bounds [OF that(2)] Cons.prems by (simp add: add.assoc)
    ultimately show ?thesis
      using g by (simp add: word_less_nat_alt)
  qed
  moreover have "ascending (chunk_block bs fd l p c)"
    by (cases c) simp_all
  moreover have "ascending (readback bs fd (l + chunk_blocks c) (p + length (enc_chunk c)) cs)"
    using Cons.IH Cons.prems by (simp add: add.assoc)
  ultimately show ?case
    by (simp add: sorted_wrt_append)
qed simp

lemma readback_unshared:
  assumes "\<forall>c \<in> set cs. good_chunk bs c" "l + blocks_sum cs < 2 ^ 32"
  shows "unshared (readback bs fd l p cs)"
proof -
  have "concat (map (src_name \<circ> bb_src) (readback bs fd l p cs)) = []"
    using readback_bounds [OF _ assms] by (simp add: concat_eq_Nil_conv)
  then show ?thesis
    unfolding unshared_def by (simp only: distinct.simps)
qed

text \<open>What the reader queues for a chunk does not continue what it queued before.\<close>

lemma chunk_block_apart:
  assumes c: "good_chunk bs c" "x \<in> set (chunk_block bs fd l p c)" and bs: "bs \<noteq> 0"
    and cs: "\<forall>c \<in> set cs. good_chunk bs c" "l + chunk_blocks c + blocks_sum cs < 2 ^ 32"
    and ap: "fills_apart (c # cs)"
    and y: "readback bs fd (l + chunk_blocks c) (p + length (enc_chunk c)) cs = y # ys"
  shows "\<not> can_merge bs x y"
proof -
  have n: "0 < unat bs" "chunk_blocks c * unat bs < 2 ^ 32 \<or> (\<exists>n. c = DontCare n)"
    using c(1) bs by (auto simp: good_chunk_def unat_gt_0 split: sp_chunk.splits)
  have x: "bb_block x = of_nat l" "bb_len x = of_nat (chunk_blocks c * unat bs)"
    using c by (cases c; simp add: good_chunk_def)+
  then have lx: "unat (bb_len x) = chunk_blocks c * unat bs"
    using n c(2) unat_of_nat_u32 [of "chunk_blocks c * unat bs"] by (cases c) simp_all
  then have ux: "uint (bb_len x) = int (chunk_blocks c * unat bs)"
    by (simp only: uint_nat)
  have "unat (bb_len x div bs) = chunk_blocks c"
    using lx n by (simp add: unat_div_distrib)
  then have ex: "bb_block x + bb_len x div bs = of_nat (l + chunk_blocks c)"
    using x(1) word_of_unat by fastforce
  obtain c' cs' where cs': "cs = c' # cs'"
    using y by (cases cs) auto
  show ?thesis
  proof (cases "chunk_block bs fd (l + chunk_blocks c) (p + length (enc_chunk c)) c'")
    case Nil
    then obtain k where k: "c' = DontCare k" "0 < k"
      using cs(1) cs' by (cases c') (auto simp: good_chunk_def)
    then have "l + chunk_blocks c + k \<le> unat (bb_block y)"
      using readback_bounds [of y bs fd "l + chunk_blocks c + k" "p + length (enc_chunk c) + 12" cs'] y cs cs'
      by (simp add: add.assoc)
    then have "bb_block y \<noteq> of_nat (l + chunk_blocks c)"
      using k cs(2) unat_of_nat_u32 [of "l + chunk_blocks c"] by auto
    then show ?thesis
      using ex by (simp add: can_merge_def)
  next
    case (Cons z zs)
    then have "y = z"
      using y cs' by simp
    then show ?thesis
      using Cons c ap cs' ux
      by (cases c; cases c') (auto simp: can_merge_def good_chunk_def)
  qed
qed

lemma readback_apart:
  assumes "\<forall>c \<in> set cs. good_chunk bs c" "l + blocks_sum cs < 2 ^ 32" "bs \<noteq> 0" "fills_apart cs"
  shows "successively (\<lambda>a b. \<not> can_merge bs a b) (readback bs fd l p cs)"
  using assms
proof (induction cs arbitrary: l p)
  case (Cons c cs)
  let ?r = "readback bs fd (l + chunk_blocks c) (p + length (enc_chunk c)) cs"
  have "fills_apart cs"
    using Cons.prems(4) by (cases cs) simp_all
  then have r: "successively (\<lambda>a b. \<not> can_merge bs a b) ?r"
    using Cons.IH Cons.prems by (simp add: add.assoc)
  show ?case
  proof (cases "chunk_block bs fd l p c = [] \<or> ?r = []")
    case True
    then show ?thesis
      using r by (cases c) auto
  next
    case False
    then obtain x where x: "chunk_block bs fd l p c = [x]"
      by (cases c) simp_all
    then have "\<not> can_merge bs x (hd ?r)"
      using chunk_block_apart [of bs c x fd l p cs "hd ?r" "tl ?r"] Cons.prems False
      by (simp add: add.assoc)
    then show ?thesis
      using r x by (simp add: successively_Cons)
  qed
qed simp

section \<open>Reading chunks\<close>

text \<open>The reader holds a good list of the blocks \<open>xs\<close> and room for \<open>k\<close> more.\<close>

definition rd_inv :: "u32 \<Rightarrow> nat \<Rightarrow> bb_core list \<Rightarrow> reader \<Rightarrow> bool" where
  "rd_inv bs k xs r \<longleftrightarrow> sf_block_size (rd_sparse r) = bs \<and> block_size (sf_blocks (rd_sparse r)) = bs \<and>
     queue_ok (rd_mem r) (sf_blocks (rd_sparse r)) \<and> blocks_of (rd_mem r) (rd_sparse r) = xs \<and>
     k \<le> avail (rd_mem r)"

text \<open>The part of the state the chunk loop leaves alone.\<close>

definition rd_frame :: "reader \<Rightarrow> int \<times> bool \<times> string option list" where
  "rd_frame r = (sf_len (rd_sparse r), sf_verbose (rd_sparse r), names (rd_mem r))"

lemma add_cell_behind:
  assumes "rd_inv bs (Suc k) xs r" "\<forall>x \<in> set xs. bb_block x < bb_block n"
    and "unshared (xs @ [n])" "xs \<noteq> [] \<longrightarrow> \<not> can_merge bs (last xs) n"
  shows "\<exists>b m. add_cell (sf_blocks (rd_sparse r)) (as_cell n) (rd_mem r) = Some (0, b, m) \<and>
    names m = names (rd_mem r) \<and>
    rd_inv bs k (xs @ [n]) (r\<lparr>rd_sparse := (rd_sparse r)\<lparr>sf_blocks := b\<rparr>, rd_mem := m\<rparr>)"
proof -
  let ?b = "sf_blocks (rd_sparse r)" and ?m = "rd_mem r"
  have inv: "queue_ok ?m ?b" "queue_view ?m ?b = xs" "block_size ?b = bs" "0 < avail ?m"
    using assms(1) by (simp_all add: rd_inv_def blocks_of_def)
  obtain s where s: "sink_add n (?b, ?m) = Some (0, s)" "queue_ok (snd s) (fst s)"
    "avail (snd s) = avail ?m - 1" "block_size (fst s) = bs" "queue_view (snd s) (fst s) = xs @ [n]"
    using bbq.add_behind [of "(?b, ?m)" n] inv assms(2-4) by auto
  have "queueable n xs"
    using assms(2,3) by (auto simp: queueable_def unshared_def)
  then have "names (snd s) = names ?m"
    using add_cell_run [OF inv(1,4), of n] s(1) inv(2) by (auto simp: sink_add_def)
  then show ?thesis
    using s assms(1)
    by (intro exI [of _ "fst s"] exI [of _ "snd s"]) (auto simp: sink_add_def rd_inv_def blocks_of_def)
qed

lemma as_cell_eq: "bb_core.extend \<lparr>bb_block = b, bb_len = l, bb_src = s\<rparr> \<lparr>bb_next = None\<rparr> =
    \<lparr>bb_block = b, bb_len = l, bb_src = s, bb_next = None\<rparr>"
  by (simp add: bb_core.extend_def)

lemma lseek_cur_advance: "snd (posix_lseek_cur (int n) f) = advance n f"
  by (simp add: posix_lseek_cur_def advance_def Let_def nat_add_distrib)

definition read_step :: "u32 \<Rightarrow> sp_chunk \<Rightarrow> reader \<Rightarrow> reader \<Rightarrow> bool" where
  "read_step bs c r r' \<longleftrightarrow> rd_frame r' = rd_frame r \<and>
     rd_file r' = advance (length (enc_chunk c) - 12) (rd_file r) \<and>
     rd_crc r' = map_option (\<lambda>x. sparse_crc32 x (chunk_data bs c)) (rd_crc r)"

lemma process_raw_run:
  assumes inv: "rd_inv bs (Suc k) xs r" "bs \<noteq> 0" "readable (rd_file r)"
    and c: "length d = n * unat bs" "n * unat bs < 2 ^ 32" "rest (rd_file r) = d @ d'"
    and new: "xs @ [x] = xs @ chunk_block bs fd l p (Raw n d)" "\<forall>y \<in> set xs. bb_block y < bb_block x"
      "unshared (xs @ [x])" "xs \<noteq> [] \<longrightarrow> \<not> can_merge bs (last xs) x"
  shows "\<exists>r'. process_raw_chunk (of_nat (length d)) fd (int (p + 12)) (of_nat n) (of_nat l) r = Some (0, r') \<and>
    rd_inv bs k (xs @ [x]) r' \<and> read_step bs (Raw n d) r r'"
proof -
  obtain b m where add: "add_cell (sf_blocks (rd_sparse r)) (as_cell x) (rd_mem r) = Some (0, b, m)"
    "names m = names (rd_mem r)"
    "rd_inv bs k (xs @ [x]) (r\<lparr>rd_sparse := (rd_sparse r)\<lparr>sf_blocks := b\<rparr>, rd_mem := m\<rparr>)"
    using add_cell_behind [OF inv(1) new(2-4)] by blast
  have len: "unat (of_nat (length d) :: u32) = length d" "(of_nat n * bs :: u32) = of_nat (length d)"
    using c unat_of_nat_u32 [of "length d"] by simp_all
  have "unat ((of_nat (length d) :: u32) mod bs) = 0"
    using len(1) c(1) by (simp add: unat_mod_distrib)
  then have dv: "(of_nat (length d) :: u32) mod bs = 0"
    by (simp only: unat_eq_zero)
  have "unat ((of_nat (length d) :: u32) div bs) = n"
    using len(1) c(1) inv(2) by (simp add: unat_div_distrib unat_gt_0)
  then have dd: "(of_nat (length d) :: u32) div bs = of_nat n"
    by (rule word_of_unat)
  have x: "as_cell x = \<lparr>bb_block = of_nat l, bb_len = of_nat (length d), bb_src = Fd fd (int (p + 12)),
      bb_next = None\<rparr>"
    using new(1) by (simp add: bb_core.extend_def)
  let ?r = "r\<lparr>rd_sparse := (rd_sparse r)\<lparr>sf_blocks := b\<rparr>, rd_mem := m\<rparr>"
  have crc: "raw_crc_loop (length d) (rd_file r) z = (0, advance (length d) (rd_file r), sparse_crc32 z d)" for z
    using raw_crc_loop_run [OF inv(3), of "length d"] c(3) by simp
  have seek: "snd (posix_lseek_cur (uint (of_nat (length d) :: u32)) (rd_file r)) =
      advance (length d) (rd_file r)"
    using lseek_cur_advance [of "length d"] len(1) by (simp only: uint_nat)
  let ?r' = "?r\<lparr>rd_file := advance (length d) (rd_file r),
      rd_crc := map_option (\<lambda>z. sparse_crc32 z d) (rd_crc r)\<rparr>"
  have bs: "sf_block_size (rd_sparse r) = bs"
    using inv(1) by (simp add: rd_inv_def)
  have "process_raw_chunk (of_nat (length d)) fd (int (p + 12)) (of_nat n) (of_nat l) r = Some (0, ?r')"
    using add(1) inv(2) dv dd len crc seek
    by (cases "rd_crc r") (simp_all add: process_raw_chunk_def bs Let_def sparse_file_add_fd_def
        backed_block_add_fd_def x del: of_nat_add)
  moreover have "rd_inv bs k (xs @ [x]) ?r'" "read_step bs (Raw n d) r ?r'"
    using add(2,3) by (simp_all add: rd_inv_def read_step_def rd_frame_def blocks_of_def)
  ultimately show ?thesis
    by blast
qed

text \<open>The length of a chunk in bytes does not overflow.\<close>

lemma chunk_length_small:
  assumes "n < 2 ^ 31"
  shows "uint (of_nat n :: u32) * uint (bs :: u32) = int (n * unat bs)" "int (n * unat bs) < 2 ^ 63"
proof -
  show "uint (of_nat n :: u32) * uint bs = int (n * unat bs)"
    using unat_of_nat_u32 [of n] assms by (simp add: uint_nat [of "of_nat n"])
  have "unat bs < 2 ^ 32" using unsigned_less [of bs, where ?'a = nat] by simp
  then have "n * unat bs < 2 ^ 31 * 2 ^ 32"
    using assms by (intro mult_strict_mono) simp_all
  then have "n * unat bs < 2 ^ 63" by simp
  then show "int (n * unat bs) < 2 ^ 63" by (metis of_nat_less_iff of_nat_numeral of_nat_power)
qed

lemma process_fill_run:
  assumes inv: "rd_inv bs (Suc k) xs r" "readable (rd_file r)"
    and c: "rest (rd_file r) = le32 v @ d'" "n < 2 ^ 31"
    and new: "xs @ [x] = xs @ chunk_block bs fd l p (Filled n v)" "\<forall>y \<in> set xs. bb_block y < bb_block x"
      "unshared (xs @ [x])" "xs \<noteq> [] \<longrightarrow> \<not> can_merge bs (last xs) x"
  shows "\<exists>r'. process_fill_chunk 4 (of_nat n) (of_nat l) r = Some (0, r') \<and>
    rd_inv bs k (xs @ [x]) r' \<and> read_step bs (Filled n v) r r'"
proof -
  obtain b m where add: "add_cell (sf_blocks (rd_sparse r)) (as_cell x) (rd_mem r) = Some (0, b, m)"
    "names m = names (rd_mem r)"
    "rd_inv bs k (xs @ [x]) (r\<lparr>rd_sparse := (rd_sparse r)\<lparr>sf_blocks := b\<rparr>, rd_mem := m\<rparr>)"
    using add_cell_behind [OF inv(1) new(2-4)] by blast
  have x: "as_cell x = \<lparr>bb_block = of_nat l, bb_len = of_nat (n * unat bs), bb_src = Fill v,
      bb_next = None\<rparr>"
    using new(1) by (simp add: bb_core.extend_def)
  have bs: "sf_block_size (rd_sparse r) = bs"
    using inv(1) by (simp add: rd_inv_def)
  let ?r' = "r\<lparr>rd_sparse := (rd_sparse r)\<lparr>sf_blocks := b\<rparr>, rd_mem := m,
      rd_file := advance 4 (rd_file r),
      rd_crc := map_option (\<lambda>z. sparse_crc32 z (fill_bytes v (n * unat bs))) (rd_crc r)\<rparr>"
  note chunk_length_small [OF c(2), of bs]
  moreover have "un_le32 (le32 v) = v"
    using un_le32_le32 [of v "[]"] by simp
  moreover have "read_all 4 (rd_file r) = (Inr (le32 v), advance 4 (rd_file r))"
    using read_all_ok [OF inv(2), of 4] c(1) by simp
  moreover note buf_crc_loop_nat [of v "n * unat bs"]
  moreover have "word_of_int (int (n * unat bs)) = (of_nat (n * unat bs) :: u32)"
    by simp
  ultimately have "process_fill_chunk 4 (of_nat n) (of_nat l) r = Some (0, ?r')"
    using add(1) by (simp add: process_fill_chunk_def bs sparse_file_add_fill_def
        backed_block_add_fill_def x Let_def del: of_nat_mult)
  moreover have "rd_inv bs k (xs @ [x]) ?r'" "read_step bs (Filled n v) r ?r'"
    using add(2,3) by (simp_all add: rd_inv_def read_step_def rd_frame_def blocks_of_def)
  ultimately show ?thesis
    by blast
qed

lemma process_skip_run:
  assumes "rd_inv bs k xs r" "n < 2 ^ 31"
  shows "\<exists>r'. process_skip_chunk 0 (of_nat n) r = Some (0, r') \<and> rd_inv bs k xs r' \<and>
    read_step bs (DontCare n) r r'"
proof -
  note chunk_length_small [OF assms(2), of bs]
  moreover note buf_crc_loop_nat [of 0 "n * unat bs"]
  moreover have "sf_block_size (rd_sparse r) = bs"
    using assms(1) by (simp add: rd_inv_def)
  ultimately show ?thesis
    using assms(1) by (simp add: process_skip_chunk_def read_step_def rd_frame_def rd_inv_def
        blocks_of_def del: of_nat_mult)
qed

lemma chunk_block_step:
  assumes "ascending (xs @ [x])" "successively (\<lambda>a b. \<not> can_merge bs a b) (xs @ [x])"
  shows "\<forall>y \<in> set xs. bb_block y < bb_block x" "xs \<noteq> [] \<longrightarrow> \<not> can_merge bs (last xs) x"
  using assms by (auto simp: sorted_wrt_append successively_append_iff)

fun chunk_hdr :: "sp_chunk \<Rightarrow> chunk_header" where
  "chunk_hdr (Raw n d) = \<lparr>chunk_type = CHUNK_TYPE_RAW, reserved1 = 0, chunk_sz = of_nat n,
     total_sz = 12 + of_nat (length d)\<rparr>"
| "chunk_hdr (Filled n v) = \<lparr>chunk_type = CHUNK_TYPE_FILL, reserved1 = 0, chunk_sz = of_nat n,
     total_sz = 16\<rparr>"
| "chunk_hdr (DontCare n) = \<lparr>chunk_type = CHUNK_TYPE_DONT_CARE, reserved1 = 0, chunk_sz = of_nat n,
     total_sz = 12\<rparr>"

fun chunk_payload :: "sp_chunk \<Rightarrow> byte list" where
  "chunk_payload (Raw n d) = d"
| "chunk_payload (Filled n v) = le32 v"
| "chunk_payload (DontCare n) = []"

lemma enc_chunk_split: "enc_chunk c = enc_chunk_header (chunk_hdr c) @ chunk_payload c"
  by (cases c) simp_all

lemma process_chunk_run:
  assumes inv: "rd_inv bs (k + length (chunk_block bs fd l p c)) xs r" "bs \<noteq> 0" "readable (rd_file r)"
    and c: "good_chunk bs c" "chunk_blocks c < 2 ^ 31" "rest (rd_file r) = chunk_payload c @ d'"
    and new: "ascending (xs @ chunk_block bs fd l p c)" "unshared (xs @ chunk_block bs fd l p c)"
      "successively (\<lambda>a b. \<not> can_merge bs a b) (xs @ chunk_block bs fd l p c)"
  shows "\<exists>r'. process_chunk fd (int (p + 12)) 12 (chunk_hdr c) (of_nat l) r =
      Some (int (chunk_blocks c), r') \<and>
    rd_inv bs k (xs @ chunk_block bs fd l p c) r' \<and> read_step bs c r r'"
proof -
  have n: "sint (of_nat (chunk_blocks c) :: u32) = int (chunk_blocks c)"
    using c(2) sint_small [of "of_nat (chunk_blocks c)"] unat_of_nat_u32 [of "chunk_blocks c"] by simp
  show ?thesis
  proof (cases c)
    case (Raw k' d)
    let ?x = "\<lparr>bb_block = of_nat l, bb_len = of_nat (length d), bb_src = Fd fd (int (p + 12))\<rparr>"
    have "\<exists>r'. process_raw_chunk (of_nat (length d)) fd (int (p + 12)) (of_nat k') (of_nat l) r =
        Some (0, r') \<and> rd_inv bs k (xs @ [?x]) r' \<and> read_step bs (Raw k' d) r r'"
      using inv c new chunk_block_step [of xs ?x bs] Raw
      by (intro process_raw_run) (simp_all add: good_chunk_def)
    then show ?thesis
      using Raw n by (auto simp: process_chunk_def Let_def)
  next
    case (Filled k' v)
    let ?x = "\<lparr>bb_block = of_nat l, bb_len = of_nat (k' * unat bs), bb_src = Fill v\<rparr>"
    have "\<exists>r'. process_fill_chunk 4 (of_nat k') (of_nat l) r = Some (0, r') \<and>
        rd_inv bs k (xs @ [?x]) r' \<and> read_step bs (Filled k' v) r r'"
      using inv c new chunk_block_step [of xs ?x bs] Filled
      by (intro process_fill_run [where fd = fd and p = p]) (simp_all add: good_chunk_def)
    then show ?thesis
      using Filled n by (auto simp: process_chunk_def Let_def)
  next
    case (DontCare k')
    then show ?thesis
      using process_skip_run [of bs k xs r k'] inv(1) c(2) n by (auto simp: process_chunk_def Let_def)
  qed
qed

lemma unshared_prefix: "unshared (xs @ ys) \<Longrightarrow> unshared xs"
  by (simp add: unshared_def)

lemma read_chunks_run:
  assumes "rd_inv bs (k + length (readback bs fd l p cs)) xs r" "bs \<noteq> 0" "readable (rd_file r)"
    and "pos (rd_file r) = p" "rest (rd_file r) = enc_chunks cs @ d'"
    and "\<forall>c \<in> set cs. good_chunk bs c" "l + blocks_sum cs < 2 ^ 31"
    and "ascending (xs @ readback bs fd l p cs)" "unshared (xs @ readback bs fd l p cs)"
      "successively (\<lambda>a b. \<not> can_merge bs a b) (xs @ readback bs fd l p cs)"
  shows "\<exists>r'. read_chunks (length cs + j) fd 12 (of_nat l) r =
      read_chunks j fd 12 (of_nat (l + blocks_sum cs)) r' \<and>
    rd_inv bs k (xs @ readback bs fd l p cs) r' \<and> rd_frame r' = rd_frame r \<and>
    rd_file r' = advance (length (enc_chunks cs)) (rd_file r) \<and>
    rd_crc r' = map_option (\<lambda>z. sparse_crc32 z (concat (map (chunk_data bs) cs))) (rd_crc r)"
  using assms
proof (induction cs arbitrary: l p xs r)
  case Nil
  then show ?case
    by (intro exI [of _ r]) (simp add: enc_chunks_def sparse_crc32_Nil option.map_id [unfolded id_def])
next
  case (Cons c cs)
  let ?cb = "chunk_block bs fd l p c" and ?l = "l + chunk_blocks c" and ?p = "p + length (enc_chunk c)"
  let ?f = "advance 12 (rd_file r)" and ?rb = "readback bs fd (l + chunk_blocks c) (p + length (enc_chunk c)) cs"
  have rst: "rest (rd_file r) = enc_chunk_header (chunk_hdr c) @ chunk_payload c @ enc_chunks cs @ d'"
    using Cons.prems(5) by (simp add: enc_chunks_def enc_chunk_split)
  have rd: "read_all 12 (rd_file r) = (Inr (enc_chunk_header (chunk_hdr c)), ?f)"
    using read_all_ok [OF Cons.prems(3), of 12] rst by simp
  have dec: "dec_chunk_header (enc_chunk_header h) = h" for h
    using dec_enc_chunk_header [of h "[]"] by simp
  have inv: "rd_inv bs (k + length ?rb + length ?cb) xs (r\<lparr>rd_file := ?f\<rparr>)"
    using Cons.prems(1) by (simp add: rd_inv_def ac_simps)
  have asc: "ascending (xs @ ?cb)" and ap: "successively (\<lambda>a b. \<not> can_merge bs a b) (xs @ ?cb)"
    using Cons.prems(8,10) sorted_wrt_append [of _ "xs @ ?cb" ?rb]
      successively_append_iff [of _ "xs @ ?cb" ?rb] by simp_all
  have un: "unshared (xs @ ?cb)"
    using Cons.prems(9) unshared_prefix [of "xs @ ?cb" ?rb] by simp
  obtain r1 where r1: "process_chunk fd (int (p + 12)) 12 (chunk_hdr c) (of_nat l) (r\<lparr>rd_file := ?f\<rparr>) =
      Some (int (chunk_blocks c), r1)" "rd_inv bs (k + length ?rb) (xs @ ?cb) r1"
      "read_step bs c (r\<lparr>rd_file := ?f\<rparr>) r1"
    using process_chunk_run [OF inv Cons.prems(2) _ _ _ _ asc un ap, of "enc_chunks cs @ d'"]
      Cons.prems(3,6,7) rst by auto
  have f1: "rd_file r1 = advance (length (enc_chunk c)) (rd_file r)" "rd_frame r1 = rd_frame r"
    "rd_crc r1 = map_option (\<lambda>z. sparse_crc32 z (chunk_data bs c)) (rd_crc r)"
    using r1(3) by (simp_all add: read_step_def rd_frame_def enc_chunk_split)
  have "\<exists>r'. read_chunks (length cs + j) fd 12 (of_nat ?l) r1 =
      read_chunks j fd 12 (of_nat (?l + blocks_sum cs)) r' \<and>
    rd_inv bs k ((xs @ ?cb) @ ?rb) r' \<and> rd_frame r' = rd_frame r1 \<and>
    rd_file r' = advance (length (enc_chunks cs)) (rd_file r1) \<and>
    rd_crc r' = map_option (\<lambda>z. sparse_crc32 z (concat (map (chunk_data bs) cs))) (rd_crc r1)"
    using Cons.prems f1 r1(2) rst by (intro Cons.IH) (simp_all add: enc_chunk_split add.assoc)
  then obtain r' where r': "read_chunks (length cs + j) fd 12 (of_nat ?l) r1 =
      read_chunks j fd 12 (of_nat (?l + blocks_sum cs)) r'" "rd_inv bs k ((xs @ ?cb) @ ?rb) r'"
    "rd_frame r' = rd_frame r1" "rd_file r' = advance (length (enc_chunks cs)) (rd_file r1)"
    "rd_crc r' = map_option (\<lambda>z. sparse_crc32 z (concat (map (chunk_data bs) cs))) (rd_crc r1)"
    by blast
  have "read_chunks (Suc (length cs + j)) fd 12 (of_nat l) r = read_chunks (length cs + j) fd 12 (of_nat ?l) r1"
    using rd r1(1) Cons.prems(4) by (simp add: dec)
  then show ?case
    using r' f1
    by (intro exI [of _ r'])
      (simp add: enc_chunks_def add.assoc option.map_comp comp_def sparse_crc32_append)
qed

section \<open>Reading a whole image\<close>

lemma read_crc_chunk:
  assumes "readable (rd_file r)" "rest (rd_file r) = crc_chunk c @ d'"
  shows "read_chunks (Suc 0) fd 12 b r = (case rd_crc r of None \<Rightarrow> None
    | Some z \<Rightarrow> Some (if c = z then 0 else - EINVAL, b, r\<lparr>rd_file := advance 16 (rd_file r)\<rparr>))"
proof -
  let ?h = "\<lparr>chunk_type = CHUNK_TYPE_CRC32, reserved1 = 0, chunk_sz = 0, total_sz = 16\<rparr>"
  have dec: "dec_chunk_header (enc_chunk_header ?h) = ?h"
    using dec_enc_chunk_header [of ?h "[]"] by simp
  have rd: "read_all 12 (rd_file r) = (Inr (enc_chunk_header ?h), advance 12 (rd_file r))"
    "read_all 4 (advance 12 (rd_file r)) = (Inr (le32 c), advance 16 (rd_file r))"
    using read_all_ok [OF assms(1), of 12] read_all_ok [of "advance 12 (rd_file r)" 4] assms
    by (simp_all add: crc_chunk_eq)
  have "un_le32 (le32 c) = c"
    using un_le32_le32 [of c "[]"] by simp
  then show ?thesis
    using rd by (cases "rd_crc r") (simp_all add: dec process_chunk_def process_crc32_chunk_def Let_def)
qed

lemma length_le_blocks: "\<forall>c \<in> set cs. good_chunk bs c \<Longrightarrow> length cs \<le> blocks_sum cs"
  by (induction cs) (auto simp: good_chunk_def)

text \<open>The images the reader accepts.\<close>

definition readable_image :: "u32 \<Rightarrow> sp_chunk list \<Rightarrow> bool" where
  "readable_image bs cs \<longleftrightarrow> bs \<noteq> 0 \<and> (\<forall>c \<in> set cs. good_chunk bs c) \<and> blocks_sum cs < 2 ^ 31 \<and>
     fills_apart cs"

lemma file_header_read:
  assumes "length cs < 2 ^ 31"
  shows "dec_sparse_header (take 28 (sparse_image bs tot crc cs @ d')) =
      file_header bs tot (if crc then length cs + 1 else length cs)"
    "unat (total_chunks (file_header bs tot (if crc then length cs + 1 else length cs))) =
      length cs + (if crc then 1 else 0)"
proof -
  show "dec_sparse_header (take 28 (sparse_image bs tot crc cs @ d')) =
      file_header bs tot (if crc then length cs + 1 else length cs)"
    using dec_enc_sparse_header [of _ "[]"] by (simp add: sparse_image_eq)
  show "unat (total_chunks (file_header bs tot (if crc then length cs + 1 else length cs))) =
      length cs + (if crc then 1 else 0)"
    using assms unat_of_nat_u32 [of "length cs"] unat_of_nat_u32 [of "length cs + 1"]
    by (simp add: file_header_def)
qed

lemma sparse_file_read_sparse_run:
  assumes img: "readable_image bs cs" and rb: "rb = readback bs fd 0 28 cs"
    and inv: "rd_inv bs (length rb) [] r" "readable (rd_file r)" "pos (rd_file r) = 0"
    and cont: "contents (rd_file r) = sparse_image bs (blocks_sum cs) ci cs @ d'"
  defines "written \<equiv> written_crc bs cs"
  shows "\<exists>r'. sparse_file_read_sparse True fd cr r = (if ci \<and> \<not> cr then None
      else Some (if ci \<and> written \<noteq> image_crc bs cs then - EINVAL else 0, r')) \<and>
    rd_inv bs 0 rb r' \<and> rd_frame r' = rd_frame r"
proof -
  have good: "\<forall>c \<in> set cs. good_chunk bs c" "bs \<noteq> 0" "blocks_sum cs < 2 ^ 31" "fills_apart cs"
    using img by (simp_all add: readable_image_def)
  then have len: "length cs < 2 ^ 31"
    using length_le_blocks by (meson le_less_trans)
  let ?h = "file_header bs (blocks_sum cs) (if ci then length cs + 1 else length cs)"
  let ?r = "r\<lparr>rd_crc := (if cr then Some 0 else None), rd_file := advance 28 (rd_file r)\<rparr>"
  have rest: "rest (rd_file r) = sparse_image bs (blocks_sum cs) ci cs @ d'"
    using cont inv(3) by (simp add: rest_def)
  have rd: "read_all 28 (rd_file r) =
      (Inr (take 28 (sparse_image bs (blocks_sum cs) ci cs @ d')), advance 28 (rd_file r))"
    using read_all_ok [OF inv(2), of 28] rest by (simp add: sparse_image_eq)
  have h: "magic ?h = SPARSE_HEADER_MAGIC" "major_version ?h = 1" "file_hdr_sz ?h = 28"
    "chunk_hdr_sz ?h = 12" "total_blks ?h = of_nat (blocks_sum cs)"
    by (simp_all add: file_header_def)
  have inv1: "rd_inv bs (0 + length (readback bs fd 0 28 cs)) [] ?r"
    using inv(1) rb by (simp add: rd_inv_def blocks_of_def)
  have rest1: "rest (rd_file ?r) = enc_chunks cs @ (if ci then crc_chunk written else []) @ d'"
    using rest by (simp add: sparse_image_eq written_def)
  have sum: "0 + blocks_sum cs < 2 ^ 31" "0 + blocks_sum cs < 2 ^ 32"
    using good(3) by simp_all
  obtain r' where "read_chunks (length cs + (if ci then 1 else 0)) fd 12 (of_nat 0) ?r =
      read_chunks (if ci then 1 else 0) fd 12 (of_nat (0 + blocks_sum cs)) r'"
    "rd_inv bs 0 ([] @ readback bs fd 0 28 cs) r'" "rd_frame r' = rd_frame ?r"
    "rd_file r' = advance (length (enc_chunks cs)) (rd_file ?r)"
    "rd_crc r' = map_option (\<lambda>z. sparse_crc32 z (concat (map (chunk_data bs) cs))) (rd_crc ?r)"
    using read_chunks_run [OF inv1 good(2) _ _ rest1 good(1) sum(1), where j = "if ci then 1 else 0"]
      inv(2,3) readback_ascending [OF good(1) sum(2)] readback_unshared [OF good(1) sum(2)]
      readback_apart [OF good(1) sum(2) good(2,4)] by auto
  then have r': "read_chunks (length cs + (if ci then 1 else 0)) fd 12 0 ?r =
      read_chunks (if ci then 1 else 0) fd 12 (of_nat (blocks_sum cs)) r'"
    "rd_inv bs 0 rb r'" "rd_frame r' = rd_frame r" "rd_file r' = advance (28 + length (enc_chunks cs)) (rd_file r)"
    "rd_crc r' = (if cr then Some (image_crc bs cs) else None)"
    by (simp_all add: rb rd_frame_def image_crc_eq)
  have fin: "read_chunks (if ci then 1 else 0) fd 12 (of_nat (blocks_sum cs)) r' =
      (if ci \<and> \<not> cr then None
       else Some (if ci \<and> written \<noteq> image_crc bs cs then - EINVAL else 0, of_nat (blocks_sum cs),
         if ci then r'\<lparr>rd_file := advance 16 (rd_file r')\<rparr> else r'))"
    using read_crc_chunk [of r' written d' fd] r'(4,5) inv(2) rest
    by (simp add: sparse_image_eq written_def)
  let ?r' = "if ci then r'\<lparr>rd_file := advance 16 (rd_file r')\<rparr> else r'"
  have "sparse_file_read_sparse True fd cr r = (if ci \<and> \<not> cr then None
      else Some (if ci \<and> written \<noteq> image_crc bs cs then - EINVAL else 0, ?r'))"
    unfolding sparse_file_read_sparse_def
    using rd r'(1) fin h file_header_read [OF len]
    by (simp add: Let_def)
  moreover have "rd_inv bs 0 rb ?r'" "rd_frame ?r' = rd_frame r"
    using r'(2,3) by (simp_all add: rd_inv_def rd_frame_def blocks_of_def)
  ultimately show ?thesis
    by blast
qed

section \<open>Importing an image\<close>

lemma sparse_file_import_start:
  assumes img: "readable_image bs cs" and f: "readable f" "pos f = 0"
    and cont: "contents f = sparse_image bs (blocks_sum cs) ci cs @ d'" and av: "k + 2 \<le> avail m"
  shows "\<exists>r. sparse_file_import True fd verbose cr f m = import_read True fd cr r \<and>
    rd_inv bs k [] r \<and> rd_file r = f \<and>
    rd_frame r = (int (blocks_sum cs) * uint bs, verbose, names m)"
proof -
  have good: "\<forall>c \<in> set cs. good_chunk bs c" "bs \<noteq> 0" "blocks_sum cs < 2 ^ 31"
    using img by (simp_all add: readable_image_def)
  then have len: "length cs < 2 ^ 31"
    using length_le_blocks by (meson le_less_trans)
  let ?h = "file_header bs (blocks_sum cs) (if ci then length cs + 1 else length cs)"
  have rd: "read_all 28 f =
      (Inr (take 28 (sparse_image bs (blocks_sum cs) ci cs @ d')), advance 28 f)"
    using read_all_ok [OF f(1), of 28] cont f(2) by (simp add: rest_def sparse_image_eq)
  have h: "magic ?h = SPARSE_HEADER_MAGIC" "major_version ?h = 1" "file_hdr_sz ?h = 28"
    "chunk_hdr_sz ?h = 12" "total_blks ?h = of_nat (blocks_sum cs)" "blk_sz ?h = bs"
    by (simp_all add: file_header_def)
  have tot: "uint (of_nat (blocks_sum cs) :: u32) = int (blocks_sum cs)"
    using good(3) by (intro uint_of_nat_u32) simp
  have seek: "posix_lseek_set 0 (advance 28 f) = (0, f)"
    using f(2) by (simp add: posix_lseek_set_def advance_def)
  let ?m = "m\<lparr>avail := avail m - 2\<rparr>" and ?b = "\<lparr>data_blocks = None, last_used = None, block_size = bs\<rparr>"
  let ?s = "\<lparr>sf_block_size = bs, sf_len = int (blocks_sum cs) * uint bs, sf_verbose = False, sf_blocks = ?b\<rparr>"
  have new: "sparse_file_new bs (int (blocks_sum cs) * uint bs) m = Some (Some ?s, ?m)"
    using av by (simp add: sparse_file_new_def backed_block_list_new_def numeral_2_eq_2)
  let ?r = "\<lparr>rd_file = f, rd_sparse = ?s\<lparr>sf_verbose := verbose\<rparr>, rd_mem = ?m, rd_crc = None\<rparr>"
  have "sparse_file_import True fd verbose cr f m = import_read True fd cr ?r"
    unfolding sparse_file_import_def using rd h tot seek new file_header_read [OF len]
    by (simp add: Let_def)
  moreover have "rd_inv bs k [] ?r"
    using good(2) av by (simp add: rd_inv_def blocks_of_def queue_view_new queue_ok_def cache_ok_def
        walk.simps unshared_def)
  ultimately show ?thesis
    by (intro exI [of _ ?r]) (simp add: rd_frame_def)
qed

lemma sparse_file_import_run:
  assumes img: "readable_image bs cs" and f: "readable f" "pos f = 0"
    and cont: "contents f = sparse_image bs (blocks_sum cs) ci cs @ d'"
    and rb: "rb = readback bs fd 0 28 cs" and av: "length rb + 2 \<le> avail m"
    and crc: "ci \<Longrightarrow> cr \<and> written_crc bs cs = image_crc bs cs"
  shows "\<exists>s f' m'. sparse_file_import True fd verbose cr f m = Some (Some s, f', m') \<and>
    sf_block_size s = bs \<and> sf_len s = int (blocks_sum cs) * uint bs \<and> sf_verbose s = verbose \<and>
    queue_ok m' (sf_blocks s) \<and> blocks_of m' s = rb \<and> names m' = names m"
proof -
  obtain r where r: "sparse_file_import True fd verbose cr f m = import_read True fd cr r"
    "rd_inv bs (length rb) [] r" "rd_file r = f" "rd_frame r = (int (blocks_sum cs) * uint bs, verbose, names m)"
    using sparse_file_import_start [OF img f cont av] by blast
  obtain r' where r': "sparse_file_read_sparse True fd cr r = Some (0, r')" "rd_inv bs 0 rb r'"
    "rd_frame r' = rd_frame r"
    using sparse_file_read_sparse_run [OF img rb r(2), of ci d' cr] f cont r(3) crc by fastforce
  then show ?thesis
    using r(1,4) by (simp add: import_read_def sparse_file_read_def rd_inv_def rd_frame_def)
qed

section \<open>Writing and reading back\<close>

lemma window_inside:
  assumes "drop q C = d @ d'" "length d = n" "q \<le> length C"
  shows "window C (int q) n = Some d"
proof -
  have "C = take q C @ d @ d'"
    using assms(1) by (metis append_take_drop_id)
  then have "q + n \<le> length C" "take n (drop q C) = d"
    using assms by (metis length_append length_take min.absorb2 add_le_mono le_add1 add_left_mono)
      (simp add: assms)
  then show ?thesis
    by (simp add: window_def page_pad_def)
qed

lemma src_bytes_length: "src_bytes env nm b = Some d \<Longrightarrow> length d = unat (bb_len b)"
  by (auto simp: src_bytes_def window_def option_run split: bb_union.splits if_splits)

lemma nblks_whole:
  assumes "unat (bb_len b) = n * unat bs" "bs \<noteq> 0"
  shows "nblks bs b = n"
proof -
  have "0 < unat bs"
    using assms(2) by (simp add: unat_gt_0)
  then have "((unat bs - 1) + n * unat bs) div unat bs = n"
    by (subst div_mult_self1) simp_all
  moreover have "(unat bs - 1) + n * unat bs = n * unat bs + unat bs - 1"
    using \<open>0 < unat bs\<close> by simp
  ultimately show ?thesis
    by (simp add: nblks_def assms(1))
qed

lemma good_chunk_of:
  assumes "fits bs b" "src_bytes env nm b \<noteq> None"
  shows "good_chunk bs (chunk_of bs env nm b)" "chunk_blocks (chunk_of bs env nm b) = nblks bs b"
    "\<forall>n. chunk_of bs env nm b \<noteq> DontCare n"
proof -
  note f = fits_bounds [OF assms(1)]
  obtain d where d: "src_bytes env nm b = Some d" "length d = unat (bb_len b)"
    using assms(2) src_bytes_length by blast
  have "nblks bs b * unat bs < 2 ^ 32"
    using f(6) by (simp add: mult.commute)
  then show "good_chunk bs (chunk_of bs env nm b)"
    using d f by (simp add: good_chunk_def chunk_of_def mult.commute split: bb_union.splits)
  show "chunk_blocks (chunk_of bs env nm b) = nblks bs b"
    "\<forall>n. chunk_of bs env nm b \<noteq> DontCare n"
    by (simp_all add: chunk_of_def split: bb_union.splits)
qed

text \<open>What is read for a chunk stands for the chunk again, when the descriptor shows the image.\<close>

lemma chunk_block_back:
  assumes c: "good_chunk bs c" "\<forall>n. c \<noteq> DontCare n" and bs: "bs \<noteq> 0"
    and C: "env_fds env fd = Some C" "drop p C = enc_chunk c @ d'"
    and l: "l < 2 ^ 32"
  shows "\<exists>x. chunk_block bs fd l p c = [x] \<and> unat (bb_block x) = l \<and> nblks bs x = chunk_blocks c \<and>
    unat (bb_len x) = chunk_blocks c * unat bs \<and>
    chunk_of bs env nm x = c \<and> src_bytes env nm x \<noteq> None"
proof (cases c)
  case (Raw n d)
  let ?x = "\<lparr>bb_block = of_nat l, bb_len = of_nat (length d), bb_src = Fd fd (int (p + 12))\<rparr>"
  have len: "unat (bb_len ?x) = n * unat bs" "length d = n * unat bs"
    using c(1) Raw unat_of_nat_u32 [of "length d"] by (simp_all add: good_chunk_def)
  have "drop (p + 12) C = d @ d'"
    using arg_cong [OF C(2), of "drop 12"] Raw by (simp add: add.commute)
  moreover have "p + 12 \<le> length C"
    using arg_cong [OF C(2), of length] Raw by simp
  ultimately have "window C (int (p + 12)) (n * unat bs) = Some d"
    using len(2) by (intro window_inside)
  then have src: "src_bytes env nm ?x = Some d"
    using len C(1) by (simp add: src_bytes_def)
  moreover have "nblks bs ?x = n"
    using len(1) bs by (rule nblks_whole)
  ultimately show ?thesis
    using Raw len unat_of_nat_u32 [OF l] by (simp add: chunk_of_def)
next
  case (Filled n v)
  let ?x = "\<lparr>bb_block = of_nat l, bb_len = of_nat (n * unat bs), bb_src = Fill v\<rparr>"
  have len: "unat (bb_len ?x) = n * unat bs"
    using c(1) Filled unat_of_nat_u32 [of "n * unat bs"] by (simp add: good_chunk_def)
  then have "nblks bs ?x = n"
    using bs by (rule nblks_whole)
  then show ?thesis
    using Filled len unat_of_nat_u32 [OF l] by (simp add: chunk_of_def src_bytes_def)
qed (use c in simp)

lemma placed_ge: "placed bs tot l xs \<Longrightarrow> l \<le> blocks_end bs l xs"
  by (induction xs arbitrary: l) fastforce+

lemma good_body:
  assumes "placed bs tot l xs" "\<forall>x \<in> set xs. src_bytes env nm x \<noteq> None"
  shows "\<forall>c \<in> set (body bs (chunk_of bs env nm) l xs). good_chunk bs c"
    "l + blocks_sum (body bs (chunk_of bs env nm) l xs) = blocks_end bs l xs"
  using assms
  by (induction xs arbitrary: l) (auto simp: good_chunk_of gap_def good_chunk_def [of _ "DontCare _"]
      simp flip: add.assoc dest: placed_ge)

lemma readback_append: "readback bs fd l p (as @ cs) = readback bs fd l p as @
    readback bs fd (l + blocks_sum as) (p + length (enc_chunks as)) cs"
  by (induction as arbitrary: l p) (simp_all add: enc_chunks_def add.assoc)

lemma readback_gap [simp]: "readback bs fd l p (gap i j) = []"
  by (simp add: gap_def)

lemma readback_body:
  assumes "placed bs tot l xs" "tot < 2 ^ 31" "\<forall>x \<in> set xs. src_bytes env nm x \<noteq> None"
    and "env_fds env' fd = Some C" "drop p C = enc_chunks (body bs (chunk_of bs env nm) l xs) @ d'"
  defines "rb \<equiv> \<lambda>l p xs. readback bs fd l p (body bs (chunk_of bs env nm) l xs)"
  shows "body bs (chunk_of bs env' nm') l (rb l p xs) = body bs (chunk_of bs env nm) l xs \<and>
    blocks_end bs l (rb l p xs) = blocks_end bs l xs \<and> placed bs tot l (rb l p xs) \<and>
    (\<forall>x \<in> set (rb l p xs). src_bytes env' nm' x \<noteq> None)"
  using assms(1-5)
proof (induction xs arbitrary: l p)
  case Nil
  then show ?case by (simp add: rb_def)
next
  case (Cons b xs)
  let ?n = "unat (bb_block b)" and ?c = "chunk_of bs env nm b"
  let ?e = "?n + nblks bs b" and ?q = "p + length (enc_chunks (gap l ?n))"
  have pl: "fits bs b" "l \<le> ?n" "placed bs tot ?e xs"
    using Cons.prems(1) by simp_all
  have bs: "bs \<noteq> 0"
    using pl(1) by (simp add: fits_def)
  have c: "good_chunk bs ?c" "chunk_blocks ?c = nblks bs b" "\<forall>n. ?c \<noteq> DontCare n"
    using good_chunk_of [OF pl(1)] Cons.prems(3) by simp_all
  have "l + blocks_sum (gap l ?n) = ?n"
    using pl(2) by (simp add: gap_def)
  then have rb: "rb l p (b # xs) = chunk_block bs fd ?n ?q ?c @ rb ?e (?q + length (enc_chunk ?c)) xs"
    using c(2) by (simp add: rb_def readback_append)
  have C: "drop ?q C = enc_chunk ?c @ enc_chunks (body bs (chunk_of bs env nm) ?e xs) @ d'"
    using arg_cong [OF Cons.prems(5), of "drop (length (enc_chunks (gap l ?n)))"]
    by (simp add: enc_chunks_def add.commute)
  obtain x where x: "chunk_block bs fd ?n ?q ?c = [x]" "unat (bb_block x) = ?n" "nblks bs x = nblks bs b"
    "unat (bb_len x) = nblks bs b * unat bs" "chunk_of bs env' nm' x = ?c" "src_bytes env' nm' x \<noteq> None"
    using chunk_block_back [OF c(1,3) bs Cons.prems(4) C, where l = ?n and nm = nm'] placed_le [OF pl(3)] Cons.prems(2) c(2)
    by auto
  have "0 < nblks bs b * unat bs"
    using fits_bounds(1,3) [OF pl(1)] by simp
  then have fx: "fits bs x"
    using pl(1) x(3,4) by (auto simp: fits_def)
  have "drop (?q + length (enc_chunk ?c)) C = enc_chunks (body bs (chunk_of bs env nm) ?e xs) @ d'"
    using arg_cong [OF C, of "drop (length (enc_chunk ?c))"] by (simp add: add.commute)
  from Cons.IH [OF pl(3) Cons.prems(2) _ Cons.prems(4) this] Cons.prems(3)
  show ?case
    using x fx pl(2) by (simp add: rb)
qed

lemma blocks_sum_append [simp]: "blocks_sum (as @ cs) = blocks_sum as + blocks_sum cs"
  by (simp add: blocks_sum_def)

lemma chunks_of_readable:
  assumes w: "writable env m s" and ap: "fills_apart (chunks_of env m s)"
  shows "readable_image (sf_block_size s) (chunks_of env m s)"
    "blocks_sum (chunks_of env m s) = total_of s"
proof -
  let ?bs = "sf_block_size s" and ?t = "total_of s" and ?xs = "blocks_of m s"
  let ?f = "chunk_of ?bs env (load_name m)"
  have pl: "placed ?bs ?t 0 ?xs" "\<forall>x \<in> set ?xs. src_bytes env (load_name m) x \<noteq> None" "?bs \<noteq> 0" "?t < 2 ^ 31"
    using w by (simp_all add: writable_def)
  have cs: "chunks_of env m s = body ?bs ?f 0 ?xs @ gap (blocks_end ?bs 0 ?xs) ?t"
    by (simp add: chunks_of_def layout_def)
  have "\<forall>c \<in> set (gap (blocks_end ?bs 0 ?xs) ?t). good_chunk ?bs c"
    by (simp add: gap_def good_chunk_def)
  then have "\<forall>c \<in> set (chunks_of env m s). good_chunk ?bs c"
    using good_body(1) [OF pl(1,2)] unfolding cs by auto
  moreover show "blocks_sum (chunks_of env m s) = total_of s"
    using good_body(2) [OF pl(1,2)] placed_end [OF pl(1)] unfolding cs by (simp add: gap_def)
  ultimately show "readable_image ?bs (chunks_of env m s)"
    using pl(3,4) ap by (simp add: readable_image_def)
qed

lemma length_readback: "length (readback bs fd l p cs) \<le> length cs"
proof (induction cs arbitrary: l p)
  case (Cons c cs)
  have "length (chunk_block bs fd l p c) \<le> 1"
    by (cases c) simp_all
  then show ?case
    using Cons [of "l + chunk_blocks c" "p + length (enc_chunk c)"] by simp
qed simp

text \<open>The blocks read back from the image of a file have the chunks of that file.\<close>

lemma readback_chunks_of:
  assumes w: "writable env m s" and C: "env_fds env' fd = Some (image_of env crc m s @ d')"
    and s': "sf_block_size s' = sf_block_size s" "sf_len s' = sf_len s"
      "walk m' (data_blocks (sf_blocks s')) \<noteq> None"
      "blocks_of m' s' = readback (sf_block_size s) fd 0 28 (chunks_of env m s)"
  shows "chunks_of env' m' s' = chunks_of env m s" "writable env' m' s'"
proof -
  let ?bs = "sf_block_size s" and ?t = "total_of s" and ?xs = "blocks_of m s"
  let ?f = "chunk_of ?bs env (load_name m)" and ?C = "image_of env crc m s @ d'"
  let ?b = "body ?bs ?f 0 ?xs" and ?g = "gap (blocks_end ?bs 0 ?xs) ?t"
  have pl: "placed ?bs ?t 0 ?xs" "\<forall>x \<in> set ?xs. src_bytes env (load_name m) x \<noteq> None" "?t < 2 ^ 31"
    using w by (simp_all add: writable_def)
  have tot: "total_of s' = ?t"
    using s'(1,2) by (simp add: total_of_def)
  have cs: "chunks_of env m s = ?b @ ?g"
    by (simp add: chunks_of_def layout_def)
  have rb: "blocks_of m' s' = readback ?bs fd 0 28 ?b"
    by (simp add: s'(4) cs readback_append)
  have "\<exists>d''. drop 28 ?C = enc_chunks ?b @ d''"
    by (simp add: image_of_def sparse_image_eq cs enc_chunks_def)
  then obtain d'' where d'': "drop 28 ?C = enc_chunks ?b @ d''"
    by blast
  have back_facts: "body ?bs (chunk_of ?bs env' (load_name m')) 0 (blocks_of m' s') = ?b"
    "blocks_end ?bs 0 (blocks_of m' s') = blocks_end ?bs 0 ?xs" "placed ?bs ?t 0 (blocks_of m' s')"
    "\<forall>x \<in> set (blocks_of m' s'). src_bytes env' (load_name m') x \<noteq> None"
    unfolding rb using readback_body [OF pl(1,3,2) C d'', of "load_name m'"] by blast+
  then show "chunks_of env' m' s' = chunks_of env m s"
    by (simp add: chunks_of_def layout_def s'(1) tot)
  show "writable env' m' s'"
    using back_facts(3,4) w s' tot by (simp add: writable_def)
qed

text \<open>
  C1: Writing a sparse file as a sparse image and importing the image gives the same file back:
  for every well-placed sparse file without adjacent equal fills, \<^verbatim>\<open>sparse_file_write\<close> (without
  checksum) succeeds on an empty file, \<^verbatim>\<open>sparse_file_import\<close> of the written file succeeds, and the
  imported file has the same block size and length and, with its data taken from the written
  file, the same sequence of raw, fill and don't-care chunks, so that it can be written again.
\<close>

theorem sparse_write_import:
  assumes "writable env m s" "2 < avail m" "fills_apart (chunks_of env m s)"
    and "contents f = []" "pos f = 0" "readable f" "length (image_of env False m s) \<le> cap f"
    and "length (chunks_of env m s) + 2 \<le> avail m2"
  shows "\<exists>f' s' f'' m'. sparse_file_write env s f None True False m = Some (0, NormalSink f') \<and>
    sparse_file_import True fd verbose False (f'\<lparr>pos := 0\<rparr>) m2 = Some (Some s', f'', m') \<and>
    sf_block_size s' = sf_block_size s \<and> sf_len s' = sf_len s \<and>
    chunks_of (env\<lparr>env_fds := (env_fds env)(fd \<mapsto> contents f')\<rparr>) m' s' = chunks_of env m s \<and>
    writable (env\<lparr>env_fds := (env_fds env)(fd \<mapsto> contents f')\<rparr>) m' s'"
proof -
  let ?cs = "chunks_of env m s" and ?bs = "sf_block_size s" and ?img = "image_of env False m s"
  let ?f = "f\<lparr>contents := ?img, pos := length ?img\<rparr>"
  have w: "sparse_file_write env s f None True False m = Some (0, NormalSink ?f)"
    using file_sink.emit_image [OF assms(1,2) _ sparse_count_chunks_run [OF assms(1)],
        of False "NormalSink f"] assms(4,5,7) sparse_count_chunks_run [OF assms(1)]
    by (simp add: sparse_file_write_def output_file_open_fd_def)
  note img = chunks_of_readable [OF assms(1,3)]
  have cont: "contents (?f\<lparr>pos := 0\<rparr>) = sparse_image ?bs (blocks_sum ?cs) False ?cs @ []"
    by (simp add: image_of_def img(2))
  have "readable (?f\<lparr>pos := 0\<rparr>)" "length (readback ?bs fd 0 28 ?cs) + 2 \<le> avail m2"
    using assms(6,8) length_readback [of ?bs fd 0 28 ?cs] by (simp_all add: readable_def)
  then obtain s' f'' m' where i: "sparse_file_import True fd verbose False (?f\<lparr>pos := 0\<rparr>) m2 =
      Some (Some s', f'', m')" "sf_block_size s' = ?bs" "sf_len s' = int (total_of s) * uint ?bs"
    "queue_ok m' (sf_blocks s')" "blocks_of m' s' = readback ?bs fd 0 28 ?cs"
    using sparse_file_import_run [OF img(1) _ _ cont refl, where m = m2 and cr = False and fd = fd and verbose = verbose] img(2) by auto
  have len: "sf_len s' = sf_len s"
    using i(3) writable_len [OF assms(1)] by simp
  have wk: "walk m' (data_blocks (sf_blocks s')) \<noteq> None"
    using i(4) by (auto simp: queue_ok_def split: option.splits)
  show ?thesis
    using w i(1,2) len readback_chunks_of [OF assms(1) _ i(2) len wk i(5),
        of "env\<lparr>env_fds := (env_fds env)(fd \<mapsto> ?img)\<rparr>" False "[]"]
    by (intro exI [of _ ?f] exI [of _ s'] exI [of _ f''] exI [of _ m']) simp
qed

theorem sparse_write_import_witness:
  "\<exists>f' s' f'' m'. sparse_file_write ex_env ex_sparse ex_file (None :: (unit gz_ops \<times> unit) option) True False
      ex_mem = Some (0, NormalSink f') \<and>
    sparse_file_import True 3 False False (f'\<lparr>pos := 0\<rparr>) ex_mem = Some (Some s', f'', m') \<and>
    sf_block_size s' = 8 \<and> sf_len s' = 40 \<and>
    chunks_of (ex_env\<lparr>env_fds := (env_fds ex_env)(3 \<mapsto> contents f')\<rparr>) m' s' =
      [Raw 1 [1, 2, 3, 4, 5, 0, 0, 0], DontCare 1, Filled 2 7, DontCare 1]"
  using sparse_write_import [OF ex_writable, of ex_file ex_mem 3 False] ex_image_length [of False]
  by (auto simp: ex_chunks ex_sel)

section \<open>Checksums\<close>

lemma fill_bytes_4: "fill_bytes v 4 = le32 v"
  by (simp add: fill_bytes_def le32_def upt_conv_Cons)

lemma fill_crc_eq: "fill_crc bs v c = sparse_crc32 c (fill_bytes v (4 * unat (bs div 4)))"
proof -
  have "((\<lambda>c. sparse_crc32 c (le32 v)) ^^ n) c = sparse_crc32 c (fill_bytes v (4 * n))" for n
  proof (induction n)
    case (Suc n)
    have "fill_bytes v (4 * n + 4) = fill_bytes v (4 * n) @ le32 v"
      using fill_bytes_add [of "4 * n" v 4] by (simp add: fill_bytes_4)
    then show ?case
      using Suc by (simp add: sparse_crc32_append add.commute)
  qed (simp add: sparse_crc32_Nil)
  then show ?thesis
    by (simp add: fill_crc_def)
qed

text \<open>Chunks on whose checksum the writer and the reader agree.\<close>

fun crc_plain :: "sp_chunk \<Rightarrow> bool" where
  "crc_plain (Raw n d) = True"
| "crc_plain (Filled n v) = (n = 1)"
| "crc_plain (DontCare n) = False"

lemma writer_crc_plain:
  assumes "4 dvd unat bs" "\<forall>c \<in> set cs. crc_plain c"
  shows "fold (chunk_crc bs) cs z = sparse_crc32 z (concat (map (chunk_data bs) cs))"
  using assms(2)
proof (induction cs arbitrary: z)
  case (Cons c cs)
  have "4 * unat (bs div 4) = unat bs"
    using assms(1) by (simp add: unat_div_distrib)
  then have "chunk_crc bs c z = sparse_crc32 z (chunk_data bs c)"
    using Cons.prems by (cases c) (simp_all add: fill_crc_eq)
  then show ?case
    using Cons by (simp add: sparse_crc32_append)
qed (simp add: sparse_crc32_Nil)

lemma rd_inv_destroy:
  assumes "rd_inv bs k rb r" "\<forall>x \<in> set rb. src_name (bb_src x) = []"
  shows "\<exists>m'. sparse_file_destroy (rd_sparse r) (rd_mem r) = Some m'"
proof -
  have q: "queue_ok (rd_mem r) (sf_blocks (rd_sparse r))"
    "queue_view (rd_mem r) (sf_blocks (rd_sparse r)) = rb"
    using assms(1) by (simp_all add: rd_inv_def blocks_of_def)
  then obtain as where as: "bbl_inv (rd_mem r) (sf_blocks (rd_sparse r)) as" "rb = bbs (load (rd_mem r)) as"
    by (auto elim: queue_okE)
  then have "names_ok (rd_mem r) (bbs (load (rd_mem r)) as)"
    using assms(2) by (simp add: names_ok_def)
  then show ?thesis
    using destroy_from_run [of "rd_mem r" "data_blocks (sf_blocks (rd_sparse r))" as] as(1)
    by (auto simp: bbl_inv_def sparse_file_destroy_def backed_block_list_destroy_def)
qed

lemma sparse_file_import_crc:
  assumes img: "readable_image bs cs" and f: "readable f" "pos f = 0"
    and cont: "contents f = sparse_image bs (blocks_sum cs) True cs @ d'"
    and av: "length cs + 2 \<le> avail m"
  shows "sparse_file_import True fd verbose False f m = None"
    "\<exists>s f' m'. sparse_file_import True fd verbose True f m =
       Some (if written_crc bs cs = image_crc bs cs then Some s else None, f', m')"
proof -
  let ?rb = "readback bs fd 0 28 cs"
  have av': "length ?rb + 2 \<le> avail m"
    using av length_readback [of bs fd 0 28 cs] by simp
  have good: "\<forall>c \<in> set cs. good_chunk bs c" "0 + blocks_sum cs < 2 ^ 32"
    using img by (simp_all add: readable_image_def)
  obtain r where r: "sparse_file_import True fd verbose False f m = import_read True fd False r"
    "rd_inv bs (length ?rb) [] r" "rd_file r = f"
    using sparse_file_import_start [OF img f cont av'] by blast
  then show "sparse_file_import True fd verbose False f m = None"
    using sparse_file_read_sparse_run [OF img refl r(2), of True d' False] f cont
    by (simp add: import_read_def sparse_file_read_def)
  show "\<exists>s f' m'. sparse_file_import True fd verbose True f m =
       Some (if written_crc bs cs = image_crc bs cs then Some s else None, f', m')"
  proof -
    obtain r where r: "sparse_file_import True fd verbose True f m = import_read True fd True r"
      "rd_inv bs (length ?rb) [] r" "rd_file r = f"
      using sparse_file_import_start [OF img f cont av'] by blast
    obtain r' where r': "sparse_file_read_sparse True fd True r =
        Some (if written_crc bs cs \<noteq> image_crc bs cs then - EINVAL else 0, r')" "rd_inv bs 0 ?rb r'"
      using sparse_file_read_sparse_run [OF img refl r(2), of True d' True] f cont r(3) by auto
    obtain m' where "sparse_file_destroy (rd_sparse r') (rd_mem r') = Some m'"
      using rd_inv_destroy [OF r'(2)] readback_bounds [OF _ good] by blast
    then show ?thesis
      using r(1) r'(1) by (auto simp: import_read_def sparse_file_read_def)
  qed
qed

section \<open>Properties of reading\<close>

text \<open>Two blocks of four bytes filled with one value.\<close>

definition ex_fill_mem :: bb_mem where
  "ex_fill_mem = \<lparr>cells = [Some \<lparr>bb_block = 0, bb_len = 8, bb_src = Fill 0, bb_next = None\<rparr>],
     names = [], avail = 20\<rparr>"

definition ex_fill :: sparse_file where
  "ex_fill = \<lparr>sf_block_size = 4, sf_len = 8, sf_verbose = False,
     sf_blocks = \<lparr>data_blocks = Some 0, last_used = None, block_size = 4\<rparr>\<rparr>"

lemma ex_fill_chunks: "chunks_of ex_env ex_fill_mem ex_fill = [Filled 2 0]"
  by (simp add: chunks_of_def blocks_of_def queue_view_def layout_def gap_def nblks_def chunk_of_def
      total_of_def ex_fill_def ex_fill_mem_def load_def)

lemma ex_fill_writable: "writable ex_env ex_fill_mem ex_fill"
  by (simp add: writable_def blocks_of_def queue_view_def total_of_def fits_def nblks_def
      src_bytes_def ex_fill_def ex_fill_mem_def load_def)

lemma crc_shift_ones: "crc_shift (- 1) = 0x92477cdf"
proof -
  have "(- 1 :: u32) = 0xffffffff"
    by simp
  then show ?thesis
    by (simp only: crc_shift_eval) simp
qed

lemma ex_fill_crc: "written_crc 4 [Filled 2 0] \<noteq> image_crc 4 [Filled 2 0]"
  by (simp add: written_crc_fold fill_crc_eq fill_bytes_def image_crc_eq sparse_crc32_def crc32_byte_eq
      crc_ref_byte_def crc_shift_unfold8 crc_shift_eval crc_shift_ones le32_def upt_conv_Cons)

text \<open>Two blocks: one of data, one filled.\<close>

definition ex_data_mem :: bb_mem where
  "ex_data_mem = \<lparr>cells = [Some \<lparr>bb_block = 0, bb_len = 3, bb_src = Data [1, 2, 3], bb_next = Some 1\<rparr>,
       Some \<lparr>bb_block = 1, bb_len = 4, bb_src = Fill 9, bb_next = None\<rparr>], names = [], avail = 20\<rparr>"

lemma ex_data_chunks: "chunks_of ex_env ex_data_mem ex_fill = [Raw 1 [1, 2, 3, 0], Filled 1 9]"
  by (simp add: chunks_of_def blocks_of_def queue_view_def layout_def gap_def nblks_def chunk_of_def
      total_of_def ex_fill_def ex_data_mem_def load_def src_bytes_def)

lemma ex_data_writable: "writable ex_env ex_data_mem ex_fill"
  by (simp add: writable_def blocks_of_def queue_view_def total_of_def fits_def nblks_def
      src_bytes_def ex_fill_def ex_data_mem_def load_def)

lemma ex_file_readable: "readable (ex_file\<lparr>contents := c\<rparr>)" "sf_block_size ex_fill = 4"
  by (simp_all add: ex_file_def readable_def ex_fill_def)

text \<open>
  C19: The file that \<^verbatim>\<open>sparse_file_write\<close> leaves when a checksum is asked for is accepted by
  \<^verbatim>\<open>sparse_file_import\<close> with checksum verification if and only if the checksum the writer kept
  equals the checksum of the whole image contents; otherwise the import returns no file.
\<close>

theorem sparse_import_crc_iff:
  assumes "writable env m s" "fills_apart (chunks_of env m s)" "readable f" "pos f = 0"
    and "contents f = image_of env True m s" "length (chunks_of env m s) + 2 \<le> avail m2"
  shows "\<exists>s' f' m'. sparse_file_import True fd verbose True f m2 =
    Some (if written_crc (sf_block_size s) (chunks_of env m s) =
        image_crc (sf_block_size s) (chunks_of env m s) then Some s' else None, f', m')"
  using sparse_file_import_crc(2) [OF chunks_of_readable(1) [OF assms(1,2)] assms(3,4), where d' = "[]"]
    assms(5,6) chunks_of_readable(2) [OF assms(1,2)] by (simp add: image_of_def)

theorem sparse_import_crc_iff_witness:
  "\<exists>f' m'. sparse_file_import True 3 False True
     (ex_file\<lparr>contents := image_of ex_env True ex_fill_mem ex_fill\<rparr>) ex_mem = Some (None, f', m')"
  using sparse_import_crc_iff [OF ex_fill_writable, of
      "ex_file\<lparr>contents := image_of ex_env True ex_fill_mem ex_fill\<rparr>" ex_mem 3 False] ex_fill_crc
  by (auto simp: ex_fill_chunks ex_sel ex_file_readable)

text \<open>
  The two checksums agree when the image has no don't-care chunk and no fill longer than one
  block (and the block size is a multiple of four): such an image, written with a checksum,
  is accepted by the verifying import.
\<close>

theorem sparse_import_crc_plain:
  assumes "writable env m s" "fills_apart (chunks_of env m s)" "readable f" "pos f = 0"
    and "contents f = image_of env True m s" "length (chunks_of env m s) + 2 \<le> avail m2"
    and "4 dvd unat (sf_block_size s)" "\<forall>c \<in> set (chunks_of env m s). crc_plain c"
  shows "\<exists>s' f' m'. sparse_file_import True fd verbose True f m2 = Some (Some s', f', m')"
  using sparse_file_import_crc(2) [OF chunks_of_readable(1) [OF assms(1,2)] assms(3,4), where d' = "[]"]
    assms(5,6) chunks_of_readable(2) [OF assms(1,2)] writer_crc_plain [OF assms(7,8), of 0]
  by (simp add: image_of_def image_crc_eq written_crc_fold)

theorem sparse_import_crc_plain_witness:
  "\<exists>s' f' m'. sparse_file_import True 3 False True
     (ex_file\<lparr>contents := image_of ex_env True ex_data_mem ex_fill\<rparr>) ex_mem = Some (Some s', f', m')"
  using sparse_import_crc_plain [OF ex_data_writable, of
      "ex_file\<lparr>contents := image_of ex_env True ex_data_mem ex_fill\<rparr>" ex_mem 3 False]
  by (auto simp: ex_data_chunks ex_sel ex_file_readable)

text \<open>
  An image with a checksum chunk cannot be imported without checksum verification: the code
  reads the running checksum through a null pointer when it meets the checksum chunk.
\<close>

theorem sparse_import_crc_null:
  assumes "writable env m s" "fills_apart (chunks_of env m s)" "readable f" "pos f = 0"
    and "contents f = image_of env True m s" "length (chunks_of env m s) + 2 \<le> avail m2"
  shows "sparse_file_import True fd verbose False f m2 = None"
  using sparse_file_import_crc(1) [OF chunks_of_readable(1) [OF assms(1,2)] assms(3,4), where d' = "[]"]
    assms(5,6) chunks_of_readable(2) [OF assms(1,2)] by (simp add: image_of_def)

theorem sparse_import_crc_null_witness:
  "writable ex_env ex_mem ex_sparse \<and> sparse_file_import True 3 False False
     (ex_file\<lparr>contents := image_of ex_env True ex_mem ex_sparse\<rparr>) ex_mem = None"
  using sparse_import_crc_null [OF ex_writable, of
      "ex_file\<lparr>contents := image_of ex_env True ex_mem ex_sparse\<rparr>" ex_mem 3 False] ex_writable
  by (auto simp: ex_chunks ex_sel ex_file_readable)

end
