(* ===== verification/Hashmap.thy ===== *)
theory Hashmap
  imports Prelude "HOL-Library.Multiset"
begin

text \<open>
  \<^verbatim>\<open>libcutils/hashmap.c\<close>: a chained hash table with client-supplied hash and equality functions.
  A key is a pointer, of type \<^typ>\<open>'k\<close>, compared with \<open>=\<close> where the code compares pointers; a value is
  a pointer that may be null, \<^typ>\<open>'v option\<close>.  Each chain belongs to one bucket and is never
  shared, so a bucket is the list of its entries.  \<^verbatim>\<open>size_t\<close> is a 64-bit word, \<^verbatim>\<open>int\<close> a 32-bit
  word; the arithmetic of the secondary hash wraps, as compiled.  \<open>av\<close> counts the allocations
  that still succeed; \<^verbatim>\<open>calloc\<close> refuses an array of pointers beyond \<^verbatim>\<open>PTRDIFF_MAX\<close> bytes.  The mutex is not modelled.
\<close>

section \<open>The table\<close>

record ('k, 'v) entry =
  e_key :: 'k
  e_hash :: u32
  e_value :: "'v option"

record ('k, 'v) hashmap =
  buckets :: "('k, 'v) entry list list"
  bucketCount :: u64
  hash_fn :: "'k \<Rightarrow> u32"
  equals :: "'k \<Rightarrow> 'k \<Rightarrow> bool"
  hm_size :: u64

definition calloc_pointers :: "u64 \<Rightarrow> nat \<Rightarrow> bool" where
  "calloc_pointers n av \<longleftrightarrow> 0 < av \<and> n < 2 ^ 60"

text \<open>The loop that doubles the bucket count until it exceeds the minimum.\<close>

partial_function (option) grow_buckets :: "u64 \<Rightarrow> u64 \<Rightarrow> u64 option" where
  "grow_buckets minimum bc = (if bc \<le> minimum then grow_buckets minimum (push_bit 1 bc) else Some bc)"

declare grow_buckets.simps [code]

definition hashmapCreate ::
  "u64 \<Rightarrow> ('k \<Rightarrow> u32) \<Rightarrow> ('k \<Rightarrow> 'k \<Rightarrow> bool) \<Rightarrow> nat \<Rightarrow> (('k, 'v) hashmap option \<times> nat) option" where
  "hashmapCreate initialCapacity h eq av = (if av = 0 then Some (None, 0)
     else do {
       bc \<leftarrow> grow_buckets (initialCapacity * 4 div 3) 1;
       if \<not> calloc_pointers bc (av - 1) then Some (None, av - 1)
       else Some (Some \<lparr>buckets = replicate (unat bc) [], bucketCount = bc, hash_fn = h, equals = eq,
              hm_size = 0\<rparr>, av - 2) })"

definition hashKey :: "('k, 'v) hashmap \<Rightarrow> 'k \<Rightarrow> u32" where
  "hashKey m key = (let h = hash_fn m key;
       h = h + NOT (push_bit 9 h);
       h = h XOR drop_bit 14 h;
       h = h + push_bit 4 h
     in h XOR drop_bit 10 h)"

definition hashmapSize :: "('k, 'v) hashmap \<Rightarrow> u64" where
  "hashmapSize m = hm_size m"

text \<open>The cast of a negative \<^verbatim>\<open>int\<close> to \<^verbatim>\<open>size_t\<close> extends the sign.\<close>

definition calculateIndex :: "u64 \<Rightarrow> u32 \<Rightarrow> u64" where
  "calculateIndex bc h = scast h AND (bc - 1)"

text \<open>Moving one entry to the front of its new chain.\<close>

definition move_entry ::
  "u64 \<Rightarrow> ('k, 'v) entry \<Rightarrow> ('k, 'v) entry list list \<Rightarrow> ('k, 'v) entry list list" where
  "move_entry bc e bs = (let i = unat (calculateIndex bc (e_hash e)) in bs[i := e # bs ! i])"

text \<open>The last component tells whether the failed allocation set \<^verbatim>\<open>errno\<close> to \<^verbatim>\<open>ENOMEM\<close>.\<close>

definition expandIfNecessary :: "('k, 'v) hashmap \<Rightarrow> nat \<Rightarrow> ('k, 'v) hashmap \<times> nat \<times> bool" where
  "expandIfNecessary m av = (if hm_size m > bucketCount m * 3 div 4 then
       let bc = push_bit 1 (bucketCount m) in
       if \<not> calloc_pointers bc av then (m, av, True)
       else (m\<lparr>buckets := fold (\<lambda>b bs. fold (move_entry bc) b bs) (buckets m) (replicate (unat bc) []),
               bucketCount := bc\<rparr>, av - 1, False)
     else (m, av, False))"

definition hashmapHash :: "byte list \<Rightarrow> u32" where
  "hashmapHash key = fold (\<lambda>c h. h * 31 + scast c) key (of_nat (length key))"

definition equalKeys :: "'k \<Rightarrow> u32 \<Rightarrow> 'k \<Rightarrow> u32 \<Rightarrow> ('k \<Rightarrow> 'k \<Rightarrow> bool) \<Rightarrow> bool" where
  "equalKeys keyA hashA keyB hashB eq =
     (if keyA = keyB then True else if hashA \<noteq> hashB then False else eq keyA keyB)"

section \<open>Operations\<close>

text \<open>The bucket of a key and what \<open>equalKeys\<close> asks of an entry of it.\<close>

definition bucket_of :: "('k, 'v) hashmap \<Rightarrow> 'k \<Rightarrow> nat" where
  "bucket_of m key = unat (calculateIndex (bucketCount m) (hashKey m key))"

definition matches :: "('k, 'v) hashmap \<Rightarrow> 'k \<Rightarrow> ('k, 'v) entry \<Rightarrow> bool" where
  "matches m key e = equalKeys (e_key e) (e_hash e) key (hashKey m key) (equals m)"

fun find_entry :: "(('k, 'v) entry \<Rightarrow> bool) \<Rightarrow> ('k, 'v) entry list \<Rightarrow> ('k, 'v) entry option" where
  "find_entry P [] = None"
| "find_entry P (e # es) = (if P e then Some e else find_entry P es)"

fun update_entry ::
  "(('k, 'v) entry \<Rightarrow> bool) \<Rightarrow> 'v option \<Rightarrow> ('k, 'v) entry list \<Rightarrow> ('k, 'v) entry list" where
  "update_entry P v [] = []"
| "update_entry P v (e # es) = (if P e then e\<lparr>e_value := v\<rparr> # es else e # update_entry P v es)"

fun unlink_entry :: "(('k, 'v) entry \<Rightarrow> bool) \<Rightarrow> ('k, 'v) entry list \<Rightarrow> ('k, 'v) entry list" where
  "unlink_entry P [] = []"
| "unlink_entry P (e # es) = (if P e then es else e # unlink_entry P es)"

definition add_entry ::
  "('k, 'v) hashmap \<Rightarrow> 'k \<Rightarrow> 'v option \<Rightarrow> nat \<Rightarrow> ('k, 'v) hashmap \<times> nat \<times> bool" where
  "add_entry m key value av = (let i = bucket_of m key in
     expandIfNecessary (m\<lparr>buckets := (buckets m)[i := buckets m ! i @
         [\<lparr>e_key = key, e_hash = hashKey m key, e_value = value\<rparr>]],
       hm_size := hm_size m + 1\<rparr>) (av - 1))"

text \<open>The result, the table, the allocations left, and whether \<^verbatim>\<open>errno\<close> is set to \<^verbatim>\<open>ENOMEM\<close>, by the
  function itself or by an allocation that fails on the way.\<close>

definition hashmapPut ::
  "('k, 'v) hashmap \<Rightarrow> 'k \<Rightarrow> 'v option \<Rightarrow> nat \<Rightarrow> 'v option \<times> ('k, 'v) hashmap \<times> nat \<times> bool" where
  "hashmapPut m key value av = (let i = bucket_of m key in
     case find_entry (matches m key) (buckets m ! i) of
       Some e \<Rightarrow> (e_value e, m\<lparr>buckets := (buckets m)[i := update_entry (matches m key) value (buckets m ! i)]\<rparr>,
          av, False)
     | None \<Rightarrow> if av = 0 then (None, m, 0, True)
         else (case add_entry m key value av of (m, av, enomem) \<Rightarrow> (None, m, av, enomem)))"

definition hashmapGet :: "('k, 'v) hashmap \<Rightarrow> 'k \<Rightarrow> 'v option" where
  "hashmapGet m key = (case find_entry (matches m key) (buckets m ! bucket_of m key) of
       Some e \<Rightarrow> e_value e | None \<Rightarrow> None)"

definition hashmapContainsKey :: "('k, 'v) hashmap \<Rightarrow> 'k \<Rightarrow> bool" where
  "hashmapContainsKey m key = (case find_entry (matches m key) (buckets m ! bucket_of m key) of
       Some e \<Rightarrow> True | None \<Rightarrow> False)"

definition hashmapMemoize ::
  "('k, 'v) hashmap \<Rightarrow> 'k \<Rightarrow> ('k \<Rightarrow> 'c \<Rightarrow> 'v option \<times> 'c) \<Rightarrow> 'c \<Rightarrow> nat
    \<Rightarrow> 'v option \<times> ('k, 'v) hashmap \<times> 'c \<times> nat \<times> bool" where
  "hashmapMemoize m key initialValue context av =
     (case find_entry (matches m key) (buckets m ! bucket_of m key) of
       Some e \<Rightarrow> (e_value e, m, context, av, False)
     | None \<Rightarrow> if av = 0 then (None, m, context, 0, True)
         else (case initialValue key context of (value, context) \<Rightarrow>
           (case add_entry m key value av of (m, av, enomem) \<Rightarrow> (value, m, context, av, enomem))))"

definition hashmapRemove :: "('k, 'v) hashmap \<Rightarrow> 'k \<Rightarrow> 'v option \<times> ('k, 'v) hashmap" where
  "hashmapRemove m key = (let i = bucket_of m key in
     case find_entry (matches m key) (buckets m ! i) of
       Some e \<Rightarrow> (e_value e, m\<lparr>buckets := (buckets m)[i := unlink_entry (matches m key) (buckets m ! i)],
          hm_size := hm_size m - 1\<rparr>)
     | None \<Rightarrow> (None, m))"

text \<open>
  The callback returns whether to go on, and its context.  It may remove the entry it is
  called for, whose successor has been read, but no other.
\<close>

fun foreach_entries ::
  "('k \<Rightarrow> 'v option \<Rightarrow> 'c \<Rightarrow> bool \<times> 'c) \<Rightarrow> ('k, 'v) entry list \<Rightarrow> 'c \<Rightarrow> 'c" where
  "foreach_entries cb [] c = c"
| "foreach_entries cb (e # es) c = (case cb (e_key e) (e_value e) c of (go, c) \<Rightarrow>
     if go then foreach_entries cb es c else c)"

definition hashmapForEach ::
  "('k, 'v) hashmap \<Rightarrow> ('k \<Rightarrow> 'v option \<Rightarrow> 'c \<Rightarrow> bool \<times> 'c) \<Rightarrow> 'c \<Rightarrow> 'c" where
  "hashmapForEach m cb c = foreach_entries cb (concat (buckets m)) c"

definition hashmapCurrentCapacity :: "('k, 'v) hashmap \<Rightarrow> u64" where
  "hashmapCurrentCapacity m = bucketCount m * 3 div 4"

definition hashmapCountCollisions :: "('k, 'v) hashmap \<Rightarrow> u64" where
  "hashmapCountCollisions m = sum_list (map (\<lambda>b. of_nat (length b - 1)) (buckets m))"

definition hashmapIntHash :: "u32 \<Rightarrow> u32" where
  "hashmapIntHash key = key"

definition hashmapIntEquals :: "u32 \<Rightarrow> u32 \<Rightarrow> bool" where
  "hashmapIntEquals a b = (a = b)"

section \<open>Well-formed tables\<close>

text \<open>What the table relies on: equality is an equivalence and equal keys have equal hashes.\<close>

definition key_laws :: "('k \<Rightarrow> u32) \<Rightarrow> ('k \<Rightarrow> 'k \<Rightarrow> bool) \<Rightarrow> bool" where
  "key_laws h eq \<longleftrightarrow> (\<forall>a b. eq a b \<longrightarrow> eq b a \<and> h a = h b) \<and> (\<forall>a b c. eq a b \<longrightarrow> eq b c \<longrightarrow> eq a c)"

definition same_key :: "('k, 'v) hashmap \<Rightarrow> 'k \<Rightarrow> 'k \<Rightarrow> bool" where
  "same_key m a b \<longleftrightarrow> a = b \<or> equals m a b"

definition entries :: "('k, 'v) hashmap \<Rightarrow> ('k, 'v) entry list" where
  "entries m = concat (buckets m)"

text \<open>Every entry lies in the bucket of its hash, and no key has two entries.\<close>

definition hm_ok :: "('k, 'v) hashmap \<Rightarrow> bool" where
  "hm_ok m \<longleftrightarrow> key_laws (hash_fn m) (equals m) \<and> length (buckets m) = unat (bucketCount m) \<and>
     bucketCount m \<noteq> 0 \<and> bucketCount m < 2 ^ 60 \<and>
     (\<forall>i < length (buckets m). \<forall>e \<in> set (buckets m ! i).
        e_hash e = hashKey m (e_key e) \<and> bucket_of m (e_key e) = i) \<and>
     distinct (entries m) \<and>
     (\<forall>a \<in> set (entries m). \<forall>b \<in> set (entries m). same_key m (e_key a) (e_key b) \<longrightarrow> a = b) \<and>
     hm_size m = of_nat (length (entries m))"

lemma calculateIndex_less: "bc \<noteq> 0 \<Longrightarrow> calculateIndex bc h < bc"
proof -
  assume "bc \<noteq> 0"
  then have "0 < unat bc"
    by (simp add: unat_gt_0)
  then have "unat (bc - 1) < unat bc"
    by (subst unat_sub) (simp_all add: word_le_nat_alt)
  then have "bc - 1 < bc"
    by (simp add: word_less_nat_alt)
  moreover have "calculateIndex bc h \<le> bc - 1"
    by (simp add: calculateIndex_def word_and_le1)
  ultimately show ?thesis
    by simp
qed

lemma same_key_hash:
  assumes "key_laws (hash_fn m) (equals m)" "same_key m a b"
  shows "hashKey m a = hashKey m b" "bucket_of m a = bucket_of m b"
proof -
  have "hash_fn m a = hash_fn m b"
    using assms unfolding key_laws_def same_key_def by blast
  then show "hashKey m a = hashKey m b"
    by (simp add: hashKey_def)
  then show "bucket_of m a = bucket_of m b"
    by (simp add: bucket_of_def)
qed

lemma same_key_equiv:
  assumes "key_laws (hash_fn m) (equals m)"
  shows "same_key m a a" "same_key m a b \<Longrightarrow> same_key m b a"
    "same_key m a b \<Longrightarrow> same_key m b c \<Longrightarrow> same_key m a c"
  using assms unfolding key_laws_def same_key_def by blast+

lemma hm_okD:
  assumes "hm_ok m"
  shows "key_laws (hash_fn m) (equals m)" "length (buckets m) = unat (bucketCount m)" "bucketCount m \<noteq> 0"
    "distinct (entries m)" "hm_size m = of_nat (length (entries m))"
    "a \<in> set (entries m) \<Longrightarrow> b \<in> set (entries m) \<Longrightarrow> same_key m (e_key a) (e_key b) \<Longrightarrow> a = b"
    "bucketCount m < 2 ^ 60"
  using assms unfolding hm_ok_def by blast+

lemma hm_ok_entry:
  assumes "hm_ok m" "e \<in> set (entries m)"
  shows "e_hash e = hashKey m (e_key e)" "e \<in> set (buckets m ! bucket_of m (e_key e))"
proof -
  obtain i where i: "i < length (buckets m)" "e \<in> set (buckets m ! i)"
    using assms(2) by (auto simp: entries_def in_set_conv_nth [of _ "buckets m"])
  then have "e_hash e = hashKey m (e_key e) \<and> bucket_of m (e_key e) = i"
    using assms(1) unfolding hm_ok_def by blast
  then show "e_hash e = hashKey m (e_key e)" "e \<in> set (buckets m ! bucket_of m (e_key e))"
    using i by auto
qed

lemma bucket_of_less: "hm_ok m \<Longrightarrow> bucket_of m k < length (buckets m)"
  by (simp add: hm_okD(2,3) bucket_of_def calculateIndex_less unat_mono)

lemma bucket_in_entries:
  assumes "hm_ok m" "e \<in> set (buckets m ! bucket_of m k)"
  shows "e \<in> set (entries m)"
  using assms bucket_of_less [OF assms(1), of k] by (auto simp: entries_def)

section \<open>Looking up\<close>

lemma find_entry_Some: "find_entry P es = Some e \<Longrightarrow> e \<in> set es \<and> P e"
  by (induction es) (auto split: if_splits)

lemma find_entry_None: "find_entry P es = None \<longleftrightarrow> (\<forall>e \<in> set es. \<not> P e)"
  by (induction es) auto

lemma matches_iff:
  assumes "hm_ok m" "e \<in> set (entries m)"
  shows "matches m k e \<longleftrightarrow> same_key m (e_key e) k"
  using hm_ok_entry(1) [OF assms] same_key_hash(1) [OF hm_okD(1) [OF assms(1)]]
  by (auto simp: matches_def equalKeys_def same_key_def)

lemma find_iff:
  assumes ok: "hm_ok m"
  shows "find_entry (matches m k) (buckets m ! bucket_of m k) = Some e \<longleftrightarrow>
    e \<in> set (entries m) \<and> same_key m (e_key e) k"
proof
  assume "find_entry (matches m k) (buckets m ! bucket_of m k) = Some e"
  then show "e \<in> set (entries m) \<and> same_key m (e_key e) k"
    using find_entry_Some bucket_in_entries [OF ok] matches_iff [OF ok] by metis
next
  assume e: "e \<in> set (entries m) \<and> same_key m (e_key e) k"
  then have "e \<in> set (buckets m ! bucket_of m k)"
    using hm_ok_entry(2) [OF ok] same_key_hash(2) [OF hm_okD(1) [OF ok]] by metis
  moreover have "matches m k e"
    using e matches_iff [OF ok] by blast
  ultimately obtain d where d: "find_entry (matches m k) (buckets m ! bucket_of m k) = Some d"
    using find_entry_None by (metis not_None_eq)
  then have "d \<in> set (entries m)" "same_key m (e_key d) k"
    using find_entry_Some bucket_in_entries [OF ok] matches_iff [OF ok] by metis+
  then have "d = e"
    using e hm_okD(6) [OF ok] same_key_equiv [OF hm_okD(1) [OF ok]] by metis
  with d show "find_entry (matches m k) (buckets m ! bucket_of m k) = Some e"
    by simp
qed

text \<open>The contents of the table as a finite map: the value of the entry with the same key.\<close>

definition contents_of :: "('k, 'v) hashmap \<Rightarrow> 'k \<Rightarrow> 'v option option" where
  "contents_of m k = map_option e_value (find_entry (matches m k) (buckets m ! bucket_of m k))"

lemma contents_of_iff: "hm_ok m \<Longrightarrow>
    contents_of m k = Some v \<longleftrightarrow> (\<exists>e \<in> set (entries m). same_key m (e_key e) k \<and> e_value e = v)"
  using find_iff [of m k] by (auto simp: contents_of_def)

lemma contents_of_None: "hm_ok m \<Longrightarrow>
    contents_of m k = None \<longleftrightarrow> (\<forall>e \<in> set (entries m). \<not> same_key m (e_key e) k)"
  using find_iff [of m k] by (auto simp: contents_of_def) (metis not_None_eq)

text \<open>Two tables over the same keys with the same entries have the same contents.\<close>

lemma contents_of_cong:
  assumes "hm_ok m" "hm_ok m'" "equals m' = equals m" "set (entries m') = set (entries m)"
  shows "contents_of m' = contents_of m"
proof
  fix k
  have "contents_of m' k = Some v \<longleftrightarrow> contents_of m k = Some v" for v
    using assms by (simp add: contents_of_iff same_key_def)
  then show "contents_of m' k = contents_of m k"
    by (metis not_None_eq)
qed

section \<open>Changing one bucket\<close>

lemma concat_update:
  assumes "i < length bs"
  obtains L R where "concat bs = L @ bs ! i @ R" "\<And>c. concat (bs[i := c]) = L @ c @ R"
proof
  show "concat bs = concat (take i bs) @ bs ! i @ concat (drop (Suc i) bs)"
    using arg_cong [OF id_take_nth_drop [OF assms], of concat] by simp
  show "concat (bs[i := c]) = concat (take i bs) @ c @ concat (drop (Suc i) bs)" for c
    using assms by (simp add: upd_conv_take_nth_drop)
qed

lemma find_entry_split:
  assumes "find_entry P b = Some e"
  obtains xs ys where "b = xs @ e # ys" "unlink_entry P b = xs @ ys"
    "\<And>v. update_entry P v b = xs @ e\<lparr>e_value := v\<rparr> # ys"
  using assms
proof (induction b arbitrary: thesis)
  case (Cons d b)
  show ?case
  proof (cases "P d")
    case True
    then show ?thesis
      using Cons.prems(1) [of "[]" b] Cons.prems(2) by simp
  next
    case False
    then have "find_entry P b = Some e"
      using Cons.prems(2) by simp
    then obtain xs ys where "b = xs @ e # ys" "unlink_entry P b = xs @ ys"
      "\<And>v. update_entry P v b = xs @ e\<lparr>e_value := v\<rparr> # ys"
      using Cons.IH by blast
    then show ?thesis
      using Cons.prems(1) [of "d # xs" ys] False by simp
  qed
qed simp

lemma frame_simps [simp]:
  "hashKey (m\<lparr>buckets := b\<rparr>) = hashKey m" "hashKey (m\<lparr>hm_size := z\<rparr>) = hashKey m"
  "hashKey (m\<lparr>bucketCount := c\<rparr>) = hashKey m"
  "bucket_of (m\<lparr>buckets := b\<rparr>) = bucket_of m" "bucket_of (m\<lparr>hm_size := z\<rparr>) = bucket_of m"
  "same_key (m\<lparr>buckets := b\<rparr>) = same_key m" "same_key (m\<lparr>hm_size := z\<rparr>) = same_key m"
  "same_key (m\<lparr>bucketCount := c\<rparr>) = same_key m"
  by (simp_all add: hashKey_def bucket_of_def same_key_def fun_eq_iff)

text \<open>A table whose bucket \<open>i\<close> is replaced stays well formed when the new chain belongs there.\<close>

lemma hm_ok_bucket:
  assumes ok: "hm_ok m" and i: "i < length (buckets m)"
    and c: "\<forall>e \<in> set c. e_hash e = hashKey m (e_key e) \<and> bucket_of m (e_key e) = i"
    and e: "concat ((buckets m)[i := c]) = es" "distinct es"
      "\<forall>a \<in> set es. \<forall>b \<in> set es. same_key m (e_key a) (e_key b) \<longrightarrow> a = b"
  shows "hm_ok (m\<lparr>buckets := (buckets m)[i := c], hm_size := of_nat (length es)\<rparr>)"
proof -
  have "e_hash e = hashKey m (e_key e) \<and> bucket_of m (e_key e) = j"
    if "j < length (buckets m)" "e \<in> set ((buckets m)[i := c] ! j)" for j e
    using ok c that i unfolding hm_ok_def by (cases "j = i") auto
  then show ?thesis
    using hm_okD(1-3,7) [OF ok] e unfolding hm_ok_def entries_def by simp
qed

lemma entry_cases:
  assumes ok: "hm_ok m" and f: "find_entry (matches m k) (buckets m ! bucket_of m k) = Some e"
  obtains A B where "entries m = A @ e # B"
    "concat ((buckets m)[bucket_of m k := unlink_entry (matches m k) (buckets m ! bucket_of m k)]) = A @ B"
    "\<And>v. concat ((buckets m)[bucket_of m k := update_entry (matches m k) v (buckets m ! bucket_of m k)]) =
      A @ e\<lparr>e_value := v\<rparr> # B"
proof -
  obtain xs ys where "buckets m ! bucket_of m k = xs @ e # ys"
    "unlink_entry (matches m k) (buckets m ! bucket_of m k) = xs @ ys"
    "\<And>v. update_entry (matches m k) v (buckets m ! bucket_of m k) = xs @ e\<lparr>e_value := v\<rparr> # ys"
    using find_entry_split [OF f] by blast
  moreover obtain L R where "concat (buckets m) = L @ buckets m ! bucket_of m k @ R"
    "\<And>c. concat ((buckets m)[bucket_of m k := c]) = L @ c @ R"
    using concat_update [OF bucket_of_less [OF ok]] by blast
  ultimately show thesis
    using that [of "L @ xs" "ys @ R"] by (simp add: entries_def)
qed

lemma bucket_entries:
  assumes "hm_ok m" "e \<in> set (buckets m ! bucket_of m k)"
  shows "e_hash e = hashKey m (e_key e) \<and> bucket_of m (e_key e) = bucket_of m k"
  using assms bucket_of_less [OF assms(1), of k] unfolding hm_ok_def by blast

lemma contents_of_same:
  assumes "hm_ok m" "same_key m k k'"
  shows "contents_of m k' = contents_of m k"
proof -
  have "contents_of m k' = Some v \<longleftrightarrow> contents_of m k = Some v" for v
    unfolding contents_of_iff [OF assms(1)]
    using same_key_equiv(2,3) [OF hm_okD(1) [OF assms(1)]] assms(2) by blast
  then show ?thesis
    by (metis not_None_eq)
qed

lemma unlink_subset: "set (unlink_entry P b) \<subseteq> set b"
  by (induction b) auto

lemma update_members: "x \<in> set (update_entry P v b) \<Longrightarrow> \<exists>y \<in> set b. e_key x = e_key y \<and> e_hash x = e_hash y"
  by (induction b) (auto split: if_splits)

lemma remove_run:
  fixes m :: "('k, 'v) hashmap" and k :: 'k
  assumes ok: "hm_ok m"
  defines "m' \<equiv> snd (hashmapRemove m k)"
  shows "hm_ok m'" "equals m' = equals m" "hash_fn m' = hash_fn m" "bucketCount m' = bucketCount m"
    "contents_of m' k' = (if same_key m k k' then None else contents_of m k')"
    "fst (hashmapRemove m k) = hashmapGet m k"
proof -
  note eqv = same_key_equiv [OF hm_okD(1) [OF ok]]
  show fr: "equals m' = equals m" "hash_fn m' = hash_fn m" "bucketCount m' = bucketCount m"
    "fst (hashmapRemove m k) = hashmapGet m k"
    by (simp_all add: m'_def hashmapRemove_def hashmapGet_def Let_def split: option.splits)
  have "hm_ok m' \<and> contents_of m' k' = (if same_key m k k' then None else contents_of m k')"
  proof (cases "find_entry (matches m k) (buckets m ! bucket_of m k)")
    case None
    then have "m' = m" "contents_of m k = None"
      by (simp_all add: m'_def hashmapRemove_def Let_def contents_of_def)
    then show ?thesis
      using ok contents_of_same [OF ok] by simp
  next
    case (Some e)
    then obtain A B where e: "entries m = A @ e # B"
      "concat ((buckets m)[bucket_of m k := unlink_entry (matches m k) (buckets m ! bucket_of m k)]) = A @ B"
      using entry_cases [OF ok] by metis
    have sz: "hm_size m - 1 = of_nat (length (A @ B))"
      using hm_okD(5) [OF ok] e(1) by simp
    have m': "m' = m\<lparr>buckets := (buckets m)[bucket_of m k := unlink_entry (matches m k) (buckets m ! bucket_of m k)],
        hm_size := of_nat (length (A @ B))\<rparr>"
      using Some sz by (simp add: m'_def hashmapRemove_def Let_def)
    have ek: "same_key m (e_key e) k" "e \<in> set (entries m)"
      using find_iff [OF ok] Some by blast+
    have ok': "hm_ok m'"
      unfolding m'
    proof (rule hm_ok_bucket [OF ok bucket_of_less [OF ok] _ e(2)])
      show "\<forall>x \<in> set (unlink_entry (matches m k) (buckets m ! bucket_of m k)).
          e_hash x = hashKey m (e_key x) \<and> bucket_of m (e_key x) = bucket_of m k"
        using bucket_entries [OF ok] unlink_subset by fastforce
      show "distinct (A @ B)"
        using hm_okD(4) [OF ok] e(1) by simp
      show "\<forall>a \<in> set (A @ B). \<forall>b \<in> set (A @ B). same_key m (e_key a) (e_key b) \<longrightarrow> a = b"
        using hm_okD(6) [OF ok] e(1) by simp
    qed
    have es: "set (entries m') = set (entries m) - {e}" "same_key m' = same_key m"
      using e hm_okD(4) [OF ok] by (auto simp: m' entries_def)
    have "same_key m (e_key x) k' \<longrightarrow> (x = e \<longleftrightarrow> same_key m k k')" if "x \<in> set (entries m)" for x
      using hm_okD(6) [OF ok that ek(2)] ek(1) eqv(2,3) by blast
    then have "contents_of m' k' = Some v \<longleftrightarrow> \<not> same_key m k k' \<and> contents_of m k' = Some v" for v
      unfolding contents_of_iff [OF ok] contents_of_iff [OF ok'] es by blast
    then show ?thesis
      using ok' by (metis not_None_eq)
  qed
  then show "hm_ok m'" "contents_of m' k' = (if same_key m k k' then None else contents_of m k')"
    by simp_all
qed

section \<open>Rehashing\<close>

lemma fold_concat: "fold (\<lambda>b bs. fold f b bs) bss x = fold f (concat bss) x"
  by (induction bss arbitrary: x) simp_all

lemma move_entry_step:
  assumes "length bs = unat bc" "bc \<noteq> 0"
  defines "i \<equiv> \<lambda>e :: ('k, 'v) entry. unat (calculateIndex bc (e_hash e))"
  shows "length (move_entry bc e bs) = unat bc"
    "mset (concat (move_entry bc e bs)) = add_mset e (mset (concat bs))"
    "j < unat bc \<Longrightarrow> set (move_entry bc e bs ! j) = (if i e = j then insert e (set (bs ! j)) else set (bs ! j))"
proof -
  have less: "i e < length bs"
    using calculateIndex_less [OF assms(2)] assms(1) by (simp add: i_def word_less_nat_alt)
  obtain L R where "concat bs = L @ bs ! i e @ R" "\<And>c. concat (bs[i e := c]) = L @ c @ R"
    using concat_update [OF less] by blast
  then show "mset (concat (move_entry bc e bs)) = add_mset e (mset (concat bs))"
    by (simp add: move_entry_def i_def Let_def)
  show "length (move_entry bc e bs) = unat bc"
    "j < unat bc \<Longrightarrow> set (move_entry bc e bs ! j) = (if i e = j then insert e (set (bs ! j)) else set (bs ! j))"
    using assms(1) less by (auto simp: move_entry_def i_def Let_def nth_list_update)
qed

lemma rehash:
  assumes "length bs = unat bc" "bc \<noteq> 0"
  shows "length (fold (move_entry bc) es bs) = unat bc \<and>
    mset (concat (fold (move_entry bc) es bs)) = mset es + mset (concat bs) \<and>
    (\<forall>j < unat bc. \<forall>e \<in> set (fold (move_entry bc) es bs ! j). e \<in> set (bs ! j) \<or> unat (calculateIndex bc (e_hash e)) = j)"
  using assms(1)
proof (induction es arbitrary: bs)
  case (Cons e es)
  note st = move_entry_step [OF Cons.prems assms(2)]
  show ?case
    using Cons.IH [OF st(1)] st(2,3) by (fastforce split: if_splits)
qed simp

lemma expand_run:
  fixes m :: "('k, 'v) hashmap" and av :: nat
  assumes ok: "hm_ok m"
  defines "m' \<equiv> fst (expandIfNecessary m av)"
  shows "hm_ok m'" "contents_of m' = contents_of m" "equals m' = equals m" "hash_fn m' = hash_fn m"
proof -
  let ?bc = "push_bit 1 (bucketCount m)"
  let ?r = "fold (move_entry ?bc) (entries m) (replicate (unat ?bc) [])"
  show fr: "equals m' = equals m" "hash_fn m' = hash_fn m"
    by (simp_all add: m'_def expandIfNecessary_def Let_def)
  have "unat (bucketCount m) < 2 ^ 60"
    using hm_okD(7) [OF ok] by (simp add: word_less_nat_alt)
  then have "unat ?bc = 2 * unat (bucketCount m)"
    by (simp add: push_bit_eq_mult unat_word_ariths)
  moreover have "0 < unat (bucketCount m)"
    using hm_okD(3) [OF ok] by (simp add: unat_gt_0)
  ultimately have nz: "?bc \<noteq> 0"
    by auto
  have e0: "concat (replicate n []) = []" for n :: nat
    by (induction n) simp_all
  have r: "length ?r = unat ?bc" "mset (concat ?r) = mset (entries m)"
    "\<forall>j < unat ?bc. \<forall>e \<in> set (?r ! j). unat (calculateIndex ?bc (e_hash e)) = j"
    using rehash [OF _ nz, of "replicate (unat ?bc) []" "entries m"] by (auto simp: e0)
  have set: "set (concat ?r) = set (entries m)" and dist: "distinct (concat ?r)"
    using r(2) hm_okD(4) [OF ok] mset_eq_setD mset_eq_imp_distinct_iff by blast+
  let ?m = "m\<lparr>buckets := ?r, bucketCount := ?bc\<rparr>"
  have "e_hash e = hashKey m (e_key e)" if "j < length ?r" "e \<in> set (?r ! j)" for j e
    using hm_ok_entry(1) [OF ok] set that by (metis UN_I nth_mem set_concat)
  then have okm: "hm_ok ?m" if "?bc < 2 ^ 60"
    using hm_okD [OF ok] r nz set dist mset_eq_length [OF r(2)] that
    unfolding hm_ok_def entries_def by (simp add: bucket_of_def)
  moreover have "contents_of ?m = contents_of m" if "?bc < 2 ^ 60"
    using ok okm [OF that] set by (intro contents_of_cong) (simp_all add: entries_def)
  moreover have "m' = m \<or> m' = ?m \<and> ?bc < 2 ^ 60"
    by (simp add: m'_def expandIfNecessary_def Let_def fold_concat entries_def calloc_pointers_def)
  ultimately show "hm_ok m'" "contents_of m' = contents_of m"
    using ok by metis+
qed

section \<open>Inserting\<close>

lemma replace_run:
  fixes m :: "('k, 'v) hashmap" and v :: "'v option"
  assumes ok: "hm_ok m" and f: "find_entry (matches m k) (buckets m ! bucket_of m k) = Some e"
  defines "m' \<equiv> m\<lparr>buckets := (buckets m)[bucket_of m k :=
      update_entry (matches m k) v (buckets m ! bucket_of m k)]\<rparr>"
  shows "hm_ok m'" "contents_of m' k' = (if same_key m k k' then Some v else contents_of m k')"
proof -
  note eqv = same_key_equiv [OF hm_okD(1) [OF ok]]
  obtain A B where e: "entries m = A @ e # B"
    "concat ((buckets m)[bucket_of m k := update_entry (matches m k) v (buckets m ! bucket_of m k)]) =
      A @ e\<lparr>e_value := v\<rparr> # B"
    using entry_cases [OF ok f] by metis
  have ek: "same_key m (e_key e) k" "e \<in> set (entries m)"
    using find_iff [OF ok] f by blast+
  have uniq: "x = e" if "x \<in> set (A @ e # B)" "same_key m (e_key x) (e_key e)" for x
    using hm_okD(6) [OF ok, of x e] that e(1) by simp
  have ne: "x \<noteq> e" if "x \<in> set (A @ B)" for x
    using hm_okD(4) [OF ok] e(1) that by auto
  have m': "m' = m\<lparr>buckets := (buckets m)[bucket_of m k := update_entry (matches m k) v (buckets m ! bucket_of m k)],
      hm_size := of_nat (length (A @ e\<lparr>e_value := v\<rparr> # B))\<rparr>"
    using hm_okD(5) [OF ok] e(1) by (simp add: m'_def)
  have apart: "\<not> same_key m (e_key x) (e_key e)" "\<not> same_key m (e_key e) (e_key x)" if "x \<in> set (A @ B)" for x
    using uniq [of x] ne [OF that] that eqv(2) by auto
  have new: "e\<lparr>e_value := v\<rparr> \<notin> set (A @ B)"
    using apart(1) [of "e\<lparr>e_value := v\<rparr>"] eqv(1) by auto
  show ok': "hm_ok m'"
    unfolding m'
  proof (rule hm_ok_bucket [OF ok bucket_of_less [OF ok] _ e(2)])
    show "\<forall>x \<in> set (update_entry (matches m k) v (buckets m ! bucket_of m k)).
        e_hash x = hashKey m (e_key x) \<and> bucket_of m (e_key x) = bucket_of m k"
      using bucket_entries [OF ok] update_members by metis
    show "distinct (A @ e\<lparr>e_value := v\<rparr> # B)"
      using hm_okD(4) [OF ok] e(1) new by simp
    have "same_key m (e_key a) (e_key b) \<longrightarrow> a = b" if "a \<in> set (A @ B)" "b \<in> set (A @ B)" for a b
      using hm_okD(6) [OF ok, of a b] e(1) that by simp
    then show "\<forall>a \<in> set (A @ e\<lparr>e_value := v\<rparr> # B). \<forall>b \<in> set (A @ e\<lparr>e_value := v\<rparr> # B).
        same_key m (e_key a) (e_key b) \<longrightarrow> a = b"
      using apart by simp
  qed
  have es: "set (entries m') = insert (e\<lparr>e_value := v\<rparr>) (set (entries m) - {e})" "same_key m' = same_key m"
    using e hm_okD(4) [OF ok] by (auto simp: m'_def entries_def)
  have "\<forall>x \<in> set (entries m). same_key m (e_key x) k' \<longrightarrow> (x = e \<longleftrightarrow> same_key m k k')"
    using hm_okD(6) [OF ok _ ek(2)] ek(1) eqv(2,3) by blast
  then have others: "(\<exists>x \<in> set (entries m) - {e}. same_key m (e_key x) k' \<and> e_value x = w) \<longleftrightarrow>
      \<not> same_key m k k' \<and> contents_of m k' = Some w" for w
    unfolding contents_of_iff [OF ok] by blast
  have "same_key m (e_key e) k' \<longleftrightarrow> same_key m k k'"
    using ek(1) eqv(2,3) by blast
  then have "contents_of m' k' = Some w \<longleftrightarrow>
      (same_key m k k' \<and> w = v \<or> \<not> same_key m k k' \<and> contents_of m k' = Some w)" for w
    unfolding contents_of_iff [OF ok'] es bex_simps others by auto
  then show "contents_of m' k' = (if same_key m k k' then Some v else contents_of m k')"
    by (metis not_None_eq)
qed

lemma add_run:
  fixes m :: "('k, 'v) hashmap" and v :: "'v option" and av :: nat
  assumes ok: "hm_ok m" and f: "find_entry (matches m k) (buckets m ! bucket_of m k) = None"
  defines "m' \<equiv> fst (add_entry m k v av)"
  shows "hm_ok m'" "contents_of m' k' = (if same_key m k k' then Some v else contents_of m k')"
    "equals m' = equals m" "hash_fn m' = hash_fn m"
proof -
  note eqv = same_key_equiv [OF hm_okD(1) [OF ok]]
  let ?e = "\<lparr>e_key = k, e_hash = hashKey m k, e_value = v\<rparr>" and ?i = "bucket_of m k"
  let ?c = "buckets m ! bucket_of m k @ [\<lparr>e_key = k, e_hash = hashKey m k, e_value = v\<rparr>]"
  obtain L R where lr: "concat (buckets m) = L @ buckets m ! ?i @ R"
    "\<And>c. concat ((buckets m)[?i := c]) = L @ c @ R"
    using concat_update [OF bucket_of_less [OF ok]] by blast
  let ?es = "L @ ?c @ R"
  let ?m = "m\<lparr>buckets := (buckets m)[?i := ?c], hm_size := of_nat (length ?es)\<rparr>"
  have m': "m' = fst (expandIfNecessary ?m (av - 1))"
    using hm_okD(5) [OF ok] lr(1) by (simp add: m'_def add_entry_def Let_def entries_def add.commute)
  have no: "\<not> same_key m (e_key x) k" "\<not> same_key m k (e_key x)" if "x \<in> set (entries m)" for x
    using f find_iff [OF ok, of k x] that eqv(2) by auto
  have fresh: "?e \<notin> set (entries m)"
    using no(1) [of ?e] eqv(1) by auto
  have ok1: "hm_ok ?m"
  proof (rule hm_ok_bucket [OF ok bucket_of_less [OF ok] _ lr(2)])
    show "\<forall>x \<in> set ?c. e_hash x = hashKey m (e_key x) \<and> bucket_of m (e_key x) = ?i"
      using bucket_entries [OF ok] by simp
    show "distinct ?es"
      using hm_okD(4) [OF ok] lr(1) fresh by (auto simp: entries_def)
    show "\<forall>a \<in> set ?es. \<forall>b \<in> set ?es. same_key m (e_key a) (e_key b) \<longrightarrow> a = b"
    proof -
      have "same_key m (e_key a) (e_key b) \<longrightarrow> a = b" if "a \<in> set (entries m)" "b \<in> set (entries m)" for a b
        using hm_okD(6) [OF ok that] by blast
      moreover have "set ?es = insert ?e (set (entries m))"
        using lr(1) by (auto simp: entries_def)
      ultimately show ?thesis
        using no by simp
    qed
  qed
  have es: "set (entries ?m) = insert ?e (set (entries m))"
    using lr by (auto simp: entries_def)
  have "\<forall>x \<in> set (entries m). same_key m (e_key x) k' \<longrightarrow> \<not> same_key m k k'"
    using no(1) eqv(2,3) by blast
  then have "contents_of ?m k' = Some w \<longleftrightarrow>
      (same_key m k k' \<and> w = v \<or> \<not> same_key m k k' \<and> contents_of m k' = Some w)" for w
    unfolding contents_of_iff [OF ok1] es frame_simps bex_simps contents_of_iff [OF ok] by auto
  then have "contents_of ?m k' = (if same_key m k k' then Some v else contents_of m k')"
    by (metis not_None_eq)
  then show "hm_ok m'" "contents_of m' k' = (if same_key m k k' then Some v else contents_of m k')"
    "equals m' = equals m" "hash_fn m' = hash_fn m"
    using expand_run [OF ok1, of "av - 1"] unfolding m' by simp_all
qed

lemma put_run:
  fixes m :: "('k, 'v) hashmap" and v :: "'v option"
  assumes ok: "hm_ok m" and av: "0 < av \<or> contents_of m k \<noteq> None"
  defines "m' \<equiv> fst (snd (hashmapPut m k v av))"
  shows "hm_ok m'" "equals m' = equals m" "hash_fn m' = hash_fn m"
    "contents_of m' k' = (if same_key m k k' then Some v else contents_of m k')"
    "fst (hashmapPut m k v av) = hashmapGet m k"
proof -
  have "hm_ok m' \<and> equals m' = equals m \<and> hash_fn m' = hash_fn m \<and>
    contents_of m' k' = (if same_key m k k' then Some v else contents_of m k') \<and>
    fst (hashmapPut m k v av) = hashmapGet m k"
  proof (cases "find_entry (matches m k) (buckets m ! bucket_of m k)")
    case None
    then have "0 < av" "m' = fst (add_entry m k v av)"
      using av by (auto simp: contents_of_def m'_def hashmapPut_def Let_def split: prod.splits)
    then show ?thesis
      using add_run(1,3,4) [OF ok None, of v av] add_run(2) [OF ok None, of v av k'] None
      by (auto simp: hashmapPut_def hashmapGet_def Let_def split: prod.splits)
  next
    case (Some e)
    then have m': "m' = m\<lparr>buckets := (buckets m)[bucket_of m k :=
        update_entry (matches m k) v (buckets m ! bucket_of m k)]\<rparr>"
      by (simp add: m'_def hashmapPut_def Let_def)
    show ?thesis
      using replace_run(1) [OF ok Some, of v] replace_run(2) [OF ok Some, of v k'] Some unfolding m'
      by (simp add: hashmapPut_def hashmapGet_def Let_def)
  qed
  then show "hm_ok m'" "equals m' = equals m" "hash_fn m' = hash_fn m"
    "contents_of m' k' = (if same_key m k k' then Some v else contents_of m k')"
    "fst (hashmapPut m k v av) = hashmapGet m k"
    by simp_all
qed

lemma put_enomem:
  "2 \<le> av \<Longrightarrow> bucketCount m < 2 ^ 59 \<Longrightarrow> \<not> snd (snd (snd (hashmapPut m k v av)))"
  "av - 2 \<le> fst (snd (snd (hashmapPut m k v av)))"
proof -
  have "push_bit 1 bc < 2 ^ 60" if "bc < 2 ^ 59" for bc :: u64
  proof -
    have "unat bc < 2 ^ 59"
      using that by (simp add: word_less_nat_alt)
    then show ?thesis
      by (simp add: push_bit_eq_mult word_less_nat_alt unat_word_ariths)
  qed
  then show "2 \<le> av \<Longrightarrow> bucketCount m < 2 ^ 59 \<Longrightarrow> \<not> snd (snd (snd (hashmapPut m k v av)))"
    by (auto simp: hashmapPut_def add_entry_def expandIfNecessary_def calloc_pointers_def Let_def
        split: option.splits prod.splits if_splits)
  show "av - 2 \<le> fst (snd (snd (hashmapPut m k v av)))"
    by (auto simp: hashmapPut_def add_entry_def expandIfNecessary_def Let_def split: option.splits prod.splits)
qed

section \<open>Creating a table\<close>

lemma grow_buckets_run:
  assumes "minimum < 2 ^ 63" "k \<le> 63"
  shows "\<exists>n \<le> 63. grow_buckets minimum (2 ^ k) = Some (2 ^ n) \<and> minimum < 2 ^ n"
  using assms(2)
proof (induction "63 - k" arbitrary: k)
  case 0
  then have "k = 63" "\<not> 9223372036854775808 \<le> minimum"
    using assms(1) by (simp_all add: not_le)
  then show ?case
    by (intro exI [of _ 63]) (simp add: grow_buckets.simps [of minimum "9223372036854775808"])
next
  case (Suc j)
  have "push_bit 1 (2 ^ k) = (2 ^ Suc k :: u64)"
    by (simp add: push_bit_eq_mult)
  moreover have "\<exists>n \<le> 63. grow_buckets minimum (2 ^ Suc k) = Some (2 ^ n) \<and> minimum < 2 ^ n"
    using Suc.hyps(1) [of "Suc k"] Suc.hyps(2) Suc.prems by simp
  ultimately show ?case
    using Suc.prems by (auto simp: grow_buckets.simps [of minimum "2 ^ k"] not_le mult.commute)
qed

lemma quarter_bound: "(c :: u64) div 3 < 2 ^ 63"
proof -
  have "unat (c div 3) \<le> (2 ^ 64 - 1) div 3"
    using unsigned_less [of c, where ?'a = nat] by (simp add: unat_div_distrib div_le_mono)
  then show ?thesis
    by (simp add: word_less_nat_alt)
qed

text \<open>
  \<^verbatim>\<open>hashmapCreate\<close> returns for every initial capacity (its doubling loop ends), and when memory
  suffices the new table is well formed, empty, and has a power-of-two number of buckets
  above four thirds of the capacity.
\<close>

theorem hashmapCreate_returns:
  fixes h :: "'k \<Rightarrow> u32"
  assumes "key_laws h eq"
  shows "\<exists>r av'. hashmapCreate cap h eq av = Some (r, av') \<and>
    (case r of None \<Rightarrow> True
     | Some m \<Rightarrow> hm_ok m \<and> contents_of m = (\<lambda>_. None :: 'v option option) \<and> hashmapSize m = 0 \<and>
         cap * 4 div 3 < bucketCount m \<and> (\<exists>n. bucketCount m = 2 ^ n))"
proof (cases "av = 0")
  case False
  obtain n where n: "n \<le> 63" "grow_buckets (cap * 4 div 3) 1 = Some (2 ^ n)" "cap * 4 div 3 < 2 ^ n"
    using grow_buckets_run [OF quarter_bound, of 0] by auto
  let ?m = "\<lparr>buckets = replicate (unat (2 ^ n :: u64)) [], bucketCount = 2 ^ n, hash_fn = h, equals = eq,
    hm_size = 0\<rparr> :: ('k, 'v) hashmap"
  have e0: "concat (replicate j []) = []" for j :: nat
    by (induction j) simp_all
  have nz: "(2 ^ n :: u64) \<noteq> 0"
  proof
    assume "(2 ^ n :: u64) = 0"
    with n(3) show False
      by simp
  qed
  have "hm_ok ?m" if "(2 ^ n :: u64) < 2 ^ 60"
    using assms nz that by (simp add: hm_ok_def entries_def e0)
  moreover from this have "contents_of ?m = (\<lambda>_. None)" if "(2 ^ n :: u64) < 2 ^ 60"
    by (intro ext) (use that in \<open>simp add: contents_of_None entries_def e0\<close>)
  ultimately show ?thesis
    using False n(2,3) by (auto simp: hashmapCreate_def calloc_pointers_def hashmapSize_def)
qed (simp add: hashmapCreate_def)

theorem hashmapCreate_returns_witness:
  "\<exists>r av'. hashmapCreate 5 hashmapIntHash hashmapIntEquals 9 = Some (r, av') \<and>
    (case r of None \<Rightarrow> True
     | Some m \<Rightarrow> hm_ok m \<and> contents_of m = (\<lambda>_. None :: nat option option) \<and> hashmapSize m = 0 \<and>
         6 < bucketCount m \<and> (\<exists>n. bucketCount m = 2 ^ n))"
proof -
  have "key_laws hashmapIntHash hashmapIntEquals"
    by (simp add: key_laws_def hashmapIntEquals_def)
  moreover have "5 * 4 div 3 = (6 :: u64)"
    by simp
  ultimately show ?thesis
    using hashmapCreate_returns [of hashmapIntHash hashmapIntEquals 5 9] by metis
qed

section \<open>The interface of the table\<close>

text \<open>What a client sees: an association of values with keys, up to the equality of keys.\<close>

locale assoc_map =
  fixes ok :: "'m \<Rightarrow> bool"
    and look :: "'m \<Rightarrow> 'k \<Rightarrow> 'v option"
    and same :: "'k \<Rightarrow> 'k \<Rightarrow> bool"
    and put :: "'k \<Rightarrow> 'v \<Rightarrow> 'm \<Rightarrow> 'm"
    and remove :: "'k \<Rightarrow> 'm \<Rightarrow> 'm"
  assumes ok_put: "ok m \<Longrightarrow> ok (put k v m)"
    and look_put: "ok m \<Longrightarrow> look (put k v m) k' = (if same k k' then Some v else look m k')"
    and ok_remove: "ok m \<Longrightarrow> ok (remove k m)"
    and look_remove: "ok m \<Longrightarrow> look (remove k m) k' = (if same k k' then None else look m k')"
begin

definition puts :: "('k \<times> 'v) list \<Rightarrow> 'm \<Rightarrow> 'm" where
  "puts kvs m = fold (\<lambda>(k, v). put k v) kvs m"

lemma ok_puts: "ok m \<Longrightarrow> ok (puts kvs m)"
  unfolding puts_def by (induction kvs arbitrary: m) (auto simp: ok_put)

text \<open>After a run of insertions a key has the value inserted last for it.\<close>

lemma look_puts:
  "ok m \<Longrightarrow> look (puts kvs m) k =
    (case find (\<lambda>(k', v). same k' k) (rev kvs) of Some (_, v) \<Rightarrow> Some v | None \<Rightarrow> look m k)"
proof (induction kvs arbitrary: m rule: rev_induct)
  case Nil
  then show ?case by (simp add: puts_def)
next
  case (snoc kv kvs)
  obtain k' v where kv: "kv = (k', v)"
    by fastforce
  have "look (puts (kvs @ [kv]) m) k = look (put k' v (puts kvs m)) k"
    by (simp add: puts_def kv)
  then show ?case
    using snoc look_put [OF ok_puts [OF snoc.prems]] by (simp add: kv)
qed

lemma remove_put: "ok m \<Longrightarrow> look m k = None \<Longrightarrow> (\<And>k'. same k k' \<Longrightarrow> look m k' = look m k) \<Longrightarrow>
    look (remove k (put k v m)) = look m"
  by (rule ext) (simp add: look_remove look_put ok_put)

end

definition hm_over :: "('k \<Rightarrow> u32) \<Rightarrow> ('k \<Rightarrow> 'k \<Rightarrow> bool) \<Rightarrow> ('k, 'v) hashmap \<Rightarrow> bool" where
  "hm_over h eq m \<longleftrightarrow> hm_ok m \<and> hash_fn m = h \<and> equals m = eq"

definition hm_put :: "'k \<Rightarrow> 'v \<Rightarrow> ('k, 'v) hashmap \<Rightarrow> ('k, 'v) hashmap" where
  "hm_put k v m = fst (snd (hashmapPut m k (Some v) 2))"

definition hm_remove :: "'k \<Rightarrow> ('k, 'v) hashmap \<Rightarrow> ('k, 'v) hashmap" where
  "hm_remove k m = snd (hashmapRemove m k)"

lemma hashmapGet_contents: "hashmapGet m k = (case contents_of m k of Some v \<Rightarrow> v | None \<Rightarrow> None)"
  by (simp add: hashmapGet_def contents_of_def split: option.splits)

lemma hashmapContainsKey_contents: "hashmapContainsKey m k \<longleftrightarrow> contents_of m k \<noteq> None"
  by (simp add: hashmapContainsKey_def contents_of_def split: option.splits)

interpretation hm: assoc_map "hm_over h eq" hashmapGet "\<lambda>a b. a = b \<or> eq a b" hm_put hm_remove for h eq
proof unfold_locales
  fix m :: "('a, 'b) hashmap" and k k' v
  assume m: "hm_over h eq m"
  then have ok: "hm_ok m" "hash_fn m = h" "equals m = eq"
    by (simp_all add: hm_over_def)
  note p = put_run [OF ok(1), of 2 k "Some v"] and r = remove_run [OF ok(1), of k]
  show "hm_over h eq (hm_put k v m)" "hm_over h eq (hm_remove k m)"
    using p(1-3) r(1-3) ok by (simp_all add: hm_over_def hm_put_def hm_remove_def)
  show "hashmapGet (hm_put k v m) k' = (if k = k' \<or> eq k k' then Some v else hashmapGet m k')"
    using p(4) ok(3) by (simp add: hm_put_def hashmapGet_contents same_key_def)
  show "hashmapGet (hm_remove k m) k' = (if k = k' \<or> eq k k' then None else hashmapGet m k')"
    using r(5) ok(3) by (simp add: hm_remove_def hashmapGet_contents same_key_def)
qed

section \<open>What the table promises\<close>

text \<open>An example: integer keys in a table of four buckets.\<close>

definition ex_table :: "(u32, nat) hashmap" where
  "ex_table = \<lparr>buckets = [[], [], [], []], bucketCount = 4, hash_fn = hashmapIntHash,
     equals = hashmapIntEquals, hm_size = 0\<rparr>"

lemma int_key_laws: "key_laws hashmapIntHash hashmapIntEquals"
  by (simp add: key_laws_def hashmapIntEquals_def)

lemma ex_table_over: "hm_over hashmapIntHash hashmapIntEquals ex_table"
  by (simp add: hm_over_def hm_ok_def ex_table_def entries_def int_key_laws nth_Cons' less_Suc_eq)

lemma ex_table_ok: "hm_ok (hm_put 3 30 ex_table)"
  using hm.ok_put [OF ex_table_over, of 3 30] by (simp add: hm_over_def)

text \<open>
  C7: After \<^verbatim>\<open>hashmapPut\<close> of a key, when an allocation is left or the key is present, the table is well
  formed, \<^verbatim>\<open>hashmapGet\<close> and \<^verbatim>\<open>hashmapContainsKey\<close> give the new value for every key equal to it and
  what they gave before for every other key, and the call returned the old value, whether or
  not the table was expanded.  Unless the table has half the maximal number of buckets, two allocations
  are enough for the call not to report \<^verbatim>\<open>ENOMEM\<close>.
\<close>

theorem hashmapPut_get:
  assumes "hm_ok m" "0 < av \<or> hashmapContainsKey m k"
  shows "case hashmapPut m k v av of (old, m', av', enomem) \<Rightarrow>
    hm_ok m' \<and> old = hashmapGet m k \<and> (2 \<le> av \<and> bucketCount m < 2 ^ 59 \<longrightarrow> \<not> enomem) \<and>
    hashmapGet m' k' = (if k = k' \<or> equals m k k' then v else hashmapGet m k') \<and>
    hashmapContainsKey m' k' = (k = k' \<or> equals m k k' \<or> hashmapContainsKey m k')"
proof -
  note p = put_run [OF assms(1), of av k v, OF assms(2) [unfolded hashmapContainsKey_contents]]
  show ?thesis
    using p(1,5) p(4) [of k'] put_enomem(1) [of av m k v] by (cases "hashmapPut m k v av")
      (simp add: hashmapContainsKey_contents hashmapGet_contents [of _ k'] same_key_def)
qed

theorem hashmapPut_get_witness:
  "case hashmapPut (hm_put 3 30 ex_table) 3 (Some 31) 0 of (old, m', av', enomem) \<Rightarrow>
    hm_ok m' \<and> old = Some 30 \<and> hashmapGet m' 3 = Some 31"
proof -
  have g: "hashmapGet (hm_put 3 30 ex_table) 3 = Some 30"
    using hm.look_put [OF ex_table_over, of 3 30 3] by simp
  then have "hashmapContainsKey (hm_put 3 30 ex_table) 3"
    by (simp add: hashmapGet_def hashmapContainsKey_def split: option.splits)
  then show ?thesis
    using hashmapPut_get [OF ex_table_ok, of 0 3 3 "Some 31"] g by (auto split: prod.splits)
qed

text \<open>
  \<^verbatim>\<open>hashmapRemove\<close> returns the value the key had, leaves the table well formed, and afterwards no key
  equal to it is present while every other key keeps its value.
\<close>

theorem hashmapRemove_get:
  assumes "hm_ok m"
  shows "case hashmapRemove m k of (old, m') \<Rightarrow>
    hm_ok m' \<and> old = hashmapGet m k \<and>
    hashmapGet m' k' = (if k = k' \<or> equals m k k' then None else hashmapGet m k') \<and>
    hashmapContainsKey m' k' = (\<not> (k = k' \<or> equals m k k') \<and> hashmapContainsKey m k')"
proof -
  note r = remove_run [OF assms, of k]
  show ?thesis
    using r(1,6) r(5) [of k'] by (cases "hashmapRemove m k")
      (simp add: hashmapContainsKey_contents hashmapGet_contents [of _ k'] same_key_def)
qed

theorem hashmapRemove_get_witness:
  "case hashmapRemove (hm_put 3 30 ex_table) 3 of (old, m') \<Rightarrow> hm_ok m' \<and> old = Some 30 \<and> hashmapGet m' 3 = None"
  using hashmapRemove_get [OF ex_table_ok, of 3 3] hm.look_put [OF ex_table_over, of 3 30 3]
  by (auto split: prod.splits)

text \<open>
  When no allocation is left and the key is absent, \<^verbatim>\<open>hashmapPut\<close> and \<^verbatim>\<open>hashmapMemoize\<close> report
  \<^verbatim>\<open>ENOMEM\<close>, return null and leave the table as it was, the initial value not computed.
\<close>

theorem hashmap_enomem:
  assumes "\<not> hashmapContainsKey m k"
  shows "hashmapPut m k v 0 = (None, m, 0, True) \<and> hashmapMemoize m k f c 0 = (None, m, c, 0, True)"
  using assms
  by (auto simp: hashmapPut_def hashmapMemoize_def hashmapContainsKey_def Let_def split: option.splits)

theorem hashmap_enomem_witness:
  "hashmapPut ex_table 3 (Some 30) 0 = (None, ex_table, 0, True)"
proof -
  have "hm_ok ex_table" "entries ex_table = []"
    using ex_table_over by (simp_all add: hm_over_def entries_def ex_table_def)
  then have "\<not> hashmapContainsKey ex_table 3"
    by (simp add: hashmapContainsKey_contents contents_of_None)
  then show ?thesis
    using hashmap_enomem [of ex_table 3 "Some 30" "\<lambda>k (n :: nat). (None, n)" 0] by simp
qed

text \<open>
  A run of insertions starting from a well-formed table gives each key the value inserted last for
  a key equal to it, however often the table was expanded on the way.
\<close>

theorem hashmap_last_put_wins:
  assumes "hm_over h eq m"
  shows "hashmapGet (fold (\<lambda>(k, v). hm_put k v) kvs m) k =
    (case find (\<lambda>(k', v). k' = k \<or> eq k' k) (rev kvs) of Some (_, v) \<Rightarrow> Some v | None \<Rightarrow> hashmapGet m k)"
  using hm.look_puts [OF assms, of kvs k] by (simp add: hm.puts_def)

theorem hashmap_last_put_wins_witness:
  "hashmapGet (fold (\<lambda>(k, v). hm_put k v) [(1, 10), (2, 20), (3, 30), (4, 40), (5, 50), (2, 21)] ex_table) 2 = Some 21"
  using hashmap_last_put_wins [OF ex_table_over, of "[(1, 10), (2, 20), (3, 30), (4, 40), (5, 50), (2, 21)]" 2]
  by (simp add: hashmapIntEquals_def)

text \<open>
  \<^verbatim>\<open>hashmapForEach\<close> with a callback that always goes on calls it once per entry, and the keys and values
  it is called with are exactly those that \<^verbatim>\<open>hashmapGet\<close> finds.
\<close>

theorem hashmapForEach_visits:
  assumes "hm_ok m"
  shows "case hashmapForEach m (\<lambda>k v c. (True, (k, v) # c)) [] of vs \<Rightarrow>
    distinct vs \<and> of_nat (length vs) = hashmapSize m \<and>
    (\<forall>k v. (k, v) \<in> set vs \<longrightarrow> hashmapContainsKey m k \<and> hashmapGet m k = v) \<and>
    (\<forall>k. hashmapContainsKey m k \<longrightarrow> (\<exists>k'. (k = k' \<or> equals m k' k) \<and> (k', hashmapGet m k) \<in> set vs))"
proof -
  have run: "foreach_entries (\<lambda>k v c. (True, (k, v) # c)) es c = rev (map (\<lambda>e. (e_key e, e_value e)) es) @ c"
    for es :: "('a, 'b) entry list" and c
    by (induction es arbitrary: c) simp_all
  note d = hm_okD [OF assms]
  have "inj_on (\<lambda>e. (e_key e, e_value e)) (set (entries m))"
    by (rule inj_onI) (auto intro!: d(6) simp: same_key_def)
  moreover have in_set: "(k, v) \<in> (\<lambda>e. (e_key e, e_value e)) ` set (entries m) \<Longrightarrow> contents_of m k = Some v" for k v
    using contents_of_iff [OF assms] same_key_equiv(1) [OF d(1)] by fastforce
  moreover have "\<exists>k'. (k = k' \<or> equals m k' k) \<and> (k', v) \<in> (\<lambda>e. (e_key e, e_value e)) ` set (entries m)"
    if "contents_of m k = Some v" for k v
    using that contents_of_iff [OF assms] unfolding same_key_def by force
  ultimately show ?thesis
    using d(4,5)
    by (auto simp: hashmapForEach_def run entries_def [symmetric] distinct_map hashmapSize_def
        hashmapContainsKey_contents hashmapGet_contents)
qed

theorem hashmapForEach_visits_witness:
  "case hashmapForEach (hm_put 3 30 ex_table) (\<lambda>k v c. (True, (k, v) # c)) [] of vs \<Rightarrow>
    distinct vs \<and> of_nat (length vs) = hashmapSize (hm_put 3 30 ex_table)"
  using hashmapForEach_visits [OF ex_table_ok] by simp

text \<open>
  \<^verbatim>\<open>hashmapMemoize\<close>, when an allocation is left, returns the value of a present key without computing
  anything, and otherwise computes the initial value once, stores it under the key and returns
  it; so a second call finds it.
\<close>

theorem hashmapMemoize_get:
  assumes "hm_ok m" "0 < av"
  shows "case hashmapMemoize m k f c av of (v, m', c', av', enomem) \<Rightarrow>
    hm_ok m' \<and> hashmapContainsKey m' k \<and> hashmapGet m' k = v \<and>
    (v, c') = (if hashmapContainsKey m k then (hashmapGet m k, c) else f k c) \<and>
    (k = k' \<or> equals m k k' \<or> hashmapGet m' k' = hashmapGet m k')"
proof (cases "hashmapContainsKey m k")
  case True
  then obtain e where "find_entry (matches m k) (buckets m ! bucket_of m k) = Some e"
    by (auto simp: hashmapContainsKey_def split: option.splits)
  then show ?thesis
    using assms(1) by (simp add: hashmapMemoize_def hashmapGet_def hashmapContainsKey_def)
next
  case False
  then have none: "find_entry (matches m k) (buckets m ! bucket_of m k) = None"
    by (auto simp: hashmapContainsKey_def split: option.splits)
  obtain v c' where f: "f k c = (v, c')"
    by fastforce
  obtain m' av' b where a: "add_entry m k v av = (m', av', b)"
    by (metis prod_cases3)
  have "hashmapPut m k v av = (None, m', av', b)"
    using assms(2) none a by (simp add: hashmapPut_def)
  with put_run [OF assms(1), of av k v] assms(2)
  have "hm_ok m'" "\<And>j. contents_of m' j = (if same_key m k j then Some v else contents_of m j)"
    by simp_all
  then show ?thesis
    using False assms(2) none f a
    by (auto simp: hashmapMemoize_def hashmapContainsKey_contents hashmapGet_contents same_key_def)
qed

theorem hashmapMemoize_get_witness:
  "case hashmapMemoize (hm_put 3 30 ex_table) 4 (\<lambda>k n. (Some (unat k + n), Suc n)) 7 5 of (v, m', c', av', enomem) \<Rightarrow>
    hm_ok m' \<and> hashmapContainsKey m' 4 \<and> hashmapGet m' 4 = v"
  using hashmapMemoize_get [OF ex_table_ok, of 5 4 7 "\<lambda>k n. (Some (unat k + n), Suc n)" 4]
  by (auto split: prod.splits)

end
