(* ===== verification/Cstring.thy ===== *)
theory Cstring
  imports Prelude "HOL-Library.Sublist"
begin

text \<open>
  C strings.  A string is the list of its bytes without the terminating zero; an array of
  characters is the list of all its bytes.  \<^verbatim>\<open>strlcpy\<close> is the implementation of libcutils
  (\<^verbatim>\<open>strlcpy.c\<close>), the other functions are those of the C library.  A number \<open>av\<close> counts the
  allocations that still succeed; an access outside an array is \<^term>\<open>None\<close>.
\<close>

section \<open>Strings and arrays\<close>

type_synonym cstr = "byte list"

definition strdup :: "cstr \<Rightarrow> nat \<Rightarrow> cstr option \<times> nat" where
  "strdup s av = (if av = 0 then (None, 0) else (Some s, av - 1))"

text \<open>The string in an array: undefined without a terminating zero.\<close>

definition cstr_of :: "byte list \<Rightarrow> cstr option" where
  "cstr_of b = (if 0 \<in> set b then Some (takeWhile ((\<noteq>) 0) b) else None)"

text \<open>Whether two arrays hold the same string: the comparison stops at the first difference.\<close>

fun strcmp_eq :: "byte list \<Rightarrow> byte list \<Rightarrow> bool option" where
  "strcmp_eq (c # a) (d # b) = (if c \<noteq> d then Some False else if c = 0 then Some True else strcmp_eq a b)"
| "strcmp_eq _ _ = None"

text \<open>Whether an array starts with the bytes of a string, the comparison of \<^verbatim>\<open>strncmp\<close> with its length.\<close>

fun strncmp_eq :: "byte list \<Rightarrow> cstr \<Rightarrow> bool option" where
  "strncmp_eq b [] = Some True"
| "strncmp_eq [] (d # s) = None"
| "strncmp_eq (c # b) (d # s) = (if c \<noteq> d then Some False else strncmp_eq b s)"

text \<open>\<^verbatim>\<open>strncpy\<close> of a string: \<open>n\<close> bytes, filled up with zeros, without a terminating zero of its own.\<close>

definition strncpy :: "byte list \<Rightarrow> cstr \<Rightarrow> nat \<Rightarrow> byte list option" where
  "strncpy dst src n = (if n \<le> length dst then Some (take n (src @ replicate n 0) @ drop n dst) else None)"

section \<open>Bounded copies\<close>

text \<open>
  The copying loop of \<^verbatim>\<open>strlcpy\<close>: the target, the position in it, the rest of the source and the room
  left.  The result tells whether the room ended before the terminating zero was copied; a
  write outside the target is undefined.
\<close>

fun strlcpy_loop :: "byte list \<Rightarrow> nat \<Rightarrow> cstr \<Rightarrow> nat \<Rightarrow> (byte list \<times> nat \<times> bool) option" where
  "strlcpy_loop dst d src 0 = Some (dst, d, True)"
| "strlcpy_loop dst d src (Suc n) = (if d < length dst then
     (case src of [] \<Rightarrow> Some (dst[d := 0], Suc d, False)
      | c # src \<Rightarrow> strlcpy_loop (dst[d := c]) (Suc d) src n)
   else None)"

definition strlcpy :: "byte list \<Rightarrow> cstr \<Rightarrow> u64 \<Rightarrow> (byte list \<times> u64) option" where
  "strlcpy dst src siz = (if siz = 0 then Some (dst, of_nat (length src))
     else do {
       (dst, d, full) \<leftarrow> strlcpy_loop dst 0 src (unat siz - 1);
       if full then if d < length dst then Some (dst[d := 0], of_nat (length src)) else None
       else Some (dst, of_nat (length src)) })"

lemma strlcpy_loop_run:
  "d + n < length dst \<Longrightarrow> strlcpy_loop dst d src n =
    (if n \<le> length src then Some (take d dst @ take n src @ drop (d + n) dst, d + n, True)
     else Some (take d dst @ src @ 0 # drop (d + length src + 1) dst, d + length src + 1, False))"
proof (induction dst d src n rule: strlcpy_loop.induct)
  case (2 dst d src n)
  show ?case
  proof (cases src)
    case Nil
    then show ?thesis
      using "2.prems" by (simp add: upd_conv_take_nth_drop)
  next
    case (Cons c cs)
    have "take (Suc d) (dst[d := c]) = take d dst @ [c]"
      using "2.prems" by (simp add: take_Suc_conv_app_nth)
    then show ?thesis
      using "2.IH" [OF _ Cons] "2.prems" Cons by simp
  qed
qed simp

text \<open>\<^verbatim>\<open>strlcpy\<close> into a buffer of at least the size given: what fits, a zero, and the length of the source.\<close>

lemma strlcpy_run:
  assumes "siz \<noteq> 0" "unat siz \<le> length dst"
  shows "strlcpy dst src siz = (let n = min (unat siz - 1) (length src) in
    Some (take n src @ 0 # drop (n + 1) dst, of_nat (length src)))"
proof -
  have s: "unat siz - 1 < length dst"
    using assms by (cases "unat siz") (simp_all add: unat_eq_0)
  show ?thesis
  proof (cases "unat siz - 1 \<le> length src")
    case True
    then show ?thesis
      using s assms(1) strlcpy_loop_run [of 0 "unat siz - 1" dst src]
      by (simp add: strlcpy_def Let_def list_update_append min_def Cons_nth_drop_Suc [symmetric])
  next
    case False
    then show ?thesis
      using s assms(1) strlcpy_loop_run [of 0 "unat siz - 1" dst src]
      by (simp add: strlcpy_def Let_def)
  qed
qed

section \<open>Strings in arrays\<close>

text \<open>An array that holds a string.\<close>

definition holds :: "byte list \<Rightarrow> cstr \<Rightarrow> bool" where
  "holds b s \<longleftrightarrow> 0 \<notin> set s \<and> (\<exists>r. b = s @ 0 # r)"

lemma holds_cstr: "cstr_of b = Some s \<longleftrightarrow> holds b s"
proof
  assume "cstr_of b = Some s"
  then have s: "0 \<in> set b" "s = takeWhile ((\<noteq>) 0) b"
    by (auto simp: cstr_of_def split: if_splits)
  then obtain x r where "dropWhile ((\<noteq>) 0) b = x # r"
    by (cases "dropWhile ((\<noteq>) 0) b") auto
  moreover from this have "x = 0"
    using hd_dropWhile [of "(\<noteq>) 0" b] by auto
  ultimately have "b = s @ 0 # r"
    using takeWhile_dropWhile_id [of "(\<noteq>) 0" b] s(2) by simp
  moreover have "0 \<notin> set s"
    by (auto simp: s(2) dest: set_takeWhileD)
  ultimately show "holds b s"
    by (auto simp: holds_def)
next
  assume "holds b s"
  then obtain r where r: "0 \<notin> set s" "b = s @ 0 # r"
    by (auto simp: holds_def)
  then have "takeWhile ((\<noteq>) 0) (s @ 0 # r) = s"
    by (subst takeWhile_append2) auto
  then show "cstr_of b = Some s"
    by (simp add: cstr_of_def r(2))
qed

lemma strcmp_holds:
  assumes "holds a s" "holds b t"
  shows "strcmp_eq a b = Some (s = t)"
proof -
  obtain x y where ab: "0 \<notin> set s" "a = s @ 0 # x" "0 \<notin> set t" "b = t @ 0 # y"
    using assms by (auto simp: holds_def)
  have "strcmp_eq (s @ 0 # x) (t @ 0 # y) = Some (s = t)" if "0 \<notin> set s" "0 \<notin> set t"
    using that
  proof (induction s arbitrary: t)
    case Nil
    then show ?case
      by (cases t) auto
  next
    case (Cons c s)
    then show ?case
      by (cases t) auto
  qed
  then show ?thesis
    using ab by simp
qed

lemma strncmp_holds:
  assumes "holds b s" "0 \<notin> set p"
  shows "strncmp_eq b p = Some (prefix p s)"
proof -
  obtain r where "0 \<notin> set s" "b = s @ 0 # r"
    using assms(1) by (auto simp: holds_def)
  moreover have "strncmp_eq (s @ 0 # r) p = Some (prefix p s)" if "0 \<notin> set p"
    using that
  proof (induction p arbitrary: s)
    case (Cons c p)
    then show ?case
      by (cases s) auto
  qed simp
  ultimately show ?thesis
    using assms(2) by simp
qed

lemma holds_length: "holds b s \<Longrightarrow> length s < length b"
  by (auto simp: holds_def)

lemma holds_unique: "holds b s \<Longrightarrow> holds b t \<Longrightarrow> s = t"
  using holds_cstr by (metis option.inject)

text \<open>A copy into an array of the size given holds what fits.\<close>

lemma strlcpy_holds:
  assumes "0 \<notin> set s" "0 < siz" "siz = length dst" "siz < 2 ^ 64"
  shows "\<exists>b. strlcpy dst s (of_nat siz) = Some (b, of_nat (length s)) \<and> length b = siz \<and>
    holds b (take (siz - 1) s)"
proof -
  have u: "unat (of_nat siz :: u64) = siz" "(of_nat siz :: u64) \<noteq> 0"
    using assms(2,4) by (simp_all add: unsigned_of_nat take_bit_nat_eq_self word_unat_eq_iff)
  let ?n = "min (siz - 1) (length s)"
  have n: "?n < siz"
    using assms(2) by (auto simp: min_def)
  have t: "take ?n s = take (siz - 1) s"
    by (simp add: min_def)
  have "strlcpy dst s (of_nat siz) = Some (take ?n s @ 0 # drop (?n + 1) dst, of_nat (length s))"
    using strlcpy_run [of "of_nat siz" dst s] u assms(3) by (simp add: Let_def)
  moreover have "length (take ?n s @ 0 # drop (?n + 1) dst) = siz"
    using n assms(3) by simp
  moreover have "holds (take ?n s @ 0 # drop (?n + 1) dst) (take (siz - 1) s)"
    using assms(1) unfolding t holds_def by (auto dest: in_set_takeD)
  ultimately show ?thesis
    by blast
qed

lemma strlcpy_zeroed:
  assumes "length s < siz" "siz < 2 ^ 64"
  shows "strlcpy (replicate siz 0) s (of_nat siz) = Some (s @ replicate (siz - length s) 0, of_nat (length s))"
proof -
  have u: "unat (of_nat siz :: u64) = siz" "(of_nat siz :: u64) \<noteq> 0"
    using assms by (simp_all add: unsigned_of_nat take_bit_nat_eq_self word_unat_eq_iff)
  have "siz - length s = Suc (siz - Suc (length s))"
    using assms(1) by simp
  then show ?thesis
    using strlcpy_run [of "of_nat siz" "replicate siz 0" s] u assms(1)
    by (simp add: Let_def min_absorb2 drop_replicate)
qed

lemma holds_padded: "0 \<notin> set s \<Longrightarrow> 0 < k \<Longrightarrow> holds (s @ replicate k 0) s"
  by (cases k) (auto simp: holds_def)

end
