(* ===== verification/Str_Parms.thy ===== *)
theory Str_Parms
  imports Hashmap Cstring
begin

text \<open>
  The parameter strings of libcutils (\<^verbatim>\<open>str_parms.c\<close>): a string
  \<open>key=value;key=value\<close> parsed into a hash table of strings, read and changed there, and
  printed again.

  A number \<open>av\<close> counts the
  allocations that still succeed.  The two functions on \<^verbatim>\<open>float\<close> are not modelled.
\<close>

section \<open>Strings of the C library\<close>

abbreviation chr_semi :: byte where "chr_semi \<equiv> 59"
abbreviation chr_eq :: byte where "chr_eq \<equiv> 61"

text \<open>\<^verbatim>\<open>strtok_r\<close> with the delimiter \<^verbatim>\<open>;\<close>: the next token and the rest behind the delimiter that ends it.\<close>

definition strtok_semi :: "cstr \<Rightarrow> (cstr \<times> cstr) option" where
  "strtok_semi s = (let t = dropWhile ((=) chr_semi) s in
     if t = [] then None
     else Some (takeWhile ((\<noteq>) chr_semi) t, drop 1 (dropWhile ((\<noteq>) chr_semi) t)))"

lemma strtok_shorter: "strtok_semi s = Some (kv, r) \<Longrightarrow> length r < length s"
proof -
  assume a: "strtok_semi s = Some (kv, r)"
  let ?t = "dropWhile ((=) chr_semi) s"
  have "?t \<noteq> []" "r = drop 1 (dropWhile ((\<noteq>) chr_semi) ?t)"
    using a by (auto simp: strtok_semi_def Let_def split: if_splits)
  moreover have "length (dropWhile ((\<noteq>) chr_semi) ?t) \<le> length ?t" "length ?t \<le> length s"
    by (rule length_dropWhile_le)+
  ultimately show "length r < length s"
    by (cases ?t) (auto split: if_splits)
qed

text \<open>\<^verbatim>\<open>%d\<close> and \<^verbatim>\<open>strtol\<close> with base 0, which saturates at the bounds of a 64-bit \<^verbatim>\<open>long\<close>.\<close>

fun dec_digits :: "nat \<Rightarrow> cstr" where
  "dec_digits n = (if n < 10 then [48 + of_nat n] else dec_digits (n div 10) @ [48 + of_nat (n mod 10)])"

declare dec_digits.simps [simp del]

definition print_int :: "u32 \<Rightarrow> cstr" where
  "print_int w = (if sint w < 0 then 45 # dec_digits (nat (- sint w)) else dec_digits (nat (sint w)))"

definition digit_value :: "byte \<Rightarrow> nat option" where
  "digit_value c = (if 48 \<le> c \<and> c \<le> 57 then Some (unat c - 48)
     else if 97 \<le> c \<and> c \<le> 122 then Some (unat c - 87)
     else if 65 \<le> c \<and> c \<le> 90 then Some (unat c - 55) else None)"

definition is_digit :: "nat \<Rightarrow> byte \<Rightarrow> bool" where
  "is_digit base c = (case digit_value c of Some d \<Rightarrow> d < base | None \<Rightarrow> False)"

definition is_space :: "byte \<Rightarrow> bool" where
  "is_space c \<longleftrightarrow> c = 32 \<or> 9 \<le> c \<and> c \<le> 13"

definition read_digits :: "nat \<Rightarrow> cstr \<Rightarrow> nat" where
  "read_digits base ds = foldl (\<lambda>n c. n * base + the (digit_value c)) 0 ds"

text \<open>The value and what is left of the string, the whole of it when there is no number.\<close>

definition strtol0 :: "cstr \<Rightarrow> int \<times> cstr" where
  "strtol0 s = (let t = dropWhile is_space s;
       neg = (t \<noteq> [] \<and> hd t = 45);
       u = (if t \<noteq> [] \<and> (hd t = 45 \<or> hd t = 43) then tl t else t);
       hex = (3 \<le> length u \<and> u ! 0 = 48 \<and> (u ! 1 = 120 \<or> u ! 1 = 88) \<and> is_digit 16 (u ! 2));
       base = (if hex then 16 else if u \<noteq> [] \<and> hd u = 48 then 8 else 10);
       ds = (if hex then drop 2 u else u);
       n = int (read_digits base (takeWhile (is_digit base) ds))
     in if takeWhile (is_digit base) ds = [] then (0, s)
        else (if neg then max (- (2 ^ 63)) (- n) else min (2 ^ 63 - 1) n, dropWhile (is_digit base) ds))"

section \<open>The table of parameters\<close>

type_synonym str_parms = "(cstr, cstr) hashmap"

definition str_eq :: "cstr \<Rightarrow> cstr \<Rightarrow> bool" where
  "str_eq a b = (a = b)"

definition str_hash_fn :: "cstr \<Rightarrow> u32" where
  "str_hash_fn s = fold (\<lambda>c h. (push_bit 5 h + h) + scast c) s 5381"

definition str_parms_create :: "nat \<Rightarrow> (str_parms option \<times> nat) option" where
  "str_parms_create av = (if av = 0 then Some (None, 0) else hashmapCreate 5 str_hash_fn str_eq (av - 1))"

text \<open>
  The callback that removes the entry of a key, or every entry when no key is given.  Its context
  is the table and the list of the keys and values that were freed.
\<close>

type_synonym freed = "(cstr \<times> cstr option) list"

definition remove_pair ::
  "cstr option \<Rightarrow> cstr \<Rightarrow> cstr option \<Rightarrow> str_parms \<times> freed \<Rightarrow> bool \<times> str_parms \<times> freed" where
  "remove_pair wanted key value ctxt = (case ctxt of (m, fr) \<Rightarrow>
     (case wanted of
       None \<Rightarrow> (True, snd (hashmapRemove m key), (key, value) # fr)
     | Some k \<Rightarrow> if k = key then (False, snd (hashmapRemove m key), (key, value) # fr)
         else (True, m, fr)))"

definition str_parms_del :: "str_parms \<Rightarrow> cstr \<Rightarrow> str_parms \<times> freed" where
  "str_parms_del sp key = hashmapForEach sp (remove_pair (Some key)) (sp, [])"

text \<open>The table handed to \<^verbatim>\<open>hashmapFree\<close>, whose entries that function frees without their strings.\<close>

definition str_parms_destroy :: "str_parms \<Rightarrow> str_parms \<times> freed" where
  "str_parms_destroy sp = hashmapForEach sp (remove_pair None) (sp, [])"

text \<open>
  One pair of the parsed string.  Neither allocation is checked: a null value is stored as such; a
  null key, with which every later comparison of keys is undefined, is the value \<^term>\<open>None\<close>.
\<close>

definition put_pair :: "str_parms \<Rightarrow> cstr \<Rightarrow> nat \<Rightarrow> (str_parms \<times> nat) option" where
  "put_pair sp kvpair av = (let eq = dropWhile ((\<noteq>) chr_eq) kvpair in
     if eq = kvpair \<and> eq \<noteq> [] then Some (sp, av)
     else (case strdup (takeWhile ((\<noteq>) chr_eq) kvpair) av of
       (None, av) \<Rightarrow> None
     | (Some key, av) \<Rightarrow> (case strdup (drop 1 eq) av of (value, av) \<Rightarrow>
         (case hashmapPut sp key value av of (old_val, sp, av, _) \<Rightarrow> Some (sp, av)))))"

function create_str_loop :: "str_parms \<Rightarrow> cstr \<Rightarrow> nat \<Rightarrow> (str_parms \<times> nat) option" where
  "create_str_loop sp s av = (case strtok_semi s of None \<Rightarrow> Some (sp, av)
     | Some (kvpair, r) \<Rightarrow> do { (sp, av) \<leftarrow> put_pair sp kvpair av; create_str_loop sp r av })"
  by pat_completeness auto

termination
  by (relation "measure (\<lambda>(sp, s, av). length s)") (auto dest: strtok_shorter)

declare create_str_loop.simps [simp del]

definition str_parms_create_str :: "cstr \<Rightarrow> nat \<Rightarrow> (str_parms option \<times> nat) option" where
  "str_parms_create_str string av = do {
     (sp, av) \<leftarrow> str_parms_create av;
     (case sp of None \<Rightarrow> Some (None, av)
      | Some sp \<Rightarrow> (case strdup string av of
          (None, av) \<Rightarrow> Some (None, av)
        | (Some str, av) \<Rightarrow> do { (sp, av) \<leftarrow> create_str_loop sp str av; Some (Some sp, av) })) }"

text \<open>
  The result, the table, the allocations left, and whether the strings freed at the end are still in
  the table: \<^verbatim>\<open>clean_up\<close> frees \<^verbatim>\<open>tmp_key\<close> and \<^verbatim>\<open>tmp_val\<close> whenever no old value was returned and
  \<^verbatim>\<open>errno\<close> is \<^verbatim>\<open>ENOMEM\<close>, which also holds after the entry was added and only the
  expansion of the table failed.
\<close>

definition str_parms_add_str ::
  "str_parms \<Rightarrow> cstr \<Rightarrow> cstr \<Rightarrow> nat \<Rightarrow> int \<times> str_parms \<times> nat \<times> bool" where
  "str_parms_add_str sp key value av =
     (case strdup key av of
       (None, av) \<Rightarrow> (- ENOMEM, sp, av, False)
     | (Some tmp_key, av) \<Rightarrow> (case strdup value av of
         (None, av) \<Rightarrow> (- ENOMEM, sp, av, False)
       | (Some tmp_val, av) \<Rightarrow> (case hashmapPut sp tmp_key (Some tmp_val) av of
           (None, sp, av, enomem) \<Rightarrow>
             if enomem then (- ENOMEM, sp, av, hashmapContainsKey sp tmp_key) else (0, sp, av, False)
         | (Some old_val, sp, av, enomem) \<Rightarrow> (if enomem then - ENOMEM else 0, sp, av, False))))"

text \<open>\<^verbatim>\<open>snprintf\<close> keeps what fits in the twelve bytes of \<^verbatim>\<open>val_str\<close>.\<close>

definition str_parms_add_int ::
  "str_parms \<Rightarrow> cstr \<Rightarrow> u32 \<Rightarrow> nat \<Rightarrow> int \<times> str_parms \<times> nat \<times> bool" where
  "str_parms_add_int sp key value av = str_parms_add_str sp key (take 11 (print_int value)) av"

definition str_parms_has_key :: "str_parms \<Rightarrow> cstr \<Rightarrow> bool" where
  "str_parms_has_key sp key \<longleftrightarrow> hashmapGet sp key \<noteq> None"

text \<open>The \<^verbatim>\<open>int\<close> length becomes a \<^verbatim>\<open>size_t\<close>, and the length \<^verbatim>\<open>strlcpy\<close> returns an \<^verbatim>\<open>int\<close>.\<close>

definition str_parms_get_str ::
  "str_parms \<Rightarrow> cstr \<Rightarrow> byte list \<Rightarrow> u32 \<Rightarrow> (int \<times> byte list) option" where
  "str_parms_get_str sp key val len = (case hashmapGet sp key of
       Some value \<Rightarrow> do { (val, n) \<leftarrow> strlcpy val value (scast len); Some (sint (ucast n :: u32), val) }
     | None \<Rightarrow> Some (- ENOENT, val))"

text \<open>The result and what is stored in \<^verbatim>\<open>*val\<close>, if anything.\<close>

definition str_parms_get_int :: "str_parms \<Rightarrow> cstr \<Rightarrow> int \<times> u32 option" where
  "str_parms_get_int sp key = (case hashmapGet sp key of
       None \<Rightarrow> (- ENOENT, None)
     | Some value \<Rightarrow> (case strtol0 value of (n, rest) \<Rightarrow>
         (if value \<noteq> [] \<and> rest = [] then 0 else - EINVAL, Some (of_int n))))"

text \<open>
  \<^verbatim>\<open>asprintf\<close> fails without memory and for more than \<^verbatim>\<open>INT_MAX\<close> bytes.  The context is the string
  so far and the allocations left; printing a null value is undefined.
\<close>

definition combine_strings ::
  "cstr \<Rightarrow> cstr option \<Rightarrow> (cstr option \<times> nat) option \<Rightarrow> bool \<times> (cstr option \<times> nat) option" where
  "combine_strings key value ctxt = (case (ctxt, value) of
       (Some (old_str, av), Some v) \<Rightarrow>
         let new_str = (case old_str of Some s \<Rightarrow> s @ [chr_semi] | None \<Rightarrow> []) @ key @ [chr_eq] @ v in
         if 0 < av \<and> int (length new_str) \<le> INT_MAX then (True, Some (Some new_str, av - 1))
         else (False, Some (None, av))
     | _ \<Rightarrow> (False, None))"

definition str_parms_to_str :: "str_parms \<Rightarrow> nat \<Rightarrow> (cstr option \<times> nat) option" where
  "str_parms_to_str sp av = (if hashmapSize sp > 0 then hashmapForEach sp combine_strings (Some (None, av))
     else Some (strdup [] av))"

section \<open>Tables of strings\<close>

text \<open>A table whose values are all strings; what it holds is \<^term>\<open>hashmapGet sp\<close>.\<close>

definition sp_ok :: "str_parms \<Rightarrow> bool" where
  "sp_ok sp \<longleftrightarrow> hm_over str_hash_fn str_eq sp \<and> (\<forall>k. contents_of sp k \<noteq> Some None)"

lemma str_key_laws: "key_laws str_hash_fn str_eq"
  by (simp add: key_laws_def str_eq_def)

lemma sp_okD:
  assumes "sp_ok sp"
  shows "hm_ok sp" "hash_fn sp = str_hash_fn" "equals sp = str_eq" "same_key sp a b \<longleftrightarrow> a = b"
    "contents_of sp k = map_option Some (hashmapGet sp k)"
proof -
  show "hm_ok sp" "hash_fn sp = str_hash_fn" "equals sp = str_eq" "same_key sp a b \<longleftrightarrow> a = b"
    using assms by (auto simp: sp_ok_def hm_over_def same_key_def str_eq_def)
  show "contents_of sp k = map_option Some (hashmapGet sp k)"
  proof (cases "contents_of sp k")
    case (Some v)
    then show ?thesis
      using assms by (cases v) (auto simp: sp_ok_def hashmapGet_contents)
  qed (simp add: hashmapGet_contents)
qed

lemma sp_entries:
  assumes "sp_ok sp"
  shows "hashmapGet sp k = Some v \<longleftrightarrow> (\<exists>e \<in> set (entries sp). e_key e = k \<and> e_value e = Some v)"
    "e \<in> set (entries sp) \<Longrightarrow> \<exists>v. e_value e = Some v" "distinct (map e_key (entries sp))"
proof -
  note d = sp_okD [OF assms]
  have c: "contents_of sp k = Some v' \<longleftrightarrow> (\<exists>e \<in> set (entries sp). e_key e = k \<and> e_value e = v')" for k v'
    using contents_of_iff [OF d(1)] by (simp add: d(4))
  show "hashmapGet sp k = Some v \<longleftrightarrow> (\<exists>e \<in> set (entries sp). e_key e = k \<and> e_value e = Some v)"
    using c [of k "Some v"] d(5) [of k] by auto
  show "\<exists>v. e_value e = Some v" if "e \<in> set (entries sp)"
    using c [of "e_key e" None] assms that unfolding sp_ok_def by (metis not_None_eq)
  show "distinct (map e_key (entries sp))"
    using hm_okD(4,6) [OF d(1)] d(4) by (simp add: distinct_map inj_on_def)
qed

definition entry_pair :: "(cstr, cstr) entry \<Rightarrow> cstr \<times> cstr" where
  "entry_pair e = (e_key e, the (e_value e))"

lemma sp_get_map_of:
  assumes "sp_ok sp"
  shows "hashmapGet sp = map_of (map entry_pair (entries sp))" "distinct (map fst (map entry_pair (entries sp)))"
proof -
  let ?kvs = "map entry_pair (entries sp)"
  show d: "distinct (map fst ?kvs)"
    using sp_entries(3) [OF assms] by (simp add: comp_def entry_pair_def)
  show "hashmapGet sp = map_of ?kvs"
  proof
    fix k
    have "map_of ?kvs k = Some v \<longleftrightarrow> (\<exists>e \<in> set (entries sp). e_key e = k \<and> the (e_value e) = v)" for v
      using d by (subst map_of_eq_Some_iff) (auto simp: entry_pair_def)
    moreover have "the (e_value e) = v \<longleftrightarrow> e_value e = Some v" if "e \<in> set (entries sp)" for e v
      using sp_entries(2) [OF assms that] by auto
    ultimately show "hashmapGet sp k = map_of ?kvs k"
      by (intro option_eqI) (simp add: sp_entries(1) [OF assms] cong: bex_cong)
  qed
qed

lemma sp_put:
  fixes k v
  assumes "sp_ok sp" "0 < av"
  defines "m' \<equiv> fst (snd (hashmapPut sp k (Some v) av))"
  shows "sp_ok m'" "hashmapGet m' = (hashmapGet sp)(k \<mapsto> v)" "fst (hashmapPut sp k (Some v) av) = hashmapGet sp k"
proof -
  note d = sp_okD [OF assms(1)]
  note p = put_run [OF d(1), of av k "Some v", folded m'_def]
  show "sp_ok m'"
    using p(1-4) assms(1,2) d(2-4) by (simp add: sp_ok_def hm_over_def)
  show "hashmapGet m' = (hashmapGet sp)(k \<mapsto> v)"
    using p(4) assms(2) d(4) by (auto simp: hashmapGet_contents fun_eq_iff)
  show "fst (hashmapPut sp k (Some v) av) = hashmapGet sp k"
    using p(5) assms(2) by simp
qed

lemma sp_remove:
  fixes k
  assumes "sp_ok sp"
  defines "m' \<equiv> snd (hashmapRemove sp k)"
  shows "sp_ok m'" "hashmapGet m' = (hashmapGet sp)(k := None)"
proof -
  note d = sp_okD [OF assms(1)]
  note p = remove_run [OF d(1), of k, folded m'_def]
  show "sp_ok m'"
    using p(1-3,5) assms(1) d(2-4) by (simp add: sp_ok_def hm_over_def)
  show "hashmapGet m' = (hashmapGet sp)(k := None)"
    using p(5) d(4) by (auto simp: hashmapGet_contents fun_eq_iff)
qed

lemma grow_five: "grow_buckets 6 1 = Some 8"
  by (simp add: grow_buckets.simps [of 6 1] grow_buckets.simps [of 6 2] grow_buckets.simps [of 6 4]
      grow_buckets.simps [of 6 8])

lemma create_run:
  assumes "3 \<le> av"
  obtains sp where "str_parms_create av = Some (Some sp, av - 3)" "sp_ok sp" "hashmapGet sp = Map.empty"
    "bucketCount sp = 8" "hm_size sp = 0"
proof -
  let ?m = "\<lparr>buckets = replicate 8 [], bucketCount = 8, hash_fn = str_hash_fn, equals = str_eq, hm_size = 0\<rparr> :: str_parms"
  have e: "concat (replicate j []) = []" for j :: nat
    by (induction j) simp_all
  have ok: "hm_ok ?m"
    by (simp add: hm_ok_def entries_def e str_key_laws)
  have c: "contents_of ?m k = None" for k
    using ok by (simp add: contents_of_None entries_def e)
  have "sp_ok ?m" "hashmapGet ?m = Map.empty"
    using ok c by (simp_all add: sp_ok_def hm_over_def hashmapGet_contents fun_eq_iff)
  moreover have "str_parms_create av = Some (Some ?m, av - 3)"
    using assms by (simp add: str_parms_create_def hashmapCreate_def grow_five calloc_pointers_def)
  ultimately show thesis
    using that by simp
qed

section \<open>Parsing\<close>

text \<open>
  What the string means: its parts between semicolons, those that are empty or start with an equals
  sign left out, each split at its first equals sign.
\<close>

fun split_semi :: "cstr \<Rightarrow> cstr list" where
  "split_semi [] = [[]]"
| "split_semi (c # cs) = (if c = chr_semi then [] # split_semi cs
     else (case split_semi cs of p # ps \<Rightarrow> (c # p) # ps | [] \<Rightarrow> [[c]]))"

definition pair_of :: "cstr \<Rightarrow> (cstr \<times> cstr) option" where
  "pair_of kv = (if kv = [] \<or> hd kv = chr_eq then None
     else Some (takeWhile ((\<noteq>) chr_eq) kv, drop 1 (dropWhile ((\<noteq>) chr_eq) kv)))"

definition parm_pairs :: "cstr \<Rightarrow> (cstr \<times> cstr) list" where
  "parm_pairs s = List.map_filter pair_of (split_semi s)"

lemma parm_pairs_Nil [simp]: "parm_pairs [] = []"
  by (simp add: parm_pairs_def map_filter_simps pair_of_def)

lemma split_semi_part:
  assumes "chr_semi \<notin> set p"
  shows "split_semi (p @ chr_semi # r) = p # split_semi r" "split_semi p = [p]"
  using assms by (induction p) simp_all

lemma parm_pairs_part:
  "chr_semi \<notin> set p \<Longrightarrow> parm_pairs (p @ chr_semi # r) = (case pair_of p of None \<Rightarrow> [] | Some kv \<Rightarrow> [kv]) @ parm_pairs r"
  "chr_semi \<notin> set p \<Longrightarrow> parm_pairs p = (case pair_of p of None \<Rightarrow> [] | Some kv \<Rightarrow> [kv])"
  by (simp_all add: parm_pairs_def split_semi_part map_filter_simps split: option.splits)

lemma parm_pairs_skip: "parm_pairs (dropWhile ((=) chr_semi) s) = parm_pairs s"
  by (induction s) (auto simp: parm_pairs_def map_filter_simps pair_of_def)

lemma parm_pairs_strtok:
  "strtok_semi s = None \<Longrightarrow> parm_pairs s = []"
  "strtok_semi s = Some (kv, r) \<Longrightarrow> parm_pairs s = (case pair_of kv of None \<Rightarrow> [] | Some p \<Rightarrow> [p]) @ parm_pairs r"
proof -
  let ?t = "dropWhile ((=) chr_semi) s"
  show "parm_pairs s = []" if "strtok_semi s = None"
  proof -
    have "?t = []"
      using that by (simp add: strtok_semi_def Let_def split: if_splits)
    then show ?thesis
      using parm_pairs_skip [of s] by (simp del: dropWhile_eq_Nil_conv)
  qed
  assume "strtok_semi s = Some (kv, r)"
  then have k: "kv = takeWhile ((\<noteq>) chr_semi) ?t" "r = drop 1 (dropWhile ((\<noteq>) chr_semi) ?t)"
    by (auto simp: strtok_semi_def Let_def split: if_splits)
  define d where "d = dropWhile ((\<noteq>) chr_semi) ?t"
  have n: "chr_semi \<notin> set kv"
    using k(1) by (auto dest: set_takeWhileD)
  have t: "?t = kv @ d" "r = drop 1 d"
    by (simp_all add: k d_def)
  show "parm_pairs s = (case pair_of kv of None \<Rightarrow> [] | Some p \<Rightarrow> [p]) @ parm_pairs r"
  proof (cases d)
    case Nil
    then show ?thesis
      using t parm_pairs_part(2) [OF n] parm_pairs_skip [of s] by simp
  next
    case (Cons c r')
    moreover from Cons have "c = chr_semi"
      using hd_dropWhile [of "(\<noteq>) chr_semi" ?t] by (auto simp: d_def)
    ultimately show ?thesis
      using t parm_pairs_part(1) [OF n, of r] parm_pairs_skip [of s] by simp
  qed
qed

lemma strtok_nonempty: "strtok_semi s = Some (kv, r) \<Longrightarrow> kv \<noteq> []"
proof -
  assume "strtok_semi s = Some (kv, r)"
  then have t: "dropWhile ((=) chr_semi) s \<noteq> []" "kv = takeWhile ((\<noteq>) chr_semi) (dropWhile ((=) chr_semi) s)"
    by (auto simp: strtok_semi_def Let_def split: if_splits)
  then show "kv \<noteq> []"
    using hd_dropWhile [OF t(1)] by (cases "dropWhile ((=) chr_semi) s") auto
qed

lemma put_pair_run:
  assumes "sp_ok sp" "kv \<noteq> []" "pair_of kv \<noteq> None \<Longrightarrow> 4 \<le> av"
  obtains sp' av' where "put_pair sp kv av = Some (sp', av')" "sp_ok sp'"
    "hashmapGet sp' = hashmapGet sp ++ map_of (case pair_of kv of None \<Rightarrow> [] | Some p \<Rightarrow> [p])"
    "av \<le> av' + (case pair_of kv of None \<Rightarrow> 0 | Some p \<Rightarrow> 4)"
proof (cases "hd kv = chr_eq")
  case True
  then have "put_pair sp kv av = Some (sp, av)" "pair_of kv = None"
    using assms(2) by (cases kv; simp add: put_pair_def pair_of_def)+
  then show thesis
    using that [of sp av] assms(1) by simp
next
  case False
  then obtain c cs where kv: "kv = c # cs" "c \<noteq> chr_eq"
    using assms(2) by (cases kv) auto
  have "dropWhile ((\<noteq>) chr_eq) cs \<noteq> c # cs"
    using length_dropWhile_le [of "(\<noteq>) chr_eq" cs] by auto
  then have p: "pair_of kv = Some (takeWhile ((\<noteq>) chr_eq) kv, drop 1 (dropWhile ((\<noteq>) chr_eq) kv))"
    "dropWhile ((\<noteq>) chr_eq) kv \<noteq> kv"
    using kv by (auto simp: pair_of_def)
  let ?k = "takeWhile ((\<noteq>) chr_eq) kv" and ?v = "drop 1 (dropWhile ((\<noteq>) chr_eq) kv)"
  have av: "4 \<le> av"
    using assms(3) p(1) by simp
  obtain old m' av' b where h: "hashmapPut sp ?k (Some ?v) (av - 2) = (old, m', av', b)"
    by (metis prod_cases4)
  have "put_pair sp kv av = Some (m', av')"
    using p(2) av h by (simp add: put_pair_def Let_def strdup_def numeral_2_eq_2)
  moreover have "sp_ok m'" "hashmapGet m' = (hashmapGet sp)(?k \<mapsto> ?v)" "av \<le> av' + 4"
    using sp_put(1,2) [OF assms(1), of "av - 2" ?k ?v] put_enomem(2) [of "av - 2" sp ?k "Some ?v"] av h by simp_all
  ultimately show thesis
    using that p(1) by simp
qed

lemma create_str_loop_run:
  assumes "sp_ok sp" "4 * length (parm_pairs s) \<le> av"
  shows "\<exists>sp' av'. create_str_loop sp s av = Some (sp', av') \<and> sp_ok sp' \<and>
    hashmapGet sp' = hashmapGet sp ++ map_of (rev (parm_pairs s))"
  using assms
proof (induction sp s av rule: create_str_loop.induct)
  case (1 sp s av)
  show ?case
  proof (cases "strtok_semi s")
    case None
    then show ?thesis
      using "1.prems"(1) parm_pairs_strtok(1) by (simp add: create_str_loop.simps [of sp s av])
  next
    case (Some kr)
    obtain kv r where kr: "kr = (kv, r)"
      by fastforce
    have s: "strtok_semi s = Some (kv, r)"
      using Some kr by simp
    note pp = parm_pairs_strtok(2) [OF s]
    have "pair_of kv \<noteq> None \<Longrightarrow> 4 \<le> av"
      using "1.prems"(2) pp by auto
    from put_pair_run [OF "1.prems"(1) strtok_nonempty [OF s] this]
    obtain sp1 av1 where p: "put_pair sp kv av = Some (sp1, av1)" "sp_ok sp1"
      "hashmapGet sp1 = hashmapGet sp ++ map_of (case pair_of kv of None \<Rightarrow> [] | Some p \<Rightarrow> [p])"
      "av \<le> av1 + (case pair_of kv of None \<Rightarrow> 0 | Some p \<Rightarrow> 4)"
      by blast
    have "4 * length (parm_pairs r) \<le> av1"
      using "1.prems"(2) pp p(4) by (auto split: option.splits)
    from "1.IH" [OF s refl p(1) refl p(2) this] obtain sp2 av2 where
      l: "create_str_loop sp1 r av1 = Some (sp2, av2)" "sp_ok sp2"
      "hashmapGet sp2 = hashmapGet sp1 ++ map_of (rev (parm_pairs r))"
      by blast
    have "create_str_loop sp s av = Some (sp2, av2)"
      using s p(1) l(1) by (simp add: create_str_loop.simps [of sp s av])
    moreover have "hashmapGet sp2 = hashmapGet sp ++ map_of (rev (parm_pairs s))"
      unfolding l(3) p(3) pp by (simp split: option.splits)
    ultimately show ?thesis
      using l(2) by blast
  qed
qed

lemma create_str_run:
  assumes "4 + 4 * length (parm_pairs s) \<le> av"
  shows "\<exists>sp av'. str_parms_create_str s av = Some (Some sp, av') \<and> sp_ok sp \<and>
    hashmapGet sp = map_of (rev (parm_pairs s))"
proof -
  have "3 \<le> av"
    using assms by simp
  then obtain sp0 where c: "str_parms_create av = Some (Some sp0, av - 3)" "sp_ok sp0" "hashmapGet sp0 = Map.empty"
    by (rule create_run)
  have "4 * length (parm_pairs s) \<le> av - 3 - 1"
    using assms by simp
  from create_str_loop_run [OF c(2) this] obtain sp av' where
    "create_str_loop sp0 s (av - 3 - 1) = Some (sp, av')" "sp_ok sp" "hashmapGet sp = map_of (rev (parm_pairs s))"
    using c(3) by auto
  moreover have "strdup s (av - 3) = (Some s, av - 3 - 1)"
    using assms by (simp add: strdup_def)
  ultimately show ?thesis
    using c(1) by (simp add: str_parms_create_str_def)
qed

section \<open>Printing\<close>

definition render_pair :: "cstr \<times> cstr \<Rightarrow> cstr" where
  "render_pair kv = fst kv @ [chr_eq] @ snd kv"

fun render :: "(cstr \<times> cstr) list \<Rightarrow> cstr" where
  "render [] = []"
| "render [kv] = render_pair kv"
| "render (kv # kvs) = render_pair kv @ chr_semi # render kvs"

definition plain_pair :: "cstr \<times> cstr \<Rightarrow> bool" where
  "plain_pair kv \<longleftrightarrow> fst kv \<noteq> [] \<and> chr_eq \<notin> set (fst kv) \<and> chr_semi \<notin> set (fst kv) \<and> chr_semi \<notin> set (snd kv)"

lemma plain_pair_of:
  assumes "plain_pair kv"
  shows "pair_of (render_pair kv) = Some kv" "chr_semi \<notin> set (render_pair kv)"
proof -
  obtain k v where kv: "kv = (k, v)"
    by fastforce
  have "chr_eq \<notin> set k" "k \<noteq> []"
    using assms by (simp_all add: plain_pair_def kv)
  then have "takeWhile ((\<noteq>) chr_eq) (k @ chr_eq # v) = k" "dropWhile ((\<noteq>) chr_eq) (k @ chr_eq # v) = chr_eq # v"
    by (subst takeWhile_append2 dropWhile_append2; auto)+
  then show "pair_of (render_pair kv) = Some kv"
    using assms \<open>k \<noteq> []\<close> \<open>chr_eq \<notin> set k\<close> by (auto simp: pair_of_def render_pair_def kv hd_append dest: hd_in_set)
  show "chr_semi \<notin> set (render_pair kv)"
    using assms by (simp add: render_pair_def plain_pair_def)
qed

lemma parm_pairs_render: "\<forall>kv \<in> set kvs. plain_pair kv \<Longrightarrow> parm_pairs (render kvs) = kvs"
  by (induction kvs rule: render.induct) (simp_all add: parm_pairs_part plain_pair_of)

lemma combine_run:
  assumes "length es \<le> av" "\<forall>e \<in> set es. e_value e \<noteq> None"
    "int (length s + length (concat (map (\<lambda>e. chr_semi # render_pair (entry_pair e)) es))) \<le> INT_MAX"
  shows "foreach_entries combine_strings es (Some (Some s, av)) =
    Some (Some (s @ concat (map (\<lambda>e. chr_semi # render_pair (entry_pair e)) es)), av - length es)"
  using assms
proof (induction es arbitrary: s av)
  case (Cons e es)
  obtain v where v: "e_value e = Some v"
    using Cons.prems(2) by auto
  let ?s = "s @ [chr_semi] @ render_pair (e_key e, v)"
  have "combine_strings (e_key e) (e_value e) (Some (Some s, av)) = (True, Some (Some ?s, av - 1))"
    using Cons.prems(1,3) by (simp add: combine_strings_def v render_pair_def entry_pair_def Let_def)
  moreover have "foreach_entries combine_strings es (Some (Some ?s, av - 1)) =
    Some (Some (?s @ concat (map (\<lambda>e. chr_semi # render_pair (entry_pair e)) es)), av - 1 - length es)"
    using Cons.prems v by (intro Cons.IH) (simp_all add: entry_pair_def)
  ultimately show ?case
    by (simp add: v entry_pair_def)
qed simp

lemma render_Cons: "render (kv # kvs) = render_pair kv @ concat (map (\<lambda>kv. chr_semi # render_pair kv) kvs)"
  by (induction kvs arbitrary: kv) simp_all

lemma map_of_distinct_rev: "distinct (map fst kvs) \<Longrightarrow> map_of (rev kvs) = map_of kvs"
  by (rule map_of_eqI) (auto simp: map_of_eq_Some_iff rev_map [symmetric] dest: map_of_SomeD)

lemma length_render: "length kvs \<le> length (render kvs)"
  by (induction kvs rule: render.induct) (simp_all add: render_pair_def)

lemma to_str_run:
  assumes ok: "sp_ok sp" and av: "0 < av" "length (entries sp) \<le> av"
    and len: "int (length (render (map entry_pair (entries sp)))) \<le> INT_MAX"
  shows "\<exists>av'. str_parms_to_str sp av = Some (Some (render (map entry_pair (entries sp))), av')"
proof (cases "entries sp")
  case Nil
  then have "hashmapSize sp = 0"
    using hm_okD(5) [OF sp_okD(1) [OF ok]] by (simp add: hashmapSize_def)
  then show ?thesis
    using Nil av by (simp add: str_parms_to_str_def strdup_def)
next
  case (Cons e es)
  have "length (entries sp) < 2 ^ 64"
    using length_render [of "map entry_pair (entries sp)"] len by simp
  then have "hashmapSize sp > 0"
    using hm_okD(5) [OF sp_okD(1) [OF ok]] Cons
    by (simp add: hashmapSize_def word_less_nat_alt unat_of_nat del: of_nat_Suc)
  have v: "\<forall>e \<in> set (e # es). e_value e \<noteq> None"
    using sp_entries(2) [OF ok] Cons by (metis option.distinct(1))
  have r: "render (map entry_pair (e # es)) = render_pair (entry_pair e) @
      concat (map (\<lambda>e. chr_semi # render_pair (entry_pair e)) es)"
    by (simp add: render_Cons comp_def)
  then have "combine_strings (e_key e) (e_value e) (Some (None, av)) = (True, Some (Some (render_pair (entry_pair e)), av - 1))"
    using v len av Cons by (auto simp: combine_strings_def render_pair_def entry_pair_def Let_def)
  moreover have "foreach_entries combine_strings es (Some (Some (render_pair (entry_pair e)), av - 1)) =
      Some (Some (render (map entry_pair (e # es))), av - 1 - length es)"
    using v len av Cons unfolding r by (intro combine_run) (simp_all add: render_Cons comp_def)
  ultimately show ?thesis
    using \<open>hashmapSize sp > 0\<close> Cons by (simp add: str_parms_to_str_def hashmapForEach_def entries_def)
qed

section \<open>What the parameters promise\<close>

text \<open>
  C11: Parsing a string, with memory for it, gives the table in which a key has the value of the last
  of the parts \<open>key=value\<close> between the semicolons that have this key; a part without equals sign
  is a key with the empty value, and empty parts and parts that start with an equals sign are
  skipped.
\<close>

theorem str_parms_create_str_get:
  assumes "4 + 4 * length (parm_pairs s) \<le> av"
  shows "\<exists>sp av'. str_parms_create_str s av = Some (Some sp, av') \<and> sp_ok sp \<and>
    (\<forall>k. hashmapGet sp k = map_of (rev (parm_pairs s)) k \<and>
         str_parms_has_key sp k = (k \<in> fst ` set (parm_pairs s)))"
proof -
  obtain sp av' where "str_parms_create_str s av = Some (Some sp, av')" "sp_ok sp"
    "hashmapGet sp = map_of (rev (parm_pairs s))"
    using create_str_run [OF assms] by blast
  then show ?thesis
    by (simp add: str_parms_has_key_def map_of_eq_None_iff del: not_None_eq)
qed

text \<open>The string \<open>a=1;b;;=x;a=2\<close>.\<close>

definition ex_parms :: cstr where
  "ex_parms = [97, 61, 49, 59, 98, 59, 59, 61, 120, 59, 97, 61, 50]"

lemma ex_parms_pairs: "parm_pairs ex_parms = [([97], [49]), ([98], []), ([97], [50])]"
  by (simp add: ex_parms_def parm_pairs_def map_filter_simps pair_of_def)

theorem str_parms_create_str_get_witness:
  "\<exists>sp av'. str_parms_create_str ex_parms 16 = Some (Some sp, av') \<and>
    hashmapGet sp [97] = Some [50] \<and> hashmapGet sp [98] = Some [] \<and> hashmapGet sp [99] = None"
  using str_parms_create_str_get [of ex_parms 16] by (fastforce simp: ex_parms_pairs)

text \<open>
  C12: Printing a table and parsing the string again gives a table with the same parameters, when no key is
  empty or has an equals sign, neither keys nor values have a semicolon, the printed string has at
  most \<^verbatim>\<open>INT_MAX\<close> bytes and there is memory for it.  Nothing keeps other keys and values out of a
  table: \<open>str_parms_semicolon\<close> below shows one that is not printed faithfully.
\<close>

theorem str_parms_to_str_create_str:
  assumes "sp_ok sp" "0 < av" "length (entries sp) \<le> av"
    and "int (length (render (map entry_pair (entries sp)))) \<le> INT_MAX"
    and "\<forall>k v. hashmapGet sp k = Some v \<longrightarrow> plain_pair (k, v)"
    and "4 + 4 * length (entries sp) \<le> av2"
  shows "\<exists>s av' sp' av3. str_parms_to_str sp av = Some (Some s, av') \<and>
    str_parms_create_str s av2 = Some (Some sp', av3) \<and> sp_ok sp' \<and> hashmapGet sp' = hashmapGet sp"
proof -
  let ?kvs = "map entry_pair (entries sp)"
  have "plain_pair kv" if "kv \<in> set ?kvs" for kv
    using that assms(5) map_of_is_SomeI [OF sp_get_map_of(2) [OF assms(1)]] sp_get_map_of(1) [OF assms(1)]
    by (metis prod.collapse)
  then have p: "parm_pairs (render ?kvs) = ?kvs"
    by (intro parm_pairs_render) blast
  obtain av' where "str_parms_to_str sp av = Some (Some (render ?kvs), av')"
    using to_str_run [OF assms(1-4)] by blast
  moreover obtain sp' av3 where "str_parms_create_str (render ?kvs) av2 = Some (Some sp', av3)" "sp_ok sp'"
    "hashmapGet sp' = map_of (rev ?kvs)"
    using create_str_run [of "render ?kvs" av2] assms(6) p by auto
  moreover have "map_of (rev ?kvs) = map_of ?kvs"
    using sp_get_map_of(2) [OF assms(1)] by (intro map_of_distinct_rev)
  ultimately show ?thesis
    using sp_get_map_of(1) [OF assms(1)] by auto
qed

text \<open>A table with two parameters.\<close>

definition ex_sp :: str_parms where
  "ex_sp = hm_put [98] [50] (hm_put [97] [49, 61] \<lparr>buckets = replicate 8 [], bucketCount = 8,
     hash_fn = str_hash_fn, equals = str_eq, hm_size = 0\<rparr>)"

lemma empty_sp_ok:
  "sp_ok \<lparr>buckets = replicate 8 [], bucketCount = 8, hash_fn = str_hash_fn, equals = str_eq, hm_size = 0\<rparr>"
  using create_run [of 3] by (auto simp: str_parms_create_def hashmapCreate_def grow_five calloc_pointers_def)

lemma hm_put_ok:
  assumes "sp_ok sp"
  shows "sp_ok (hm_put k v sp)" "hashmapGet (hm_put k v sp) = (hashmapGet sp)(k \<mapsto> v)"
  using sp_put(1,2) [OF assms, of 2 k v] by (simp_all add: hm_put_def)

lemma ex_sp_ok: "sp_ok ex_sp"
  by (simp add: ex_sp_def hm_put_ok empty_sp_ok)

lemma ex_sp_table: "map entry_pair (entries ex_sp) = [([97], [49, 61]), ([98], [50])]"
  by code_simp

lemma ex_sp_get: "hashmapGet ex_sp = [[97] \<mapsto> [49, 61], [98] \<mapsto> [50]]"
  using sp_get_map_of(1) [OF ex_sp_ok] by (auto simp: ex_sp_table fun_eq_iff)

theorem str_parms_to_str_create_str_witness:
  "\<exists>s av' sp' av3. str_parms_to_str ex_sp 5 = Some (Some s, av') \<and>
    str_parms_create_str s 12 = Some (Some sp', av3) \<and> sp_ok sp' \<and> hashmapGet sp' = [[97] \<mapsto> [49, 61], [98] \<mapsto> [50]]"
proof -
  have "length (entries ex_sp) = 2"
    using arg_cong [OF ex_sp_table, of length] by simp
  moreover have "\<forall>k v. hashmapGet ex_sp k = Some v \<longrightarrow> plain_pair (k, v)"
    by (simp add: ex_sp_get plain_pair_def)
  ultimately show ?thesis
    using str_parms_to_str_create_str [OF ex_sp_ok, of 5 12] by (simp add: ex_sp_table ex_sp_get render_pair_def)
qed

text \<open>
  A value with a semicolon does not survive: \<^verbatim>\<open>str_parms_add_str\<close> stores \<open>a;b\<close> under a key, and after printing and
  parsing the key has the value \<open>a\<close> and there is a new key \<open>b\<close>.
\<close>

theorem str_parms_semicolon:
  "case str_parms_add_str \<lparr>buckets = replicate 8 [], bucketCount = 8, hash_fn = str_hash_fn, equals = str_eq, hm_size = 0\<rparr>
       [107] [97, chr_semi, 98] 4 of (ret, sp, _) \<Rightarrow>
     ret = 0 \<and> hashmapGet sp [107] = Some [97, chr_semi, 98] \<and>
     (case str_parms_to_str sp 5 of Some (Some s, _) \<Rightarrow>
        (case str_parms_create_str s 16 of Some (Some sp', _) \<Rightarrow>
           hashmapGet sp' [107] = Some [97] \<and> hashmapGet sp' [98] = Some []
         | _ \<Rightarrow> False)
      | _ \<Rightarrow> False)"
  by code_simp

section \<open>Changing and reading parameters\<close>

lemma add_str_run:
  assumes "sp_ok sp" "4 \<le> av" "bucketCount sp < 2 ^ 59"
  obtains sp' av' where "str_parms_add_str sp k v av = (0, sp', av', False)" "sp_ok sp'"
    "hashmapGet sp' = (hashmapGet sp)(k \<mapsto> v)"
proof -
  obtain old m' av' b where h: "hashmapPut sp k (Some v) (av - 2) = (old, m', av', b)"
    by (metis prod_cases4)
  then have "sp_ok m'" "hashmapGet m' = (hashmapGet sp)(k \<mapsto> v)" "\<not> b"
    using sp_put(1,2) [OF assms(1), of "av - 2" k v] put_enomem(1) [of "av - 2" sp k "Some v"] assms(2,3) by simp_all
  moreover from this have "str_parms_add_str sp k v av = (0, m', av', False)"
    using assms(2) h by (simp add: str_parms_add_str_def strdup_def numeral_2_eq_2 split: option.splits)
  ultimately show thesis
    using that by blast
qed

lemma int_result: "length v < 2 ^ 31 \<Longrightarrow> sint (ucast (of_nat (length v) :: u64) :: u32) = int (length v)"
proof -
  assume "length v < 2 ^ 31"
  then have "ucast (of_nat (length v) :: u64) = (of_nat (length v) :: u32)"
    by (simp add: word_unat_eq_iff unsigned_ucast_eq unsigned_of_nat take_bit_nat_eq_self)
  with \<open>length v < 2 ^ 31\<close> show ?thesis
    by (simp add: signed_of_nat signed_take_bit_int_eq_self)
qed

lemma unat_len: "0 < sint (len :: u32) \<Longrightarrow> unat (scast len :: u64) = unat len \<and> (scast len :: u64) \<noteq> 0"
proof -
  assume "0 < sint len"
  then have "take_bit 32 (sint len) = sint len"
    using sint_lt [of len] by (simp add: take_bit_int_eq_self)
  then have s: "sint len = uint len" "0 < uint len"
    using \<open>0 < sint len\<close> by (simp_all add: uint_sint)
  have "uint (scast len :: u64) = uint len"
    by (simp add: scast_eq s(1) uint_up_ucast is_up)
  then show ?thesis
    using s(2) by (metis nat_uint_eq order_less_irrefl unsigned_0)
qed

text \<open>
  After \<^verbatim>\<open>str_parms_add_str\<close>, with memory for it, the key has the new value, every other parameter is
  unchanged, and \<^verbatim>\<open>str_parms_get_str\<close> of the key returns the value's length and fills the buffer with
  as much of the value as fits in front of the terminating zero.
\<close>

theorem str_parms_add_get_str:
  assumes "sp_ok sp" "4 \<le> av" "bucketCount sp < 2 ^ 59" "length v < 2 ^ 31"
    and "0 < sint len" "unat len \<le> length val"
  shows "case str_parms_add_str sp k v av of (ret, sp', av', dangling) \<Rightarrow>
    ret = 0 \<and> \<not> dangling \<and> sp_ok sp' \<and> hashmapGet sp' = (hashmapGet sp)(k \<mapsto> v) \<and>
    (let n = min (unat len - 1) (length v) in
     str_parms_get_str sp' k val len = Some (int (length v), take n v @ 0 # drop (n + 1) val))"
proof -
  obtain sp' av' where "str_parms_add_str sp k v av = (0, sp', av', False)" "sp_ok sp'"
    "hashmapGet sp' = (hashmapGet sp)(k \<mapsto> v)"
    by (rule add_str_run [OF assms(1-3)])
  then show ?thesis
    using strlcpy_run [of "scast len" val v] unat_len [OF assms(5)] assms(4,6)
    by (simp add: str_parms_get_str_def Let_def int_result del: of_nat_Suc)
qed

theorem str_parms_add_get_str_witness:
  "case str_parms_add_str ex_sp [97] [104, 105] 4 of (ret, sp', av', dangling) \<Rightarrow>
    ret = 0 \<and> \<not> dangling \<and> str_parms_get_str sp' [97] [1, 1, 1, 1] 2 = Some (2, [104, 0, 1, 1])"
proof -
  have "bucketCount ex_sp = 8"
    by code_simp
  then show ?thesis
    using str_parms_add_get_str [OF ex_sp_ok, of 4 "[104, 105]" 2 "[1, 1, 1, 1]" "[97]"] by auto
qed

text \<open>
  C36: When the entry of a new key could be allocated but the table must be expanded and no memory is left
  for it, \<^verbatim>\<open>str_parms_add_str\<close> reports \<^verbatim>\<open>ENOMEM\<close> and frees the key and the value although the table
  holds the new entry with them.
\<close>

theorem str_parms_add_str_dangling:
  assumes "sp_ok sp" "hashmapGet sp k = None" "hm_size sp + 1 > bucketCount sp * 3 div 4"
  shows "\<exists>sp'. str_parms_add_str sp k v 3 = (- ENOMEM, sp', 0, True) \<and> hashmapGet sp' k = Some v"
proof -
  note d = sp_okD [OF assms(1)]
  have "find_entry (matches sp k) (buckets sp ! bucket_of sp k) = None"
    using d(5) [of k] assms(2) by (simp add: contents_of_def)
  then obtain sp' where h: "hashmapPut sp k (Some v) 1 = (None, sp', 0, True)"
    using assms(3) by (simp add: hashmapPut_def add_entry_def expandIfNecessary_def calloc_pointers_def Let_def)
  moreover from this have g: "hashmapGet sp' k = Some v"
    using sp_put(2) [OF assms(1), of 1 k v] by simp
  moreover from g have "hashmapContainsKey sp' k"
    by (simp add: hashmapGet_contents hashmapContainsKey_contents split: option.splits)
  ultimately show ?thesis
    by (simp add: str_parms_add_str_def strdup_def)
qed

definition ex_full_sp :: str_parms where
  "ex_full_sp = hm_put [99] [] (hm_put [100] [] (hm_put [101] [] (hm_put [102] [] ex_sp)))"

lemma ex_full_sp_ok: "sp_ok ex_full_sp"
  by (simp add: ex_full_sp_def hm_put_ok ex_sp_ok)

theorem str_parms_add_str_dangling_witness:
  "\<exists>sp'. str_parms_add_str ex_full_sp [103] [120] 3 = (- ENOMEM, sp', 0, True) \<and> hashmapGet sp' [103] = Some [120]"
proof (rule str_parms_add_str_dangling [OF ex_full_sp_ok])
  show "hashmapGet ex_full_sp [103] = None"
    by (simp add: ex_full_sp_def hm_put_ok ex_sp_ok ex_sp_get)
  show "hm_size ex_full_sp + 1 > bucketCount ex_full_sp * 3 div 4"
    by code_simp
qed

subsection \<open>Integers\<close>

lemma dec_digit:
  assumes "d < 10"
  shows "digit_value (48 + of_nat d) = Some d" "48 \<le> (48 + of_nat d :: byte)" "(48 + of_nat d :: byte) \<le> 57"
proof -
  have "unat (48 + of_nat d :: byte) = 48 + d"
    using assms by (simp add: unat_word_ariths unsigned_of_nat take_bit_nat_eq_self)
  then show "digit_value (48 + of_nat d) = Some d" "48 \<le> (48 + of_nat d :: byte)" "(48 + of_nat d :: byte) \<le> 57"
    using assms by (simp_all add: digit_value_def word_le_nat_alt)
qed

lemma dec_digits_run:
  "read_digits 10 (dec_digits n) = n \<and> (\<forall>c \<in> set (dec_digits n). is_digit 10 c \<and> 48 \<le> c \<and> c \<le> 57) \<and>
    dec_digits n \<noteq> [] \<and> (hd (dec_digits n) = 48 \<longrightarrow> n = 0) \<and> (n < 10 ^ Suc m \<longrightarrow> length (dec_digits n) \<le> Suc m)"
proof (induction n arbitrary: m rule: dec_digits.induct)
  case (1 n)
  show ?case
  proof (cases "n < 10")
    case True
    have "(48 + of_nat n :: byte) = 48 \<longrightarrow> n = 0"
      using dec_digit(1) [OF True] dec_digit(1) [of 0] by auto
    then show ?thesis
      using True dec_digit [OF True] by (simp add: dec_digits.simps [of n] read_digits_def is_digit_def)
  next
    case False
    have d: "n mod 10 < 10"
      by simp
    have "length (dec_digits (n div 10)) \<le> m" if "n < 10 ^ Suc m"
    proof (cases m)
      case (Suc j)
      then have "n div 10 < 10 ^ Suc j"
        using that by (simp add: less_mult_imp_div_less mult.commute)
      then show ?thesis
        using "1.IH" [OF False, of j] Suc by blast
    qed (use that False in simp)
    then show ?thesis
      using False "1.IH" [OF False, of m] dec_digit [OF d]
      by (auto simp: dec_digits.simps [of n] read_digits_def is_digit_def)
  qed
qed

lemma strtol_digits:
  assumes "n < 2 ^ 63"
  shows "strtol0 (dec_digits n) = (int n, [])" "strtol0 (45 # dec_digits n) = (- int n, [])"
proof -
  let ?d = "dec_digits n"
  have r: "read_digits 10 ?d = n" "?d \<noteq> []" "\<forall>c \<in> set ?d. is_digit 10 c" "\<forall>c \<in> set ?d. 48 \<le> c \<and> c \<le> 57"
    "hd ?d = 48 \<Longrightarrow> n = 0"
    using dec_digits_run [of n] by blast+
  have h: "48 \<le> hd ?d" "hd ?d \<le> 57"
    using r(2,4) by simp_all
  have sp: "dropWhile is_space ?d = ?d" "hd ?d \<noteq> 45" "hd ?d \<noteq> 43"
    using h r(2) by (cases ?d; auto simp: is_space_def word_le_nat_alt)+
  have t: "takeWhile (is_digit 10) ?d = ?d" "dropWhile (is_digit 10) ?d = []"
    using r(3) by (simp_all add: takeWhile_eq_all_conv)
  have "strtol0 ?d = (int n, []) \<and> strtol0 (45 # ?d) = (- int n, [])"
  proof (cases "hd ?d = 48")
    case True
    then have "n = 0" 
      by (rule r(5))
    then show ?thesis
      by (simp add: dec_digits.simps [of 0] strtol0_def is_space_def is_digit_def digit_value_def
          read_digits_def Let_def)
  next
    case False
    then have "?d ! 0 \<noteq> 48"
      using r(2) by (simp add: hd_conv_nth)
    then show ?thesis
      using False r(1,2) sp assms by (simp add: strtol0_def is_space_def t Let_def)
  qed
  then show "strtol0 ?d = (int n, [])" "strtol0 (45 # ?d) = (- int n, [])"
    by blast+
qed

lemma strtol_print: "strtol0 (take 11 (print_int w)) = (sint w, [])" "print_int w \<noteq> []"
proof -
  have b: "- (2 ^ 31) \<le> sint w" "sint w < 2 ^ 31"
    using sint_ge [of w] sint_lt [of w] by simp_all
  have l: "length (dec_digits n) \<le> 10" if "n \<le> 2 ^ 31" for n
    using dec_digits_run [of n 9] that by simp
  have "length (print_int w) \<le> 11"
    using l [of "nat (sint w)"] l [of "nat (- sint w)"] b by (auto simp: print_int_def nat_le_iff)
  then show "strtol0 (take 11 (print_int w)) = (sint w, [])"
    using b strtol_digits [of "nat (sint w)"] strtol_digits [of "nat (- sint w)"]
    by (simp add: print_int_def nat_less_iff)
  show "print_int w \<noteq> []"
    using dec_digits_run by (simp add: print_int_def)
qed

text \<open>
  An integer added with \<^verbatim>\<open>str_parms_add_int\<close>, with memory for it, is read back by
  \<^verbatim>\<open>str_parms_get_int\<close>, whatever its value: the printed number fits the local buffer and is parsed
  as a decimal number.
\<close>

theorem str_parms_add_get_int:
  assumes "sp_ok sp" "4 \<le> av" "bucketCount sp < 2 ^ 59"
  shows "case str_parms_add_int sp k w av of (ret, sp', av', dangling) \<Rightarrow>
    ret = 0 \<and> str_parms_get_int sp' k = (0, Some w)"
proof -
  obtain sp' av' where "str_parms_add_str sp k (take 11 (print_int w)) av = (0, sp', av', False)"
    "hashmapGet sp' = (hashmapGet sp)(k \<mapsto> take 11 (print_int w))"
    by (rule add_str_run [OF assms])
  then show ?thesis
    using strtol_print [of w] by (simp add: str_parms_add_int_def str_parms_get_int_def)
qed

theorem str_parms_add_get_int_witness:
  "case str_parms_add_int ex_sp [97] (- 12) 4 of (ret, sp', av', dangling) \<Rightarrow>
    ret = 0 \<and> str_parms_get_int sp' [97] = (0, Some (- 12))"
proof -
  have "bucketCount ex_sp = 8"
    by code_simp
  then show ?thesis
    using str_parms_add_get_int [OF ex_sp_ok, of 4 "[97]" "- 12"] by simp
qed

subsection \<open>Removing\<close>

lemma remove_all_run:
  assumes "sp_ok sp"
  shows "case foreach_entries (remove_pair None) es (sp, fr) of (sp', fr') \<Rightarrow> sp_ok sp' \<and>
    hashmapGet sp' = hashmapGet sp |` (- e_key ` set es) \<and> fr' = rev (map (\<lambda>e. (e_key e, e_value e)) es) @ fr"
  using assms
proof (induction es arbitrary: sp fr)
  case (Cons e es)
  have "hashmapGet (snd (hashmapRemove sp (e_key e))) |` (- e_key ` set es) = hashmapGet sp |` (- e_key ` set (e # es))"
    by (auto simp: sp_remove(2) [OF Cons.prems] restrict_map_def fun_eq_iff)
  then show ?case
    using Cons.IH [OF sp_remove(1) [OF Cons.prems, of "e_key e"], of "(e_key e, e_value e) # fr"]
    by (auto simp: remove_pair_def split: prod.splits)
qed (simp add: restrict_map_def)

lemma remove_one_run:
  "foreach_entries (remove_pair (Some k)) es (sp, fr) =
    (case find (\<lambda>e. e_key e = k) es of None \<Rightarrow> (sp, fr)
     | Some e \<Rightarrow> (snd (hashmapRemove sp k), (k, e_value e) # fr))"
  by (induction es) (auto simp: remove_pair_def)

text \<open>
  C31: \<^verbatim>\<open>str_parms_del\<close> removes the parameter of the key and no other, and frees exactly its key and value;
  \<^verbatim>\<open>str_parms_destroy\<close> frees the key and the value of every parameter exactly once and leaves
  no entry that could refer to them.
\<close>

theorem str_parms_del_destroy:
  assumes "sp_ok sp"
  shows "(case str_parms_del sp k of (sp', fr) \<Rightarrow> sp_ok sp' \<and> hashmapGet sp' = (hashmapGet sp)(k := None) \<and>
      fr = (case hashmapGet sp k of None \<Rightarrow> [] | Some v \<Rightarrow> [(k, Some v)])) \<and>
    (case str_parms_destroy sp of (sp', fr) \<Rightarrow> entries sp' = [] \<and> distinct (map fst fr) \<and>
      set fr = {(k, Some v) |k v. hashmapGet sp k = Some v})"
proof (rule conjI)
  show "case str_parms_del sp k of (sp', fr) \<Rightarrow> sp_ok sp' \<and> hashmapGet sp' = (hashmapGet sp)(k := None) \<and>
      fr = (case hashmapGet sp k of None \<Rightarrow> [] | Some v \<Rightarrow> [(k, Some v)])"
  proof (cases "find (\<lambda>e. e_key e = k) (entries sp)")
    case None
    then have "hashmapGet sp k = None"
      using sp_entries(1) [OF assms, of k] by (auto simp: find_None_iff)
    then show ?thesis
      using None assms by (auto simp: str_parms_del_def hashmapForEach_def remove_one_run entries_def [symmetric])
  next
    case (Some e)
    then have e: "e \<in> set (entries sp)" "e_key e = k"
      by (auto simp: find_Some_iff)
    obtain v where v: "e_value e = Some v"
      using sp_entries(2) [OF assms e(1)] by blast
    then have "hashmapGet sp k = Some v"
      using sp_entries(1) [OF assms, of k v] e by blast
    then show ?thesis
      using Some v sp_remove [OF assms, of k]
      by (simp add: str_parms_del_def hashmapForEach_def remove_one_run entries_def [symmetric])
  qed
  obtain sp' fr where r: "str_parms_destroy sp = (sp', fr)"
    by fastforce
  with remove_all_run [OF assms, of "entries sp" "[]"]
  have s: "sp_ok sp'" "hashmapGet sp' = hashmapGet sp |` (- e_key ` set (entries sp))"
    "fr = rev (map (\<lambda>e. (e_key e, e_value e)) (entries sp))"
    by (auto simp: str_parms_destroy_def hashmapForEach_def entries_def [symmetric])
  have "hashmapGet sp' k = None" for k
  proof (cases "hashmapGet sp k")
    case (Some v)
    then have "k \<in> e_key ` set (entries sp)"
      using sp_entries(1) [OF assms, of k v] by blast
    then show ?thesis
      by (simp add: s(2))
  qed (simp add: s(2) restrict_map_def)
  then have "entries sp' = []"
    using sp_entries(1,2) [OF s(1)] by (metis list.set_sel(1) option.distinct(1))
  moreover have "distinct (map fst fr)"
    using sp_entries(3) [OF assms] by (simp add: s(3) rev_map [symmetric] comp_def)
  moreover have "set fr = {(k, Some v) |k v. hashmapGet sp k = Some v}"
    unfolding s(3) sp_entries(1) [OF assms] using sp_entries(2) [OF assms] by fastforce
  ultimately show "case str_parms_destroy sp of (sp', fr) \<Rightarrow> entries sp' = [] \<and> distinct (map fst fr) \<and>
      set fr = {(k, Some v) |k v. hashmapGet sp k = Some v}"
    by (simp add: r)
qed

theorem str_parms_del_destroy_witness:
  "(case str_parms_del ex_sp [97] of (sp', fr) \<Rightarrow> hashmapGet sp' = [[98] \<mapsto> [50]] \<and> fr = [([97], Some [49, 61])]) \<and>
   (case str_parms_destroy ex_sp of (sp', fr) \<Rightarrow> entries sp' = [] \<and> set fr = {([97], Some [49, 61]), ([98], Some [50])})"
proof -
  have "{(k, Some v) |k v. hashmapGet ex_sp k = Some v} = {([97], Some [49, 61]), ([98], Some [50])}"
    unfolding ex_sp_get map_upd_Some_unfold by auto
  moreover have "(hashmapGet ex_sp)([97] := None) = [[98] \<mapsto> [50]]"
    unfolding ex_sp_get by (rule ext) simp
  moreover have "hashmapGet ex_sp [97] = Some [49, 61]"
    by (simp add: ex_sp_get)
  ultimately show ?thesis
    using str_parms_del_destroy [OF ex_sp_ok, of "[97]"] by (simp add: case_prod_unfold)
qed

end
