(* ===== verification/Sha.thy ===== *)
theory Sha
  imports Prelude
begin

text \<open>
  \<^verbatim>\<open>libmincrypt/sha.c\<close> and \<^verbatim>\<open>libmincrypt/sha256.c\<close>: the incremental SHA-1 and SHA-256 digests.
  A context is a record of the fields of \<^verbatim>\<open>HASH_CTX\<close>; the arrays \<^verbatim>\<open>buf\<close> and \<^verbatim>\<open>state\<close> are lists of 64
  bytes and 8 words.  The local array \<^verbatim>\<open>W\<close> is the list of the words filled so far.  A context
  starts with arbitrary contents, as an uninitialised local variable does.  The padding loop of
  the two \<^verbatim>\<open>final\<close> functions is a partial function; that it ends is proved.
\<close>

section \<open>Contexts\<close>

datatype HASH_VTAB = SHA_VTAB | SHA256_VTAB

record HASH_CTX =
  hash_f :: HASH_VTAB
  count :: u64
  buf :: "byte list"
  state :: "u32 list"

definition rol :: "nat \<Rightarrow> u32 \<Rightarrow> u32" where
  "rol bits value = push_bit bits value OR drop_bit (32 - bits) value"

definition ror :: "u32 \<Rightarrow> nat \<Rightarrow> u32" where
  "ror value bits = drop_bit bits value OR push_bit (32 - bits) value"

definition shr :: "u32 \<Rightarrow> nat \<Rightarrow> u32" where
  "shr value bits = drop_bit bits value"

text \<open>The four bytes of a word, most significant first, as the \<^verbatim>\<open>final\<close> functions store them.\<close>

definition be32 :: "u32 \<Rightarrow> byte list" where
  "be32 tmp = [ucast (drop_bit 24 tmp), ucast (drop_bit 16 tmp), ucast (drop_bit 8 tmp), ucast tmp]"

text \<open>The words of the buffer, the first loop of both transforms.\<close>

definition load_word :: "byte list \<Rightarrow> nat \<Rightarrow> u32" where
  "load_word p t = push_bit 24 (ucast (p ! (4 * t))) OR push_bit 16 (ucast (p ! (4 * t + 1))) OR
     push_bit 8 (ucast (p ! (4 * t + 2))) OR ucast (p ! (4 * t + 3))"

section \<open>SHA-1\<close>

definition SHA1_schedule :: "byte list \<Rightarrow> u32 list" where
  "SHA1_schedule p = fold (\<lambda>t W. W @ [rol 1 (W ! (t - 3) XOR W ! (t - 8) XOR W ! (t - 14) XOR W ! (t - 16))])
     [16..<80] (map (load_word p) [0..<16])"

definition SHA1_step ::
  "u32 list \<Rightarrow> nat \<Rightarrow> u32 \<times> u32 \<times> u32 \<times> u32 \<times> u32 \<Rightarrow> u32 \<times> u32 \<times> u32 \<times> u32 \<times> u32" where
  "SHA1_step W t = (\<lambda>(A, B, C, D, E).
     let tmp = rol 5 A + E + W ! t;
       tmp = tmp + (if t < 20 then (D XOR (B AND (C XOR D))) + 0x5A827999
         else if t < 40 then (B XOR C XOR D) + 0x6ED9EBA1
         else if t < 60 then ((B AND C) OR (D AND (B OR C))) + 0x8F1BBCDC
         else (B XOR C XOR D) + 0xCA62C1D6)
     in (tmp, A, rol 30 B, C, D))"

definition SHA1_Transform :: "HASH_CTX \<Rightarrow> HASH_CTX" where
  "SHA1_Transform ctx = (let s = state ctx in
     case fold (SHA1_step (SHA1_schedule (buf ctx))) [0..<80] (s ! 0, s ! 1, s ! 2, s ! 3, s ! 4) of
       (A, B, C, D, E) \<Rightarrow> ctx\<lparr>state := s[0 := s ! 0 + A, 1 := s ! 1 + B, 2 := s ! 2 + C, 3 := s ! 3 + D,
          4 := s ! 4 + E]\<rparr>)"

definition SHA_init :: "HASH_CTX \<Rightarrow> HASH_CTX" where
  "SHA_init ctx = ctx\<lparr>hash_f := SHA_VTAB,
     state := (state ctx)[0 := 0x67452301, 1 := 0xEFCDAB89, 2 := 0x98BADCFE, 3 := 0x10325476, 4 := 0xC3D2E1F0],
     count := 0\<rparr>"

fun SHA_update_loop :: "nat \<Rightarrow> byte list \<Rightarrow> HASH_CTX \<Rightarrow> HASH_CTX" where
  "SHA_update_loop i [] ctx = ctx"
| "SHA_update_loop i (b # p) ctx = (let ctx = ctx\<lparr>buf := (buf ctx)[i := b]\<rparr> in
     if i + 1 = 64 then SHA_update_loop 0 p (SHA1_Transform ctx) else SHA_update_loop (i + 1) p ctx)"

definition SHA_update :: "HASH_CTX \<Rightarrow> byte list \<Rightarrow> HASH_CTX" where
  "SHA_update ctx data = SHA_update_loop (unat (count ctx AND 63)) data
     (ctx\<lparr>count := count ctx + of_nat (length data)\<rparr>)"

partial_function (option) SHA_pad :: "HASH_CTX \<Rightarrow> HASH_CTX option" where
  "SHA_pad ctx = (if count ctx AND 63 \<noteq> 56 then SHA_pad (SHA_update ctx [0]) else Some ctx)"

declare SHA_pad.simps [code]

definition SHA_DIGEST_SIZE :: nat where
  "SHA_DIGEST_SIZE = 20"

text \<open>The context afterwards; the result of \<^verbatim>\<open>SHA_final\<close> is the address of its buffer.\<close>

definition SHA_final :: "HASH_CTX \<Rightarrow> HASH_CTX option" where
  "SHA_final ctx = do {
     let cnt = count ctx * 8;
     ctx \<leftarrow> SHA_pad (SHA_update ctx [0x80]);
     let ctx = fold (\<lambda>i ctx. SHA_update ctx [ucast (drop_bit ((7 - i) * 8) cnt)]) [0..<8] ctx;
     let d = concat (map (\<lambda>i. be32 (state ctx ! i)) [0..<5]);
     Some (ctx\<lparr>buf := d @ drop (length d) (buf ctx)\<rparr>) }"

definition SHA_hash :: "HASH_CTX \<Rightarrow> byte list \<Rightarrow> byte list option" where
  "SHA_hash ctx data = do {
     ctx \<leftarrow> SHA_final (SHA_update (SHA_init ctx) data);
     Some (take SHA_DIGEST_SIZE (buf ctx)) }"

section \<open>SHA-256\<close>

definition SHA256_K :: "u32 list" where
  "SHA256_K = concat [
    [0x428a2f98, 0x71374491, 0xb5c0fbcf, 0xe9b5dba5],
    [0x3956c25b, 0x59f111f1, 0x923f82a4, 0xab1c5ed5],
    [0xd807aa98, 0x12835b01, 0x243185be, 0x550c7dc3],
    [0x72be5d74, 0x80deb1fe, 0x9bdc06a7, 0xc19bf174],
    [0xe49b69c1, 0xefbe4786, 0x0fc19dc6, 0x240ca1cc],
    [0x2de92c6f, 0x4a7484aa, 0x5cb0a9dc, 0x76f988da],
    [0x983e5152, 0xa831c66d, 0xb00327c8, 0xbf597fc7],
    [0xc6e00bf3, 0xd5a79147, 0x06ca6351, 0x14292967],
    [0x27b70a85, 0x2e1b2138, 0x4d2c6dfc, 0x53380d13],
    [0x650a7354, 0x766a0abb, 0x81c2c92e, 0x92722c85],
    [0xa2bfe8a1, 0xa81a664b, 0xc24b8b70, 0xc76c51a3],
    [0xd192e819, 0xd6990624, 0xf40e3585, 0x106aa070],
    [0x19a4c116, 0x1e376c08, 0x2748774c, 0x34b0bcb5],
    [0x391c0cb3, 0x4ed8aa4a, 0x5b9cca4f, 0x682e6ff3],
    [0x748f82ee, 0x78a5636f, 0x84c87814, 0x8cc70208],
    [0x90befffa, 0xa4506ceb, 0xbef9a3f7, 0xc67178f2]]"

definition SHA256_schedule :: "byte list \<Rightarrow> u32 list" where
  "SHA256_schedule p = fold (\<lambda>t W.
     let s0 = ror (W ! (t - 15)) 7 XOR ror (W ! (t - 15)) 18 XOR shr (W ! (t - 15)) 3;
       s1 = ror (W ! (t - 2)) 17 XOR ror (W ! (t - 2)) 19 XOR shr (W ! (t - 2)) 10
     in W @ [W ! (t - 16) + s0 + W ! (t - 7) + s1]) [16..<64] (map (load_word p) [0..<16])"

type_synonym sha256_vars = "u32 \<times> u32 \<times> u32 \<times> u32 \<times> u32 \<times> u32 \<times> u32 \<times> u32"

definition SHA256_step :: "u32 list \<Rightarrow> nat \<Rightarrow> sha256_vars \<Rightarrow> sha256_vars" where
  "SHA256_step W t = (\<lambda>(A, B, C, D, E, F, G, H).
     let s0 = ror A 2 XOR ror A 13 XOR ror A 22;
       maj = (A AND B) XOR (A AND C) XOR (B AND C);
       t2 = s0 + maj;
       s1 = ror E 6 XOR ror E 11 XOR ror E 25;
       ch = (E AND F) XOR (NOT E AND G);
       t1 = H + s1 + ch + SHA256_K ! t + W ! t
     in (t1 + t2, A, B, C, D + t1, E, F, G))"

definition SHA256_Transform :: "HASH_CTX \<Rightarrow> HASH_CTX" where
  "SHA256_Transform ctx = (let s = state ctx in
     case fold (SHA256_step (SHA256_schedule (buf ctx))) [0..<64]
         (s ! 0, s ! 1, s ! 2, s ! 3, s ! 4, s ! 5, s ! 6, s ! 7) of
       (A, B, C, D, E, F, G, H) \<Rightarrow> ctx\<lparr>state := s[0 := s ! 0 + A, 1 := s ! 1 + B, 2 := s ! 2 + C, 3 := s ! 3 + D,
          4 := s ! 4 + E, 5 := s ! 5 + F, 6 := s ! 6 + G, 7 := s ! 7 + H]\<rparr>)"

definition SHA256_init :: "HASH_CTX \<Rightarrow> HASH_CTX" where
  "SHA256_init ctx = ctx\<lparr>hash_f := SHA256_VTAB,
     state := (state ctx)[0 := 0x6a09e667, 1 := 0xbb67ae85, 2 := 0x3c6ef372, 3 := 0xa54ff53a,
       4 := 0x510e527f, 5 := 0x9b05688c, 6 := 0x1f83d9ab, 7 := 0x5be0cd19],
     count := 0\<rparr>"

fun SHA256_update_loop :: "nat \<Rightarrow> byte list \<Rightarrow> HASH_CTX \<Rightarrow> HASH_CTX" where
  "SHA256_update_loop i [] ctx = ctx"
| "SHA256_update_loop i (b # p) ctx = (let ctx = ctx\<lparr>buf := (buf ctx)[i := b]\<rparr> in
     if i + 1 = 64 then SHA256_update_loop 0 p (SHA256_Transform ctx) else SHA256_update_loop (i + 1) p ctx)"

definition SHA256_update :: "HASH_CTX \<Rightarrow> byte list \<Rightarrow> HASH_CTX" where
  "SHA256_update ctx data = SHA256_update_loop (unat (count ctx AND 63)) data
     (ctx\<lparr>count := count ctx + of_nat (length data)\<rparr>)"

partial_function (option) SHA256_pad :: "HASH_CTX \<Rightarrow> HASH_CTX option" where
  "SHA256_pad ctx = (if count ctx AND 63 \<noteq> 56 then SHA256_pad (SHA256_update ctx [0]) else Some ctx)"

declare SHA256_pad.simps [code]

definition SHA256_DIGEST_SIZE :: nat where
  "SHA256_DIGEST_SIZE = 32"

definition SHA256_final :: "HASH_CTX \<Rightarrow> HASH_CTX option" where
  "SHA256_final ctx = do {
     let cnt = count ctx * 8;
     ctx \<leftarrow> SHA256_pad (SHA256_update ctx [0x80]);
     let ctx = fold (\<lambda>i ctx. SHA256_update ctx [ucast (drop_bit ((7 - i) * 8) cnt)]) [0..<8] ctx;
     let d = concat (map (\<lambda>i. be32 (state ctx ! i)) [0..<8]);
     Some (ctx\<lparr>buf := d @ drop (length d) (buf ctx)\<rparr>) }"

definition SHA256_hash :: "HASH_CTX \<Rightarrow> byte list \<Rightarrow> byte list option" where
  "SHA256_hash ctx data = do {
     ctx \<leftarrow> SHA256_final (SHA256_update (SHA256_init ctx) data);
     Some (take SHA256_DIGEST_SIZE (buf ctx)) }"

section \<open>Dispatch\<close>

definition HASH_update :: "HASH_CTX \<Rightarrow> byte list \<Rightarrow> HASH_CTX" where
  "HASH_update ctx data = (case hash_f ctx of SHA_VTAB \<Rightarrow> SHA_update ctx data | SHA256_VTAB \<Rightarrow> SHA256_update ctx data)"

definition HASH_final :: "HASH_CTX \<Rightarrow> HASH_CTX option" where
  "HASH_final ctx = (case hash_f ctx of SHA_VTAB \<Rightarrow> SHA_final ctx | SHA256_VTAB \<Rightarrow> SHA256_final ctx)"

definition HASH_size :: "HASH_CTX \<Rightarrow> nat" where
  "HASH_size ctx = (case hash_f ctx of SHA_VTAB \<Rightarrow> SHA_DIGEST_SIZE | SHA256_VTAB \<Rightarrow> SHA256_DIGEST_SIZE)"

section \<open>The standard\<close>

text \<open>
  FIPS 180-4, on numbers: padding (section 5.1.1), parsing into blocks (5.2.1), the functions
  and constants (4.1, 4.2), the message schedules and the compression functions (6.1.2, 6.2.2).
  Words are read and written most significant octet first (3.1).
\<close>

definition os2ip :: "byte list \<Rightarrow> int" where
  "os2ip bs = foldl (\<lambda>v b. 256 * v + uint b) 0 bs"

definition big_endian :: "nat \<Rightarrow> nat \<Rightarrow> byte list" where
  "big_endian k n = rev (little_endian k n)"

definition block_word :: "byte list \<Rightarrow> nat \<Rightarrow> u32" where
  "block_word blk t = word_of_int (os2ip (map (\<lambda>i. blk ! (4 * t + i)) [0..<4]))"

definition sha_pad :: "byte list \<Rightarrow> byte list" where
  "sha_pad msg = msg @ [0x80] @ replicate ((119 - length msg mod 64) mod 64) 0 @ big_endian 8 (8 * length msg)"

fun sha_blocks :: "byte list \<Rightarrow> byte list list" where
  "sha_blocks msg = (if length msg < 64 then [] else take 64 msg # sha_blocks (drop 64 msg))"

declare sha_blocks.simps [simp del]

text \<open>
  The constants of SHA-256 (4.2.2, 5.3.3): the first 32 bits of the fractional parts of the cube
  and square roots of the first primes.  The root is found bit by bit, from bit 35 down.
\<close>

fun iroot_bits :: "nat \<Rightarrow> nat \<Rightarrow> nat \<Rightarrow> nat \<Rightarrow> nat" where
  "iroot_bits k m 0 r = r"
| "iroot_bits k m (Suc b) r = iroot_bits k m b (if (r + 2 ^ b) ^ k \<le> m then r + 2 ^ b else r)"

definition root_fraction :: "nat \<Rightarrow> nat \<Rightarrow> u32" where
  "root_fraction k p = of_nat (iroot_bits k (p * 2 ^ (32 * k)) 36 0)"

definition first_primes :: "nat list" where
  "first_primes = [2, 3, 5, 7, 11, 13, 17, 19, 23, 29, 31, 37, 41, 43, 47, 53,
     59, 61, 67, 71, 73, 79, 83, 89, 97, 101, 103, 107, 109, 113, 127, 131,
     137, 139, 149, 151, 157, 163, 167, 173, 179, 181, 191, 193, 197, 199, 211, 223,
     227, 229, 233, 239, 241, 251, 257, 263, 269, 271, 277, 281, 283, 293, 307, 311]"

definition Ch :: "u32 \<Rightarrow> u32 \<Rightarrow> u32 \<Rightarrow> u32" where
  "Ch x y z = (x AND y) XOR (NOT x AND z)"

definition Maj :: "u32 \<Rightarrow> u32 \<Rightarrow> u32 \<Rightarrow> u32" where
  "Maj x y z = (x AND y) XOR (x AND z) XOR (y AND z)"

definition Parity :: "u32 \<Rightarrow> u32 \<Rightarrow> u32 \<Rightarrow> u32" where
  "Parity x y z = x XOR y XOR z"

fun sha1_W :: "byte list \<Rightarrow> nat \<Rightarrow> u32" where
  "sha1_W blk t = (if t < 16 then block_word blk t
     else word_rotl 1 (sha1_W blk (t - 3) XOR sha1_W blk (t - 8) XOR sha1_W blk (t - 14) XOR sha1_W blk (t - 16)))"

declare sha1_W.simps [simp del]

definition sha1_f :: "nat \<Rightarrow> u32 \<Rightarrow> u32 \<Rightarrow> u32 \<Rightarrow> u32" where
  "sha1_f t = (if t < 20 then Ch else if t < 40 then Parity else if t < 60 then Maj else Parity)"

definition sha1_K :: "nat \<Rightarrow> u32" where
  "sha1_K t = (if t < 20 then 0x5A827999 else if t < 40 then 0x6ED9EBA1 else if t < 60 then 0x8F1BBCDC else 0xCA62C1D6)"

primrec sha1_vars :: "byte list \<Rightarrow> u32 list \<Rightarrow> nat \<Rightarrow> u32 \<times> u32 \<times> u32 \<times> u32 \<times> u32" where
  "sha1_vars blk h 0 = (h ! 0, h ! 1, h ! 2, h ! 3, h ! 4)"
| "sha1_vars blk h (Suc t) = (case sha1_vars blk h t of (a, b, c, d, e) \<Rightarrow>
     (word_rotl 5 a + sha1_f t b c d + e + sha1_K t + sha1_W blk t, a, word_rotl 30 b, c, d))"

definition sha1_compress :: "u32 list \<Rightarrow> byte list \<Rightarrow> u32 list" where
  "sha1_compress h blk = (case sha1_vars blk h 80 of (a, b, c, d, e) \<Rightarrow>
     [a + h ! 0, b + h ! 1, c + h ! 2, d + h ! 3, e + h ! 4])"

definition sha1_H0 :: "u32 list" where
  "sha1_H0 = [0x67452301, 0xEFCDAB89, 0x98BADCFE, 0x10325476, 0xC3D2E1F0]"

definition sha1 :: "byte list \<Rightarrow> byte list" where
  "sha1 msg = concat (map (\<lambda>w. big_endian 4 (unat w))
     (fold (\<lambda>blk h. sha1_compress h blk) (sha_blocks (sha_pad msg)) sha1_H0))"

definition Sigma0 :: "u32 \<Rightarrow> u32" where
  "Sigma0 x = word_rotr 2 x XOR word_rotr 13 x XOR word_rotr 22 x"

definition Sigma1 :: "u32 \<Rightarrow> u32" where
  "Sigma1 x = word_rotr 6 x XOR word_rotr 11 x XOR word_rotr 25 x"

definition sigma0 :: "u32 \<Rightarrow> u32" where
  "sigma0 x = word_rotr 7 x XOR word_rotr 18 x XOR drop_bit 3 x"

definition sigma1 :: "u32 \<Rightarrow> u32" where
  "sigma1 x = word_rotr 17 x XOR word_rotr 19 x XOR drop_bit 10 x"

fun sha256_W :: "byte list \<Rightarrow> nat \<Rightarrow> u32" where
  "sha256_W blk t = (if t < 16 then block_word blk t
     else sigma1 (sha256_W blk (t - 2)) + sha256_W blk (t - 7) + sigma0 (sha256_W blk (t - 15)) + sha256_W blk (t - 16))"

declare sha256_W.simps [simp del]

primrec sha256_vars :: "byte list \<Rightarrow> u32 list \<Rightarrow> nat \<Rightarrow> sha256_vars" where
  "sha256_vars blk hv 0 = (hv ! 0, hv ! 1, hv ! 2, hv ! 3, hv ! 4, hv ! 5, hv ! 6, hv ! 7)"
| "sha256_vars blk hv (Suc t) = (case sha256_vars blk hv t of (a, b, c, d, e, f, g, h) \<Rightarrow>
     let T1 = h + Sigma1 e + Ch e f g + root_fraction 3 (first_primes ! t) + sha256_W blk t;
       T2 = Sigma0 a + Maj a b c
     in (T1 + T2, a, b, c, d + T1, e, f, g))"

definition sha256_compress :: "u32 list \<Rightarrow> byte list \<Rightarrow> u32 list" where
  "sha256_compress hv blk = (case sha256_vars blk hv 64 of (a, b, c, d, e, f, g, h) \<Rightarrow>
     [a + hv ! 0, b + hv ! 1, c + hv ! 2, d + hv ! 3, e + hv ! 4, f + hv ! 5, g + hv ! 6, h + hv ! 7])"

definition sha256_H0 :: "u32 list" where
  "sha256_H0 = map (root_fraction 2) (take 8 first_primes)"

definition sha256 :: "byte list \<Rightarrow> byte list" where
  "sha256 msg = concat (map (\<lambda>w. big_endian 4 (unat w))
     (fold (\<lambda>blk h. sha256_compress h blk) (sha_blocks (sha_pad msg)) sha256_H0))"

section \<open>Octets and words\<close>

lemma os2ip_acc: "foldl (\<lambda>v b. 256 * v + uint b) v bs = v * 256 ^ length bs + os2ip bs"
  unfolding os2ip_def
proof (induction bs arbitrary: v)
  case (Cons b bs)
  show ?case
    using Cons [of "256 * v + uint b"] Cons [of "uint b"] by (simp add: algebra_simps)
qed simp

lemma os2ip_append: "os2ip (xs @ ys) = os2ip xs * 256 ^ length ys + os2ip ys"
  using os2ip_acc [of "os2ip xs" ys] by (simp add: os2ip_def)

lemma os2ip_Nil [simp]: "os2ip [] = 0"
  by (simp add: os2ip_def)

lemma os2ip_snoc: "os2ip (xs @ [b]) = 256 * os2ip xs + uint b"
  by (simp add: os2ip_def)

lemma uint_byte_wide: "uint (ucast (b :: byte) :: u32) = uint b" "uint b < 256"
proof -
  show "uint b < 256"
    using unsigned_less [of b, where ?'a = int] by simp
  then show "uint (ucast b :: u32) = uint b"
    by (simp add: unsigned_ucast_eq take_bit_eq_mod)
qed

lemma uint_cat_byte:
  fixes w :: u32 and b :: byte
  assumes "uint w < 2 ^ 24"
  shows "uint (push_bit 8 w OR ucast b) = 256 * uint w + uint b"
proof -
  have "push_bit 8 w AND ucast b = 0"
    by (rule bit_word_eqI) (auto simp: bit_simps dest: bit_imp_le_length)
  then have "push_bit 8 w OR ucast b = push_bit 8 w + ucast b"
    by (simp add: disjunctive_add_eq_or)
  also have "\<dots> = 256 * w + ucast b"
    by (simp add: push_bit_eq_mult mult.commute)
  finally show ?thesis
    using assms uint_byte_wide [of b] by (simp add: uint_word_ariths)
qed

lemma uint_load_word:
  "uint (load_word p t) = os2ip [p ! (4 * t), p ! (4 * t + 1), p ! (4 * t + 2), p ! (4 * t + 3)]"
proof -
  let ?a = "ucast (p ! (4 * t)) :: u32"
  let ?b = "push_bit 8 ?a OR ucast (p ! (4 * t + 1))"
  let ?c = "push_bit 8 ?b OR ucast (p ! (4 * t + 2))"
  note b = uint_byte_wide(2) and a = uint_byte_wide(1) [of "p ! (4 * t)"]
  have vb: "uint ?b = 256 * uint (p ! (4 * t)) + uint (p ! (4 * t + 1))"
    using uint_cat_byte [of ?a] b [of "p ! (4 * t)"] by (simp add: a)
  have vc: "uint ?c = 256 * uint ?b + uint (p ! (4 * t + 2))"
    using uint_cat_byte [of ?b] b [of "p ! (4 * t)"] b [of "p ! (4 * t + 1)"] unfolding vb by simp
  have "uint (push_bit 8 ?c OR ucast (p ! (4 * t + 3))) = 256 * uint ?c + uint (p ! (4 * t + 3))"
    using b [of "p ! (4 * t)"] b [of "p ! (4 * t + 1)"] b [of "p ! (4 * t + 2)"]
    by (intro uint_cat_byte) (simp only: vb vc, simp)
  moreover have "load_word p t = push_bit 8 ?c OR ucast (p ! (4 * t + 3))"
    by (simp add: load_word_def push_bit_or push_bit_push_bit or.assoc)
  ultimately show ?thesis
    by (simp only: vb vc os2ip_def foldl.simps) simp
qed

lemma load_word_eq: "load_word p t = block_word p t"
proof -
  have "[0..<4] = [0, 1, 2, 3 :: nat]"
    by (simp add: upt_rec)
  then have "block_word p t = word_of_int (uint (load_word p t))"
    unfolding uint_load_word block_word_def by simp
  then show ?thesis by simp
qed

lemma be32_eq: "be32 w = big_endian 4 (unat w)"
  using le32_little_endian [of "unat w"] by (simp add: big_endian_def be32_def le32_def flip: le32_little_endian)

text \<open>The length in bits, as the \<^verbatim>\<open>final\<close> functions append it.\<close>

definition be64 :: "u64 \<Rightarrow> byte list" where
  "be64 w = map (\<lambda>i. ucast (drop_bit ((7 - i) * 8) w)) [0..<8]"

lemma be64_eq: "be64 (of_nat n) = big_endian 8 n"
proof -
  have "ucast (drop_bit ((7 - i) * 8) (of_nat n :: u64)) = (of_nat (n div 256 ^ (7 - i)) :: byte)" if "i < 8" for i
    using ucast_drop_of_nat [of "(7 - i) * 8" n, where 'a = 64] that
    by (simp add: power_mult mult.commute [of _ 8] power_even_eq)
  moreover have "[0..<8] ! (7 - i) = 7 - i" for i :: nat
    using nth_upt [of 0 "7 - i" 8] by simp
  ultimately show ?thesis
    by (intro nth_equalityI) (simp_all add: be64_def big_endian_def little_endian_def rev_nth)
qed

section \<open>The constants\<close>

lemma iroot_bits_ok:
  assumes "r ^ k \<le> m" "m < (r + 2 ^ b) ^ k"
  shows "iroot_bits k m b r ^ k \<le> m \<and> m < (iroot_bits k m b r + 1) ^ k"
  using assms
proof (induction b arbitrary: r)
  case (Suc b)
  show ?case
  proof (cases "(r + 2 ^ b) ^ k \<le> m")
    case True
    then show ?thesis using Suc by (simp add: mult_2 add.assoc)
  next
    case False
    then show ?thesis using Suc by simp
  qed
qed simp

lemma root_fractionI:
  assumes "q ^ k \<le> p * 2 ^ (32 * k)" "p * 2 ^ (32 * k) < (q + 1) ^ k" "p < 16 ^ k" "0 < k"
  shows "root_fraction k p = of_nat q"
proof -
  let ?m = "p * 2 ^ (32 * k)" and ?r = "iroot_bits k (p * 2 ^ (32 * k)) 36 0"
  have "?m < 16 ^ k * 2 ^ (32 * k)" using assms(3) by simp
  also have "\<dots> = (0 + 2 ^ 36) ^ k"
    by (simp add: power_mult flip: power_mult_distrib)
  finally have r: "?r ^ k \<le> ?m" "?m < (?r + 1) ^ k"
    using iroot_bits_ok [of 0 k ?m 36] assms(4) by (simp_all add: zero_power)
  have "?r ^ k < (q + 1) ^ k" "q ^ k < (?r + 1) ^ k"
    using assms(1,2) r by (auto intro: le_less_trans)
  then have "?r < q + 1" "q < ?r + 1"
    by (auto dest: power_less_imp_less_base)
  then have "?r = q" by linarith
  then show ?thesis
    by (simp add: root_fraction_def)
qed

text \<open>The tables of the code are these constants; \<open>c\<close> is the integer part of the root.\<close>

lemma root_table:
  assumes "list_all2 (\<lambda>p w. let q = c p * 2 ^ 32 + unat w in
      q ^ k \<le> p * 2 ^ (32 * k) \<and> p * 2 ^ (32 * k) < (q + 1) ^ k \<and> p < 16 ^ k) ps ws" "0 < k"
  shows "ws = map (root_fraction k) ps"
  using assms(1)
proof (induction rule: list_all2_induct)
  case (Cons p ps w ws)
  then have "root_fraction k p = of_nat (c p * 2 ^ 32 + unat w)"
    using assms(2) by (intro root_fractionI) (simp_all add: Let_def)
  also have "\<dots> = of_nat (c p) * 2 ^ 32 + w" by simp
  also have "(2 :: u32) ^ 32 = 0" by simp
  finally show ?case using Cons by simp
qed simp

definition cube_floor :: "nat \<Rightarrow> nat" where
  "cube_floor p = (if p < 8 then 1 else if p < 27 then 2 else if p < 64 then 3 else if p < 125 then 4
     else if p < 216 then 5 else 6)"

definition square_floor :: "nat \<Rightarrow> nat" where
  "square_floor p = (if p < 4 then 1 else if p < 9 then 2 else if p < 16 then 3 else 4)"

lemma SHA256_K_eq: "SHA256_K = map (root_fraction 3) first_primes"
  by (rule root_table [where c = cube_floor])
     (simp_all add: SHA256_K_def first_primes_def cube_floor_def Let_def)

lemma SHA256_K_nth:
  assumes "t < 64"
  shows "SHA256_K ! t = root_fraction 3 (first_primes ! t)"
proof -
  have "length first_primes = 64" by (simp add: first_primes_def)
  then show ?thesis using assms unfolding SHA256_K_eq by (simp only: nth_map)
qed

lemma sha256_H0_eq:
  "sha256_H0 = [0x6a09e667, 0xbb67ae85, 0x3c6ef372, 0xa54ff53a, 0x510e527f, 0x9b05688c, 0x1f83d9ab, 0x5be0cd19]"
  unfolding sha256_H0_def
  by (rule root_table [where c = square_floor, symmetric])
     (simp_all add: first_primes_def square_floor_def Let_def)

section \<open>The compression functions\<close>

lemma rotl_index: "n < 32 \<Longrightarrow> k < 32 \<Longrightarrow> (k + 32 - n) mod 32 = (if n \<le> k then k - n else k + 32 - n :: nat)"
  by (auto simp: mod_if [of "k + 32 - n"])

lemma rotr_index: "n < 32 \<Longrightarrow> k < 32 \<Longrightarrow> (k + n) mod 32 = (if 32 - n \<le> k then k + n - 32 else k + n :: nat)"
  by (auto simp: mod_if [of "k + n"])

lemma rol_eq:
  assumes "0 < n" "n < 32"
  shows "rol n x = word_rotl n x"
proof (rule bit_word_eqI)
  fix k assume "k < LENGTH(32)"
  then have k: "k < 32"
    by simp
  have "bit (word_rotl n x) k = bit x (if n \<le> k then k - n else k + 32 - n)"
    using k assms by (simp add: bit_word_rotl_iff rotl_index)
  moreover have "bit (rol n x) k = (n \<le> k \<and> bit x (k - n) \<or> bit x (k + 32 - n))"
    using k assms by (simp add: rol_def bit_simps add.commute)
  ultimately show "bit (rol n x) k = bit (word_rotl n x) k"
    using k assms bit_imp_le_length [of x "k + 32 - n"] by auto
qed

lemma ror_eq:
  assumes "0 < n" "n < 32"
  shows "ror x n = word_rotr n x"
proof (rule bit_word_eqI)
  fix k assume "k < LENGTH(32)"
  then have k: "k < 32"
    by simp
  have "bit (word_rotr n x) k = bit x (if 32 - n \<le> k then k + n - 32 else k + n)"
    using k assms by (simp add: bit_word_rotr_iff rotr_index)
  moreover have "bit (ror x n) k = (bit x (k + n) \<or> 32 - n \<le> k \<and> bit x (k - (32 - n)))"
    using k assms by (simp add: ror_def bit_simps add.commute)
  ultimately show "bit (ror x n) k = bit (word_rotr n x) k"
    using k assms bit_imp_le_length [of x "k + n"] by auto
qed

lemma Ch_alt: "z XOR (x AND (y XOR z)) = Ch x y z"
  by (rule bit_word_eqI) (auto simp: Ch_def bit_simps)

lemma Maj_alt: "(x AND y) OR (z AND (x OR y)) = Maj x y z"
  by (rule bit_word_eqI) (auto simp: Maj_def bit_simps)

text \<open>Filling an array upwards by a recurrence tabulates the function with that recurrence.\<close>

lemma fold_tabulate:
  assumes "\<And>t W. m \<le> t \<Longrightarrow> t < n \<Longrightarrow> (\<And>i. i < t \<Longrightarrow> W ! i = f i) \<Longrightarrow> g t W = f t" "m \<le> n"
  shows "fold (\<lambda>t W. W @ [g t W]) [m..<n] (map f [0..<m]) = map f [0..<n]"
  using assms(2,1)
proof (induction rule: dec_induct)
  case (step k)
  then have IH: "fold (\<lambda>t W. W @ [g t W]) [m..<k] (map f [0..<m]) = map f [0..<k]"
    by simp
  have "g k (map f [0..<k]) = f k"
    using step by simp
  then show ?case
    using IH step by simp
qed simp

lemma SHA1_schedule_eq: "SHA1_schedule p = map (sha1_W p) [0..<80]"
proof -
  have "map (load_word p) [0..<16] = map (sha1_W p) [0..<16]"
    by (auto simp: sha1_W.simps load_word_eq)
  then show ?thesis
    unfolding SHA1_schedule_def
    by (simp only:, intro fold_tabulate) (simp_all add: sha1_W.simps [of p] rol_eq)
qed

lemma SHA1_step_eq: "t < 80 \<Longrightarrow> SHA1_step (SHA1_schedule p) t (a, b, c, d, e) =
    (word_rotl 5 a + sha1_f t b c d + e + sha1_K t + sha1_W p t, a, word_rotl 30 b, c, d)"
  by (simp add: SHA1_step_def SHA1_schedule_eq rol_eq Ch_alt Maj_alt sha1_f_def sha1_K_def Parity_def Let_def)

lemma SHA1_vars_eq: "n \<le> 80 \<Longrightarrow>
    fold (SHA1_step (SHA1_schedule p)) [0..<n] (h ! 0, h ! 1, h ! 2, h ! 3, h ! 4) = sha1_vars p h n"
  by (induction n) (simp_all add: SHA1_step_eq split: prod.split)

lemma SHA1_Transform_eq:
  assumes "length (state ctx) = 8"
  shows "buf (SHA1_Transform ctx) = buf ctx" "length (state (SHA1_Transform ctx)) = 8"
    "take 5 (state (SHA1_Transform ctx)) = sha1_compress (take 5 (state ctx)) (buf ctx)"
    "count (SHA1_Transform ctx) = count ctx"
proof -
  obtain s0 s1 s2 s3 s4 rest where s: "state ctx = s0 # s1 # s2 # s3 # s4 # rest" "length rest = 3"
    using assms by (auto simp: length_Suc_conv numeral_eq_Suc)
  have v: "fold (SHA1_step (SHA1_schedule (buf ctx))) [0..<80] (s0, s1, s2, s3, s4)
      = sha1_vars (buf ctx) [s0, s1, s2, s3, s4] 80"
    using SHA1_vars_eq [of 80 "buf ctx" "[s0, s1, s2, s3, s4]"] by simp
  show "buf (SHA1_Transform ctx) = buf ctx" "length (state (SHA1_Transform ctx)) = 8"
    "take 5 (state (SHA1_Transform ctx)) = sha1_compress (take 5 (state ctx)) (buf ctx)"
    "count (SHA1_Transform ctx) = count ctx"
    using v s by (simp_all add: SHA1_Transform_def sha1_compress_def add.commute split: prod.split)
qed

lemma SHA256_schedule_eq: "SHA256_schedule p = map (sha256_W p) [0..<64]"
proof -
  have "map (load_word p) [0..<16] = map (sha256_W p) [0..<16]"
    by (auto simp: sha256_W.simps load_word_eq)
  then show ?thesis
    unfolding SHA256_schedule_def Let_def
    by (simp only:, intro fold_tabulate)
      (simp_all add: sha256_W.simps [of p] ror_eq shr_def sigma0_def sigma1_def ac_simps)
qed

lemma SHA256_step_eq: "t < 64 \<Longrightarrow> SHA256_step (SHA256_schedule p) t (a, b, c, d, e, f, g, h) =
    (let T1 = h + Sigma1 e + Ch e f g + root_fraction 3 (first_primes ! t) + sha256_W p t;
       T2 = Sigma0 a + Maj a b c
     in (T1 + T2, a, b, c, d + T1, e, f, g))"
  by (simp add: SHA256_step_def SHA256_schedule_eq SHA256_K_nth ror_eq Ch_def Maj_def Sigma0_def Sigma1_def Let_def)

lemma SHA256_vars_eq: "n \<le> 64 \<Longrightarrow>
    fold (SHA256_step (SHA256_schedule p)) [0..<n] (h ! 0, h ! 1, h ! 2, h ! 3, h ! 4, h ! 5, h ! 6, h ! 7)
      = sha256_vars p h n"
  by (induction n) (simp_all add: SHA256_step_eq split: prod.split)

lemma SHA256_Transform_eq:
  assumes "length (state ctx) = 8"
  shows "buf (SHA256_Transform ctx) = buf ctx" "length (state (SHA256_Transform ctx)) = 8"
    "take 8 (state (SHA256_Transform ctx)) = sha256_compress (take 8 (state ctx)) (buf ctx)"
    "count (SHA256_Transform ctx) = count ctx"
proof -
  obtain s0 s1 s2 s3 s4 s5 s6 s7 where s: "state ctx = [s0, s1, s2, s3, s4, s5, s6, s7]"
    using assms by (auto simp: length_Suc_conv numeral_eq_Suc)
  have v: "fold (SHA256_step (SHA256_schedule (buf ctx))) [0..<64] (s0, s1, s2, s3, s4, s5, s6, s7)
      = sha256_vars (buf ctx) [s0, s1, s2, s3, s4, s5, s6, s7] 64"
    using SHA256_vars_eq [of 64 "buf ctx" "[s0, s1, s2, s3, s4, s5, s6, s7]"] by simp
  show "buf (SHA256_Transform ctx) = buf ctx" "length (state (SHA256_Transform ctx)) = 8"
    "take 8 (state (SHA256_Transform ctx)) = sha256_compress (take 8 (state ctx)) (buf ctx)"
    "count (SHA256_Transform ctx) = count ctx"
    using v s by (simp_all add: SHA256_Transform_def sha256_compress_def add.commute split: prod.split)
qed

section \<open>Blocks of a growing message\<close>

text \<open>What is left of a message after its full blocks.\<close>

definition sha_rest :: "byte list \<Rightarrow> byte list" where
  "sha_rest msg = drop (64 * (length msg div 64)) msg"

lemma length_sha_rest [simp]: "length (sha_rest msg) = length msg mod 64"
  by (simp add: sha_rest_def minus_mult_div_eq_mod)

lemma sha_blocks_snoc:
  "sha_blocks (msg @ [b]) = (if length msg mod 64 = 63 then sha_blocks msg @ [sha_rest msg @ [b]] else sha_blocks msg)"
proof (induction msg rule: sha_blocks.induct)
  case (1 msg)
  show ?case
  proof (cases "length msg < 64")
    case True
    then show ?thesis
      by (auto simp: sha_blocks.simps [of msg] sha_blocks.simps [of "msg @ [b]"] sha_blocks.simps [of "[]"] sha_rest_def)
  next
    case False
    then have "length msg = 64 + (length msg - 64)"
      by simp
    then have d: "length msg div 64 = Suc ((length msg - 64) div 64)" "length msg mod 64 = (length msg - 64) mod 64"
      by (metis div_add_self1 add.commute plus_1_eq_Suc zero_neq_numeral, metis mod_add_self1)
    with False 1 show ?thesis
      by (simp add: sha_blocks.simps [of msg] sha_blocks.simps [of "msg @ [b]"] sha_rest_def add.commute)
  qed
qed

lemma sha_rest_snoc: "sha_rest (msg @ [b]) = (if length msg mod 64 = 63 then [] else sha_rest msg @ [b])"
proof -
  have "Suc (length msg) div 64 = (if length msg mod 64 = 63 then Suc (length msg div 64) else length msg div 64)"
    by (simp add: div_Suc mod_Suc)
  then show ?thesis
    by (simp add: sha_rest_def)
qed

lemma length_be32 [simp]: "length (be32 w) = 4"
  by (simp add: be32_def)

lemma and_63: "unat ((of_nat n :: u64) AND 63) = n mod 64"
proof -
  have "(of_nat n :: u64) AND 63 = take_bit 6 (of_nat n)"
    by (simp add: take_bit_eq_mask mask_numeral)
  then show ?thesis
    by (simp only: unsigned_take_bit_eq unat_of_nat take_bit_take_bit)
      (simp add: take_bit_eq_mod mod_mod_cancel)
qed

lemma pad_count: "r < 64 \<Longrightarrow> (120 - r) mod 64 = (if r \<le> 56 then 56 - r else 120 - r :: nat)"
  by (auto simp: mod_if [of "120 - r"])

lemma pad_count': "r < 64 \<Longrightarrow> (119 - r) mod 64 = (if r \<le> 55 then 55 - r else 119 - r :: nat)"
  by (auto simp: mod_if [of "119 - r"])

lemma pad_step: "r < 64 \<Longrightarrow> Suc k = (120 - r) mod 64 \<Longrightarrow> r \<noteq> 56 \<and> k = (119 - r) mod (64 :: nat)"
  by (auto simp: pad_count pad_count' split: if_splits)

lemma pad_count_Suc:
  "(120 - Suc n mod 64) mod 64 = (119 - n mod 64) mod (64 :: nat)"
proof -
  have "n mod 64 < 64"
    by simp
  then show ?thesis
    by (auto simp: mod_Suc pad_count pad_count')
qed

section \<open>The incremental interface\<close>

text \<open>
  What the two digests share: a transform of the buffer that compresses it into the first
  \<open>words\<close> words of the state, the byte-wise update loop around it, and the padding loop.
\<close>

locale block_hash =
  fixes transform :: "HASH_CTX \<Rightarrow> HASH_CTX"
    and words :: nat
    and compress :: "u32 list \<Rightarrow> byte list \<Rightarrow> u32 list"
    and update_loop :: "nat \<Rightarrow> byte list \<Rightarrow> HASH_CTX \<Rightarrow> HASH_CTX"
    and update :: "HASH_CTX \<Rightarrow> byte list \<Rightarrow> HASH_CTX"
    and pad_loop :: "HASH_CTX \<Rightarrow> HASH_CTX option"
    and H0 :: "u32 list"
  assumes transform_buf: "length (state ctx) = 8 \<Longrightarrow> buf (transform ctx) = buf ctx"
    and transform_count: "length (state ctx) = 8 \<Longrightarrow> count (transform ctx) = count ctx"
    and transform_length: "length (state ctx) = 8 \<Longrightarrow> length (state (transform ctx)) = 8"
    and transform_state: "length (state ctx) = 8 \<Longrightarrow>
      take words (state (transform ctx)) = compress (take words (state ctx)) (buf ctx)"
    and loop_Nil: "update_loop i [] ctx = ctx"
    and loop_Cons: "update_loop i (b # p) ctx = (let ctx = ctx\<lparr>buf := (buf ctx)[i := b]\<rparr> in
      if i + 1 = 64 then update_loop 0 p (transform ctx) else update_loop (i + 1) p ctx)"
    and update_eq: "update ctx data = update_loop (unat (count ctx AND 63)) data
      (ctx\<lparr>count := count ctx + of_nat (length data)\<rparr>)"
    and pad_loop_eq: "pad_loop ctx = (if count ctx AND 63 \<noteq> 56 then pad_loop (update ctx [0]) else Some ctx)"
begin

text \<open>The context has absorbed a message, its count apart.\<close>

definition holds :: "HASH_CTX \<Rightarrow> byte list \<Rightarrow> bool" where
  "holds ctx msg \<longleftrightarrow> length (buf ctx) = 64 \<and> length (state ctx) = 8 \<and>
     take (length msg mod 64) (buf ctx) = sha_rest msg \<and>
     take words (state ctx) = fold (\<lambda>blk h. compress h blk) (sha_blocks msg) H0"

definition absorbed :: "HASH_CTX \<Rightarrow> byte list \<Rightarrow> bool" where
  "absorbed ctx msg \<longleftrightarrow> holds ctx msg \<and> count ctx = of_nat (length msg)"

lemma holds_snoc:
  assumes "holds ctx msg" and i: "i = length msg mod 64"
  shows "holds (if i + 1 = 64 then transform (ctx\<lparr>buf := (buf ctx)[i := b]\<rparr>) else ctx\<lparr>buf := (buf ctx)[i := b]\<rparr>)
    (msg @ [b])"
proof -
  note h = assms(1) [unfolded holds_def]
  have "i < 64"
    by (simp add: i)
  then have t: "take (Suc i) ((buf ctx)[i := b]) = sha_rest msg @ [b]"
    using h by (simp add: take_Suc_conv_app_nth i)
  show ?thesis
  proof (cases "i + 1 = 64")
    case True
    then have "(buf ctx)[i := b] = sha_rest msg @ [b]"
      using t h by simp
    moreover have "Suc (length msg) mod 64 = 0"
      using True i by (simp add: mod_Suc)
    ultimately show ?thesis
      using True h i by (simp add: holds_def transform_buf transform_length transform_state sha_blocks_snoc sha_rest_snoc)
  next
    case False
    then have "Suc (length msg) mod 64 = Suc i"
      using i by (simp add: mod_Suc)
    then show ?thesis
      using False h t i by (simp add: holds_def sha_blocks_snoc sha_rest_snoc)
  qed
qed

lemma update_loop_holds:
  "holds ctx msg \<Longrightarrow> i = length msg mod 64 \<Longrightarrow>
    holds (update_loop i data ctx) (msg @ data) \<and> count (update_loop i data ctx) = count ctx"
proof (induction data arbitrary: i msg ctx)
  case (Cons b data)
  let ?c = "ctx\<lparr>buf := (buf ctx)[i := b]\<rparr>"
  let ?c' = "if i + 1 = 64 then transform ?c else ?c"
  let ?i = "if i + 1 = 64 then 0 else i + 1"
  have "holds ?c' (msg @ [b])"
    by (rule holds_snoc [OF Cons.prems])
  moreover have "?i = length (msg @ [b]) mod 64"
    using Cons.prems by (simp add: mod_Suc)
  moreover have "count ?c' = count ctx"
    using Cons.prems by (simp add: holds_def transform_count)
  moreover have "update_loop i (b # data) ctx = update_loop ?i data ?c'"
    by (simp add: loop_Cons Let_def)
  ultimately show ?case
    using Cons.IH [of ?c' "msg @ [b]" ?i] by simp
qed (simp add: loop_Nil)

lemma update_absorbed:
  assumes "absorbed ctx msg"
  shows "absorbed (update ctx data) (msg @ data)"
proof -
  have "holds (ctx\<lparr>count := c\<rparr>) msg" for c
    using assms by (simp add: absorbed_def holds_def)
  from update_loop_holds [OF this refl] show ?thesis
    using assms by (simp add: absorbed_def update_eq and_63)
qed

lemma fold_update_absorbed:
  "absorbed ctx msg \<Longrightarrow> absorbed (fold (\<lambda>i ctx. update ctx [f i]) is ctx) (msg @ map f is)"
proof (induction "is" arbitrary: ctx msg)
  case (Cons i "is")
  show ?case
    using Cons.IH [OF update_absorbed [OF Cons.prems, of "[f i]"]] by simp
qed simp

lemma pad_loop_run:
  "absorbed ctx msg \<Longrightarrow> k = (120 - length msg mod 64) mod 64 \<Longrightarrow>
    \<exists>ctx'. pad_loop ctx = Some ctx' \<and> absorbed ctx' (msg @ replicate k 0)"
proof (induction k arbitrary: ctx msg)
  case 0
  then have "length msg mod 64 = 56"
    using pad_count [of "length msg mod 64"] by (simp split: if_splits)
  then have "unat (count ctx AND 63) = unat (56 :: u64)"
    using 0 and_63 [of "length msg"] by (simp add: absorbed_def)
  then have "count ctx AND 63 = 56"
    by (simp only: word_unat_eq_iff)
  then show ?case
    using 0 by (simp add: pad_loop_eq [of ctx])
next
  case (Suc k)
  have r: "length msg mod 64 < 64"
    by simp
  from Suc.prems(2) have "length msg mod 64 \<noteq> 56" and k: "k = (120 - length (msg @ [0 :: byte]) mod 64) mod 64"
    using pad_step [OF r] by (simp_all add: pad_count_Suc)
  then have "count ctx AND 63 \<noteq> 56"
    using Suc and_63 [of "length msg"] by (auto simp: absorbed_def)
  then show ?case
    using Suc.IH [OF update_absorbed [OF Suc.prems(1)] k] by (simp add: pad_loop_eq [of ctx])
qed

lemma updates_absorbed:
  "absorbed ctx msg \<Longrightarrow> absorbed (fold (\<lambda>p c. update c p) parts ctx) (msg @ concat parts)"
proof (induction parts arbitrary: ctx msg)
  case (Cons p parts)
  show ?case
    using Cons.IH [OF update_absorbed [OF Cons.prems, of p]] by simp
qed simp

text \<open>The state after the padding and the length of a message have been absorbed too.\<close>

lemma final_run:
  assumes "absorbed ctx msg"
  shows "\<exists>ctx'. pad_loop (update ctx [0x80]) = Some ctx' \<and>
    absorbed (fold (\<lambda>i ctx. update ctx [ucast (drop_bit ((7 - i) * 8) (count ctx0 * 8))]) [0..<8] ctx')
      (msg @ [0x80] @ replicate ((119 - length msg mod 64) mod 64) 0 @ be64 (count ctx0 * 8))"
proof -
  have "(120 - length (msg @ [0x80 :: byte]) mod 64) mod 64 = (119 - length msg mod 64) mod 64"
    by (simp add: pad_count_Suc)
  with pad_loop_run [OF update_absorbed [OF assms, of "[0x80]"] refl] obtain ctx' where
    c: "pad_loop (update ctx [0x80]) = Some ctx'"
      "absorbed ctx' ((msg @ [0x80]) @ replicate ((119 - length msg mod 64) mod 64) 0)"
    by auto
  from fold_update_absorbed [OF c(2), of "\<lambda>i. ucast (drop_bit ((7 - i) * 8) (count ctx0 * 8))" "[0..<8]"]
  show ?thesis
    using c(1) by (simp add: be64_def)
qed

end

interpretation sha1_hash: block_hash SHA1_Transform 5 sha1_compress SHA_update_loop SHA_update SHA_pad sha1_H0
  by unfold_locales ((erule SHA1_Transform_eq | rule SHA_pad.simps | simp add: SHA_update_def)+)

interpretation sha256_hash:
  block_hash SHA256_Transform 8 sha256_compress SHA256_update_loop SHA256_update SHA256_pad sha256_H0
  by unfold_locales ((erule SHA256_Transform_eq | rule SHA256_pad.simps | simp add: SHA256_update_def)+)

lemma length_concat_be32: "length (concat (map be32 ws)) = 4 * length ws"
  by (induction ws) simp_all

lemma stored_digest:
  assumes "length s = 8" "n \<le> 8"
  shows "take (4 * n) (concat (map (\<lambda>i. be32 (s ! i)) [0..<n]) @ x) = concat (map be32 (take n s))"
proof -
  have "map (\<lambda>i. be32 (s ! i)) [0..<n] = map be32 (take n s)"
    using assms by (intro nth_equalityI) simp_all
  then show ?thesis
    using assms by (simp add: length_concat_be32)
qed

lemma sha1_be32: "sha1 msg = concat (map be32 (fold (\<lambda>blk h. sha1_compress h blk) (sha_blocks (sha_pad msg)) sha1_H0))"
  by (simp add: sha1_def be32_eq [abs_def])

lemma sha256_be32:
  "sha256 msg = concat (map be32 (fold (\<lambda>blk h. sha256_compress h blk) (sha_blocks (sha_pad msg)) sha256_H0))"
  by (simp add: sha256_def be32_eq [abs_def])

lemma SHA_final_run:
  assumes "sha1_hash.absorbed ctx msg"
  shows "\<exists>ctx'. SHA_final ctx = Some ctx' \<and> take SHA_DIGEST_SIZE (buf ctx') = sha1 msg"
proof -
  have cnt: "count ctx * 8 = of_nat (8 * length msg)"
    using assms by (simp add: sha1_hash.absorbed_def)
  from sha1_hash.final_run [OF assms, of ctx] obtain c where
    c: "SHA_pad (SHA_update ctx [0x80]) = Some c"
      "sha1_hash.absorbed (fold (\<lambda>i ctx'. SHA_update ctx' [ucast (drop_bit ((7 - i) * 8) (count ctx * 8))]) [0..<8] c)
        (sha_pad msg)"
    unfolding sha_pad_def cnt be64_eq by auto
  then show ?thesis
    using stored_digest [of _ 5]
    by (auto simp: SHA_final_def Let_def sha1_hash.absorbed_def sha1_hash.holds_def sha1_be32 SHA_DIGEST_SIZE_def)
qed

lemma SHA256_final_run:
  assumes "sha256_hash.absorbed ctx msg"
  shows "\<exists>ctx'. SHA256_final ctx = Some ctx' \<and> take SHA256_DIGEST_SIZE (buf ctx') = sha256 msg"
proof -
  have cnt: "count ctx * 8 = of_nat (8 * length msg)"
    using assms by (simp add: sha256_hash.absorbed_def)
  from sha256_hash.final_run [OF assms, of ctx] obtain c where
    c: "SHA256_pad (SHA256_update ctx [0x80]) = Some c"
      "sha256_hash.absorbed (fold (\<lambda>i ctx'. SHA256_update ctx' [ucast (drop_bit ((7 - i) * 8) (count ctx * 8))]) [0..<8] c)
        (sha_pad msg)"
    unfolding sha_pad_def cnt be64_eq by auto
  then show ?thesis
    using stored_digest [of _ 8]
    by (auto simp: SHA256_final_def Let_def sha256_hash.absorbed_def sha256_hash.holds_def sha256_be32 SHA256_DIGEST_SIZE_def)
qed

definition ctx_arrays :: "HASH_CTX \<Rightarrow> bool" where
  "ctx_arrays ctx \<longleftrightarrow> length (buf ctx) = 64 \<and> length (state ctx) = 8"

lemma eight_words:
  obtains s0 s1 s2 s3 s4 s5 s6 s7 where "s = [s0, s1, s2, s3, s4, s5, s6, s7]" | "length s \<noteq> 8"
proof (cases "length s = 8")
  case True
  then obtain s0 s1 s2 s3 s4 s5 s6 s7 where "s = [s0, s1, s2, s3, s4, s5, s6, s7]"
    by (auto simp: length_Suc_conv numeral_eq_Suc)
  then show ?thesis
    by (rule that(1))
qed (rule that(2))

lemma SHA_init_absorbed: "ctx_arrays ctx \<Longrightarrow> sha1_hash.absorbed (SHA_init ctx) []"
  unfolding sha1_hash.absorbed_def sha1_hash.holds_def
  by (cases "state ctx" rule: eight_words)
    (auto simp: ctx_arrays_def SHA_init_def sha_rest_def sha_blocks.simps [of "[]"] sha1_H0_def)

lemma SHA256_init_absorbed: "ctx_arrays ctx \<Longrightarrow> sha256_hash.absorbed (SHA256_init ctx) []"
  unfolding sha256_hash.absorbed_def sha256_hash.holds_def
  by (cases "state ctx" rule: eight_words)
    (auto simp: ctx_arrays_def SHA256_init_def sha_rest_def sha_blocks.simps [of "[]"] sha256_H0_eq)

definition ex_ctx :: HASH_CTX where
  "ex_ctx = \<lparr>hash_f = SHA_VTAB, count = 12, buf = replicate 64 7, state = replicate 8 1\<rparr>"

text \<open>
  C6: However a message is split over calls of \<^verbatim>\<open>SHA256_update\<close> (whose length is an \<^verbatim>\<open>int\<close>), on a context with arbitrary initial
  contents \<^verbatim>\<open>SHA256_final\<close> returns, and leaves in the buffer the SHA-256 digest that FIPS 180-4 defines
  for the whole message.
\<close>

theorem SHA256_standard:
  assumes "ctx_arrays ctx" "\<forall>p \<in> set parts. length p < 2 ^ 31"
  shows "\<exists>ctx'. SHA256_final (fold (\<lambda>p c. SHA256_update c p) parts (SHA256_init ctx)) = Some ctx' \<and>
    take SHA256_DIGEST_SIZE (buf ctx') = sha256 (concat parts)"
  using SHA256_final_run [OF sha256_hash.updates_absorbed [OF SHA256_init_absorbed [OF assms(1)]], of parts] by simp

theorem SHA256_standard_witness:
  "\<exists>ctx'. SHA256_final (SHA256_update (SHA256_update (SHA256_init ex_ctx) [0x61]) [0x62, 0x63]) = Some ctx' \<and>
    take SHA256_DIGEST_SIZE (buf ctx') = sha256 [0x61, 0x62, 0x63]"
  using SHA256_standard [of ex_ctx "[[0x61], [0x62, 0x63]]"] by (simp add: ctx_arrays_def ex_ctx_def)

lemma SHA256_hash_run: "ctx_arrays ctx \<Longrightarrow> SHA256_hash ctx data = Some (sha256 data)"
  using SHA256_final_run [OF sha256_hash.update_absorbed [OF SHA256_init_absorbed], of ctx data]
  by (auto simp: SHA256_hash_def)

lemma SHA_hash_run: "ctx_arrays ctx \<Longrightarrow> SHA_hash ctx data = Some (sha1 data)"
  using SHA_final_run [OF sha1_hash.update_absorbed [OF SHA_init_absorbed], of ctx data]
  by (auto simp: SHA_hash_def)

text \<open>
  C28: However a message is split over calls of \<^verbatim>\<open>SHA_update\<close> (whose length is an \<^verbatim>\<open>int\<close>), on a context with arbitrary initial contents
  \<^verbatim>\<open>SHA_final\<close> returns, and leaves in the buffer the SHA-1 digest that FIPS 180-4 defines for the
  whole message.
\<close>

theorem SHA_standard:
  assumes "ctx_arrays ctx" "\<forall>p \<in> set parts. length p < 2 ^ 31"
  shows "\<exists>ctx'. SHA_final (fold (\<lambda>p c. SHA_update c p) parts (SHA_init ctx)) = Some ctx' \<and>
    take SHA_DIGEST_SIZE (buf ctx') = sha1 (concat parts)"
  using SHA_final_run [OF sha1_hash.updates_absorbed [OF SHA_init_absorbed [OF assms(1)]], of parts] by simp

theorem SHA_standard_witness:
  "\<exists>ctx'. SHA_final (SHA_update (SHA_update (SHA_init ex_ctx) [0x61]) [0x62, 0x63]) = Some ctx' \<and>
    take SHA_DIGEST_SIZE (buf ctx') = sha1 [0x61, 0x62, 0x63]"
  using SHA_standard [of ex_ctx "[[0x61], [0x62, 0x63]]"] by (simp add: ctx_arrays_def ex_ctx_def)

end
