(* ===== verification/Bignum.thy ===== *)
theory Bignum
  imports Prelude
begin

text \<open>
  Multi-precision numbers as the code of \<^verbatim>\<open>libmincrypt\<close> keeps them: little-endian lists of 32-bit
  digits, processed upwards with a 64-bit carry (unsigned) or borrow (signed).
\<close>

section \<open>The value of a list of digits\<close>

fun wval :: "u32 list \<Rightarrow> int" where
  "wval [] = 0"
| "wval (w # ws) = uint w + 2 ^ 32 * wval ws"

lemma wval_nonneg [simp]: "0 \<le> wval ws"
  by (induction ws) simp_all

lemma u32_bounds: "uint (w :: u32) \<le> 2 ^ 32 - 1" "uint (w :: u32) < 2 ^ 32" "0 \<le> uint (w :: u32)"
  using unsigned_less [of w, where ?'a = int] by simp_all

lemma wval_less: "wval ws < 2 ^ (32 * length ws)"
proof (induction ws)
  case (Cons w ws)
  then have "wval ws + 1 \<le> 2 ^ (32 * length ws)"
    by simp
  then have "2 ^ 32 * (wval ws + 1) \<le> 2 ^ 32 * (2 ^ (32 * length ws) :: int)"
    by (rule mult_left_mono) simp
  then show ?case
    using u32_bounds(2) [of w] by (simp add: power_add)
qed simp

lemma base_power_Cons: "2 ^ (32 * length (x # xs)) = 2 ^ 32 * (2 ^ (32 * length xs) :: int)"
  by (simp add: power_add)

lemma wval_append: "wval (us @ ws) = wval us + 2 ^ (32 * length us) * wval ws"
  by (induction us) (simp_all add: power_add algebra_simps)

lemma wval_replicate_0 [simp]: "wval (replicate n 0) = 0"
  by (induction n) simp_all

lemma wval_inject:
  "length us = length ws \<Longrightarrow> wval us = wval ws \<Longrightarrow> us = ws"
proof (induction us ws rule: list_induct2)
  case (Cons u us w ws)
  have "(uint u + 2 ^ 32 * wval us) mod 2 ^ 32 = (uint w + 2 ^ 32 * wval ws) mod 2 ^ 32"
    "(uint u + 2 ^ 32 * wval us) div 2 ^ 32 = (uint w + 2 ^ 32 * wval ws) div 2 ^ 32"
    using Cons.prems by simp_all
  then have "uint u = uint w" "wval us = wval ws"
    using u32_bounds(2) [of u] u32_bounds(2) [of w] by simp_all
  then show ?case
    using Cons.IH by (simp add: word_uint_eq_iff)
qed simp

text \<open>Reducing a number modulo a power of the base leaves its lowest digit.\<close>

lemma digit_mod:
  assumes "0 \<le> (d :: int)" "d < 2 ^ 32"
  shows "(d + 2 ^ 32 * x) mod 2 ^ (32 * Suc n) = d + 2 ^ 32 * (x mod 2 ^ (32 * n))"
proof -
  define m :: int where "m = 2 ^ (32 * n)"
  have m: "0 < m" and p: "2 ^ (32 * Suc n) = 2 ^ 32 * m"
    by (simp_all add: m_def power_add)
  have "2 ^ 32 * x = 2 ^ 32 * (x mod m + m * (x div m))"
    by simp
  then have "d + 2 ^ 32 * x = d + 2 ^ 32 * (x mod m) + 2 ^ 32 * m * (x div m)"
    by (simp only: distrib_left mult.assoc add.assoc)
  then have "(d + 2 ^ 32 * x) mod (2 ^ 32 * m) = (d + 2 ^ 32 * (x mod m)) mod (2 ^ 32 * m)"
    by (simp only: mod_mult_self2)
  moreover have "x mod m + 1 \<le> m"
    using pos_mod_bound [OF m, of x] by simp
  then have "2 ^ 32 * (x mod m + 1) \<le> 2 ^ 32 * m"
    by (rule mult_left_mono) simp
  then have "d + 2 ^ 32 * (x mod m) < 2 ^ 32 * m"
    using assms by simp
  moreover have "0 \<le> d + 2 ^ 32 * (x mod m)"
    using assms m by simp
  ultimately show ?thesis
    unfolding p m_def [symmetric] by (simp only: mod_pos_pos_trivial)
qed

lemma mod_borrow:
  assumes "x < 0" "- R \<le> (x :: int)"
  shows "x mod R = x + R"
proof -
  have "(x + R) mod R = x + R"
    using assms by (intro mod_pos_pos_trivial) linarith+
  then show ?thesis
    by simp
qed

section \<open>Digits of 64-bit words\<close>

named_theorems digit_simps \<open>the digits of a 64-bit carry as integers\<close>

lemma uint_low [digit_simps]: "uint (ucast (x :: u64) :: u32) = uint x mod 2 ^ 32"
  by (simp add: unsigned_ucast_eq take_bit_eq_mod)

lemma uint_high [digit_simps]: "uint (drop_bit 32 (x :: u64)) = uint x div 2 ^ 32"
  by (simp add: drop_bit_eq_div uint_div)

lemma uint_wide [digit_simps]: "uint (ucast (x :: u32) :: u64) = uint x"
  using u32_bounds(2) [of x] by (simp add: unsigned_ucast_eq take_bit_eq_mod)

lemma mac_bound:
  fixes x y z w :: int
  assumes "0 \<le> x" "x < 2 ^ 32" "0 \<le> y" "y < 2 ^ 32" "0 \<le> z" "z < 2 ^ 32" "0 \<le> w" "w < 2 ^ 32"
  shows "x + y * z + w < 2 ^ 64"
proof -
  have "y * z \<le> (2 ^ 32 - 1) * (2 ^ 32 - 1)"
    using assms by (intro mult_mono) simp_all
  then show ?thesis
    using assms by simp
qed

text \<open>A multiply-and-add step does not overflow.\<close>

lemma uint_mac:
  fixes A :: u64 and y z w :: u32
  assumes "uint A < 2 ^ 32"
  shows "uint (A + ucast y * ucast z + ucast w) = uint A + uint y * uint z + uint w"
proof -
  have b: "uint A + uint y * uint z + uint w < 2 ^ 64"
    using assms u32_bounds(2) by (intro mac_bound) simp_all
  have "0 \<le> uint y * uint z"
    by simp
  then have "uint y * uint z < 2 ^ 64" "uint A + uint y * uint z < 2 ^ 64"
    using b unsigned_greater_eq [of A, where ?'a = int] unsigned_greater_eq [of w, where ?'a = int] by linarith+
  then show ?thesis
    using b by (simp add: uint_word_ariths uint_wide)
qed

text \<open>A signed borrow: a 64-bit word that stands for an integer in its signed range.\<close>

lemma sint_of_int_u64: "- (2 ^ 63) \<le> x \<Longrightarrow> x < 2 ^ 63 \<Longrightarrow> sint (word_of_int x :: u64) = x"
  by (simp add: signed_of_int signed_take_bit_int_eq_self_iff)

lemma signed_shift:
  fixes x :: int
  assumes "- (2 ^ 63) \<le> x" "x < 2 ^ 63"
  shows "signed_drop_bit 32 (word_of_int x :: u64) = word_of_int (x div 2 ^ 32)"
proof (rule signed_word_eqI)
  have "- (2 ^ 63) \<le> x div 2 ^ 32" "x div 2 ^ 32 < 2 ^ 63"
    using assms by simp_all
  then show "sint (signed_drop_bit 32 (word_of_int x :: u64)) = sint (word_of_int (x div 2 ^ 32) :: u64)"
    using assms by (simp add: sint_signed_drop_bit_eq sint_of_int_u64 drop_bit_eq_div)
qed

text \<open>A borrow out of a digit is 0 or -1.\<close>

lemma borrow_out:
  assumes "- (2 ^ 32) \<le> (d :: int)" "d < 2 ^ 32"
  shows "d div 2 ^ 32 = (if 0 \<le> d then 0 else - 1)"
proof (cases "0 \<le> d")
  case False
  then have "(d + 2 ^ 32) div 2 ^ 32 = 0"
    using assms by (intro div_pos_pos_trivial) simp_all
  then show ?thesis
    using False by simp
qed (use assms in \<open>simp add: div_pos_pos_trivial\<close>)

lemma wide_of_int: "(ucast (x :: u32) :: u64) = word_of_int (uint x)"
  by (rule ucast_eq)

lemma low_of_int: "(ucast (word_of_int x :: u64) :: u32) = word_of_int x"
  by (rule bit_word_eqI) (simp add: bit_simps)

lemma low_minus_1 [simp]: "(ucast (- 1 :: u64) :: u32) = - 1"
  using low_of_int [of "- 1"] by simp

lemma uint_max: "uint (- 1 :: u32) = 2 ^ 32 - 1"
  by (simp add: unsigned_minus_1_eq_mask mask_eq_exp_minus_1)

lemma uint_of_int_u32: "uint (word_of_int x :: u32) = x mod 2 ^ 32"
  by (simp add: uint_word_of_int)

section \<open>Digit loops\<close>

text \<open>
  The loops that the files of the library repeat: subtraction with a signed 64-bit borrow, addition
  and multiplication by a digit with an unsigned 64-bit carry.  The result is the digits and the
  last borrow or carry.
\<close>

fun sub_digits :: "u64 \<Rightarrow> u32 list \<Rightarrow> u32 list \<Rightarrow> u32 list \<times> u64" where
  "sub_digits borrow (x # xs) (y # ys) = (let borrow = borrow + (ucast x - ucast y) in
     case sub_digits (signed_drop_bit 32 borrow) xs ys of (r, b) \<Rightarrow> (ucast borrow # r, b))"
| "sub_digits borrow xs ys = ([], borrow)"

fun add_digits :: "u64 \<Rightarrow> u32 list \<Rightarrow> u32 list \<Rightarrow> u32 list \<times> u64" where
  "add_digits carry (x # xs) (y # ys) = (let carry = carry + ucast x + ucast y in
     case add_digits (drop_bit 32 carry) xs ys of (r, c) \<Rightarrow> (ucast carry # r, c))"
| "add_digits carry xs ys = ([], carry)"

fun mul_digits :: "u32 \<Rightarrow> u64 \<Rightarrow> u32 list \<Rightarrow> u32 list \<Rightarrow> u32 list \<times> u64" where
  "mul_digits b carry (x # xs) (c # cs) = (let carry = carry + ucast c + ucast x * ucast b in
     case mul_digits b (drop_bit 32 carry) xs cs of (r, k) \<Rightarrow> (ucast carry # r, k))"
| "mul_digits b carry xs cs = ([], carry)"

lemma digit_step:
  fixes K :: int
  assumes "low + K * high = b + x - y" "r + P * z = u - v + high"
  shows "(low + K * r) + (K * P) * z = (x + K * u) - (y + K * v) + b"
  using assms by algebra

lemma sub_digits_run:
  assumes "length xs = length ys" "bor = 0 \<or> bor = - 1" "sub_digits (word_of_int bor) xs ys = (r, b)"
  obtains z where "length r = length ys" "z = 0 \<or> z = - 1" "b = word_of_int z"
    "wval r + 2 ^ (32 * length ys) * z = wval xs - wval ys + bor"
proof -
  have "length r = length ys \<and> (\<exists>z. (z = 0 \<or> z = - 1) \<and> b = word_of_int z \<and>
    wval r + 2 ^ (32 * length ys) * z = wval xs - wval ys + bor)"
    using assms
  proof (induction xs ys arbitrary: bor r rule: list_induct2)
    case (Cons x xs y ys)
    define d where "d = bor + uint x - uint y"
    define h where "h = d div 2 ^ 32"
    have d: "- (2 ^ 32) \<le> d" "d < 2 ^ 32"
      using Cons.prems(1) u32_bounds [of x] u32_bounds [of y] unfolding d_def by linarith+
    then have d': "- (2 ^ 63) \<le> d" "d < 2 ^ 63"
      by simp_all
    have h: "h = 0 \<or> h = - 1"
      using borrow_out [OF d] by (simp add: h_def)
    have w: "word_of_int bor + (ucast x - ucast y) = (word_of_int d :: u64)"
      by (simp only: wide_of_int d_def of_int_add of_int_diff add_diff_eq)
    obtain r1 where r1: "sub_digits (word_of_int h) xs ys = (r1, b)" "r = word_of_int d # r1"
      using Cons.prems(2) unfolding sub_digits.simps w Let_def signed_shift [OF d'] h_def [symmetric] low_of_int
      by (auto split: prod.splits)
    obtain z where z: "length r1 = length ys" "z = 0 \<or> z = - 1" "b = word_of_int z"
      "wval r1 + 2 ^ (32 * length ys) * z = wval xs - wval ys + h"
      using Cons.IH [OF h r1(1)] by blast
    have "d mod 2 ^ 32 + 2 ^ 32 * h = bor + uint x - uint y"
      by (simp add: h_def d_def)
    from digit_step [OF this z(4)] show ?case
      using z(1-3) by (simp only: r1(2) wval.simps uint_of_int_u32 base_power_Cons) auto
  qed auto
  then show ?thesis
    using that by blast
qed

lemma add_digits_run:
  assumes "length xs = length ys" "uint k \<le> 1" "add_digits k xs ys = (r, c)"
  shows "length r = length ys \<and> uint c \<le> 1 \<and> wval r + 2 ^ (32 * length ys) * uint c = wval xs + wval ys + uint k"
  using assms
proof (induction xs ys arbitrary: k r rule: list_induct2)
  case (Cons x xs y ys)
  define s where "s = k + ucast x + ucast y"
  obtain r1 where r1: "add_digits (drop_bit 32 s) xs ys = (r1, c)" "r = ucast s # r1"
    using Cons.prems(2) by (auto simp: s_def [symmetric] Let_def split: prod.splits)
  have s: "uint s = uint k + uint x + uint y"
    using Cons.prems(1) u32_bounds [of x] u32_bounds [of y] by (simp add: s_def uint_word_ariths uint_wide)
  then have "uint (drop_bit 32 s) \<le> 1"
    using Cons.prems(1) u32_bounds [of x] u32_bounds [of y] by (simp add: uint_high)
  note IH = Cons.IH [OF this r1(1)]
  have "uint s mod 2 ^ 32 + 2 ^ 32 * (uint s div 2 ^ 32) = uint k + uint x - (- uint y)"
    using mult_div_mod_eq [of "2 ^ 32" "uint s"] unfolding s by simp
  moreover have "wval r1 + 2 ^ (32 * length ys) * uint c = wval xs - (- wval ys) + uint s div 2 ^ 32"
    using IH by (simp add: uint_high)
  ultimately have "(uint s mod 2 ^ 32 + 2 ^ 32 * wval r1) + (2 ^ 32 * 2 ^ (32 * length ys)) * uint c =
      (uint x + 2 ^ 32 * wval xs) - (- uint y + 2 ^ 32 * (- wval ys)) + uint k"
    by (rule digit_step)
  then show ?case
    using IH by (simp only: r1(2) wval.simps uint_low base_power_Cons) simp
qed simp

lemma mul_digits_run:
  assumes "length xs = length cs" "uint k < 2 ^ 32" "mul_digits b k xs cs = (r, t)"
  shows "length r = length cs \<and> uint t < 2 ^ 32 \<and>
    wval r + 2 ^ (32 * length cs) * uint t = wval cs + uint b * wval xs + uint k"
  using assms
proof (induction xs cs arbitrary: k r rule: list_induct2)
  case (Cons x xs c cs)
  define s where "s = k + ucast c + ucast x * ucast b"
  obtain r1 where r1: "mul_digits b (drop_bit 32 s) xs cs = (r1, t)" "r = ucast s # r1"
    using Cons.prems(2) by (auto simp: s_def [symmetric] Let_def split: prod.splits)
  have "s = k + ucast x * ucast b + ucast c"
    by (simp add: s_def)
  then have s: "uint s = uint k + uint x * uint b + uint c"
    using uint_mac [OF Cons.prems(1), of x b c] by simp
  have "uint (drop_bit 32 s) < 2 ^ 32"
    using unsigned_less [of s, where ?'a = int] by (simp add: uint_high)
  note IH = Cons.IH [OF this r1(1)]
  have "uint s mod 2 ^ 32 + 2 ^ 32 * (uint s div 2 ^ 32) = uint k + uint c - (- (uint b * uint x))"
    using mult_div_mod_eq [of "2 ^ 32" "uint s"] unfolding s by (simp add: mult.commute)
  moreover have "wval r1 + 2 ^ (32 * length cs) * uint t = wval cs - (- (uint b * wval xs)) + uint s div 2 ^ 32"
    using IH by (simp add: uint_high)
  ultimately have "(uint s mod 2 ^ 32 + 2 ^ 32 * wval r1) + (2 ^ 32 * 2 ^ (32 * length cs)) * uint t =
      (uint c + 2 ^ 32 * wval cs) - (- (uint b * uint x) + 2 ^ 32 * (- (uint b * wval xs))) + uint k"
    by (rule digit_step)
  then show ?case
    using IH by (simp only: r1(2) wval.simps uint_low base_power_Cons) (simp add: algebra_simps)
qed simp

lemma sub_digits_mod:
  assumes "length xs = length ys"
  shows "length (fst (sub_digits 0 xs ys)) = length ys"
    "wval (fst (sub_digits 0 xs ys)) = (wval xs - wval ys) mod 2 ^ (32 * length ys)"
    "snd (sub_digits 0 xs ys) = (if wval xs < wval ys then - 1 else 0)"
proof -
  obtain r b where r: "sub_digits (word_of_int 0) xs ys = (r, b)"
    by fastforce
  obtain z where z: "length r = length ys" "z = 0 \<or> z = - 1" "b = word_of_int z"
    "wval r + 2 ^ (32 * length ys) * z = wval xs - wval ys + 0"
    using sub_digits_run [OF assms _ r] by blast
  have l: "wval r < 2 ^ (32 * length ys)" "0 \<le> wval r"
    using wval_less [of r] z(1) by simp_all
  have "(wval xs - wval ys) mod 2 ^ (32 * length ys) = (wval r + 2 ^ (32 * length ys) * z) mod 2 ^ (32 * length ys)"
    using z(4) by simp
  also have "\<dots> = wval r"
    using l by (simp only: mod_mult_self2) simp
  finally show "wval (fst (sub_digits 0 xs ys)) = (wval xs - wval ys) mod 2 ^ (32 * length ys)"
    using r by simp
  show "length (fst (sub_digits 0 xs ys)) = length ys"
    using r z(1) by simp
  have "z = 0 \<Longrightarrow> wval r = wval xs - wval ys" "z = - 1 \<Longrightarrow> wval r - 2 ^ (32 * length ys) = wval xs - wval ys"
    using z(4) by simp_all
  then have "z = 0 \<Longrightarrow> \<not> wval xs < wval ys" "z = - 1 \<Longrightarrow> wval xs < wval ys"
    using l by linarith+
  then show "snd (sub_digits 0 xs ys) = (if wval xs < wval ys then - 1 else 0)"
    using r z(2,3) by auto
qed

end
