(* ===== verification/Octets.thy ===== *)
theory Octets
  imports Sha Bignum
begin

text \<open>
  How the big-endian loads and stores of \<^verbatim>\<open>libmincrypt\<close> relate octet strings, read as
  integers, to the little-endian digit lists.
\<close>

lemma os2ip_be32: "os2ip (be32 w) = uint w"
proof -
  define q1 q2 q3 where "q1 = uint w div 256" and "q2 = q1 div 256" and "q3 = q2 div 256"
  have d: "uint w div 65536 = q2" "uint w div 16777216 = q3"
    by (simp_all add: q1_def q2_def q3_def flip: zdiv_zmult2_eq)
  have "q3 < 256" "0 \<le> q3"
    using u32_bounds [of w] by (simp_all add: pos_imp_zdiv_nonneg_iff flip: d)
  then have "uint (ucast (drop_bit 24 w) :: byte) = q3" "uint (ucast (drop_bit 16 w) :: byte) = q2 mod 256"
    "uint (ucast (drop_bit 8 w) :: byte) = q1 mod 256" "uint (ucast w :: byte) = uint w mod 256"
    by (simp_all add: unsigned_ucast_eq take_bit_eq_mod drop_bit_eq_div uint_div d q1_def)
  then show ?thesis
    using mult_div_mod_eq [of 256 "uint w"] mult_div_mod_eq [of 256 q1] mult_div_mod_eq [of 256 q2]
    by (simp add: be32_def os2ip_def q1_def [symmetric] q2_def [symmetric] q3_def [symmetric])
qed

lemma wval_load_words: "length p = 4 * k \<Longrightarrow> wval (rev (map (load_word p) [0..<k])) = os2ip p"
proof (induction k arbitrary: p)
  case (Suc k)
  let ?q = "take (4 * k) p" and ?r = "[p ! (4 * k), p ! (4 * k + 1), p ! (4 * k + 2), p ! (4 * k + 3)]"
  have "drop (4 * k) p = map (\<lambda>i. p ! (4 * k + i)) [0..<4]"
    using Suc.prems by (intro nth_equalityI) simp_all
  moreover have "[0..<4] = [0, 1, 2, 3 :: nat]"
    by (simp add: upt_rec)
  ultimately have "drop (4 * k) p = ?r"
    by simp
  then have p: "p = ?q @ ?r"
    by (metis append_take_drop_id)
  have "map (load_word p) [0..<k] = map (load_word ?q) [0..<k]"
    by (simp add: load_word_def)
  moreover have "wval (rev (map (load_word ?q) [0..<k])) = os2ip ?q"
    using Suc.prems by (intro Suc.IH) simp
  ultimately have "wval (rev (map (load_word p) [0..<Suc k])) = os2ip ?r + 2 ^ 32 * os2ip ?q"
    by (simp add: uint_load_word del: map_eq_conv)
  also have "\<dots> = os2ip (?q @ ?r)"
    unfolding os2ip_append by simp
  finally show ?case
    using p by simp
qed simp

lemma os2ip_words: "os2ip (concat (map be32 (rev ws))) = wval ws"
proof (induction ws)
  case (Cons w ws)
  then show ?case
    unfolding wval.simps list.map rev.simps map_append concat_append os2ip_append by (simp add: os2ip_be32)
qed simp

end
