(* ===== verification/Rsa.thy ===== *)
theory Rsa
  imports Octets
begin

text \<open>
  \<^verbatim>\<open>libmincrypt/rsa.c\<close>: verification of 2048-bit PKCS#1 v1.5 signatures by Montgomery multiplication.
  The arrays of a key are lists of \<^verbatim>\<open>RSANUMWORDS\<close> digits, little-endian; the loops over \<^verbatim>\<open>key->len\<close>
  digits run over these lists, since \<^verbatim>\<open>RSA_verify\<close> refuses a key of any other length.  The local
  contexts of the digests are uninitialised memory, an argument of \<^verbatim>\<open>RSA_verify\<close> here.
\<close>

section \<open>The code\<close>

definition RSANUMBYTES :: nat where
  "RSANUMBYTES = 256"

definition RSANUMWORDS :: nat where
  "RSANUMWORDS = RSANUMBYTES div 4"

record RSAPublicKey =
  rsa_len :: int
  n0inv :: u32
  rsa_n :: "u32 list"
  rr :: "u32 list"
  exponent :: int

definition subM :: "RSAPublicKey \<Rightarrow> u32 list \<Rightarrow> u32 list" where
  "subM key a = fst (sub_digits 0 a (rsa_n key))"

text \<open>The comparison goes from the most significant digit down.\<close>

fun geM_loop :: "u32 list \<Rightarrow> u32 list \<Rightarrow> bool" where
  "geM_loop (x # a) (y # n) = (if x < y then False else if x > y then True else geM_loop a n)"
| "geM_loop a n = True"

definition geM :: "RSAPublicKey \<Rightarrow> u32 list \<Rightarrow> bool" where
  "geM key a = geM_loop (rev a) (rev (rsa_n key))"

text \<open>The loop from digit 1 up: the digits stored, and the last \<^verbatim>\<open>A\<close> and \<^verbatim>\<open>B\<close>.\<close>

fun montMulAdd_loop ::
  "u32 \<Rightarrow> u32 \<Rightarrow> u64 \<Rightarrow> u64 \<Rightarrow> u32 list \<Rightarrow> u32 list \<Rightarrow> u32 list \<Rightarrow> u32 list \<times> u64 \<times> u64" where
  "montMulAdd_loop a d0 A B (b # bs) (n # ns) (c # cs) = (
     let A = drop_bit 32 A + ucast a * ucast b + ucast c;
       B = drop_bit 32 B + ucast d0 * ucast n + ucast (ucast A :: u32)
     in case montMulAdd_loop a d0 A B bs ns cs of (out, A', B') \<Rightarrow> (ucast B # out, A', B'))"
| "montMulAdd_loop a d0 A B bs ns cs = ([], A, B)"

definition montMulAdd :: "RSAPublicKey \<Rightarrow> u32 list \<Rightarrow> u32 \<Rightarrow> u32 list \<Rightarrow> u32 list" where
  "montMulAdd key c a b = (
     let A = ucast a * ucast (b ! 0) + ucast (c ! 0);
       d0 = ucast A * n0inv key;
       B = ucast d0 * ucast (rsa_n key ! 0) + ucast (ucast A :: u32)
     in case montMulAdd_loop a d0 A B (tl b) (tl (rsa_n key)) (tl c) of (out, A, B) \<Rightarrow>
       let A = drop_bit 32 A + drop_bit 32 B;
         c = out @ [ucast A]
       in if drop_bit 32 A \<noteq> 0 then subM key c else c)"

definition montMul :: "RSAPublicKey \<Rightarrow> u32 list \<Rightarrow> u32 list \<Rightarrow> u32 list" where
  "montMul key a b = fold (\<lambda>ai c. montMulAdd key c ai b) a (replicate (length (rsa_n key)) 0)"

text \<open>\<^term>\<open>None\<close> is the null \<^verbatim>\<open>aaa\<close> that an unsupported exponent leaves.\<close>

definition modpow :: "RSAPublicKey \<Rightarrow> byte list \<Rightarrow> byte list option" where
  "modpow key inout = (
     let len = length (rsa_n key);
       a = map (\<lambda>i. load_word inout (len - 1 - i)) [0..<len]
     in do {
       aaa \<leftarrow> (if exponent key = 65537 then
           let aR = montMul key a (rr key);
             aR = ((\<lambda>aR. let aaR = montMul key aR aR in montMul key aaR aaR) ^^ 8) aR
           in Some (montMul key aR a)
         else if exponent key = 3 then
           let aR = montMul key a (rr key);
             aaR = montMul key aR aR
           in Some (montMul key aaR a)
         else None);
       let aaa = (if geM key aaa then subM key aaa else aaa);
       Some (concat (map be32 (rev aaa))) })"

definition kExpectedPadShaRsa2048 :: "byte list" where
  "kExpectedPadShaRsa2048 = [
    0xdc, 0xbd, 0xbe, 0x42, 0xd5, 0xf5, 0xa7, 0x2e,
    0x6e, 0xfc, 0xf5, 0x5d, 0xaf, 0x9d, 0xea, 0x68,
    0x7c, 0xfb, 0xf1, 0x67]"

definition kExpectedPadSha256Rsa2048 :: "byte list" where
  "kExpectedPadSha256Rsa2048 = [
    0xab, 0x28, 0x8d, 0x8a, 0xd7, 0xd9, 0x59, 0x92,
    0xba, 0xcc, 0xf8, 0x67, 0x20, 0xe1, 0x15, 0x2e,
    0x39, 0x8d, 0x80, 0x36, 0xd6, 0x6f, 0xf0, 0xfd,
    0x90, 0xe8, 0x7d, 0x8b, 0xe1, 0x7c, 0x87, 0x59]"

text \<open>The result of the comparison; reading outside the signature or the hash is \<^term>\<open>None\<close>.\<close>

definition RSA_verify ::
  "HASH_CTX \<Rightarrow> RSAPublicKey \<Rightarrow> byte list \<Rightarrow> int \<Rightarrow> byte list \<Rightarrow> int \<Rightarrow> bool option" where
  "RSA_verify ctx key signature len hash hash_len = (
     if rsa_len key \<noteq> int RSANUMWORDS then Some False
     else if len \<noteq> int RSANUMBYTES then Some False
     else if hash_len \<noteq> int SHA_DIGEST_SIZE \<and> hash_len \<noteq> int SHA256_DIGEST_SIZE then Some False
     else if exponent key \<noteq> 3 \<and> exponent key \<noteq> 65537 then Some False
     else if length signature < nat len \<or> length hash < nat hash_len then None
     else do {
       buf \<leftarrow> modpow key (take (nat len) signature);
       let k = nat (len - hash_len);
       let buf = take k buf @ map2 (XOR) (drop k buf) (take (nat hash_len) hash);
       if hash_len = int SHA_DIGEST_SIZE then do {
         digest \<leftarrow> SHA_hash ctx buf;
         Some (digest = kExpectedPadShaRsa2048) }
       else do {
         digest \<leftarrow> SHA256_hash ctx buf;
         Some (digest = kExpectedPadSha256Rsa2048) } })"

section \<open>Subtraction and comparison\<close>

lemma subM_run:
  assumes "length a = length (rsa_n key)"
  shows "length (subM key a) = length a"
    "wval (subM key a) = (wval a - wval (rsa_n key)) mod 2 ^ (32 * length a)"
  using sub_digits_mod [OF assms] assms by (simp_all add: subM_def)

lemma geM_loop_run:
  "length a = length n \<Longrightarrow> geM_loop a n \<longleftrightarrow> wval (rev n) \<le> wval (rev a)"
proof (induction a n rule: list_induct2)
  case (Cons x a y n)
  let ?R = "2 ^ (32 * length n) :: int"
  have b: "wval (rev a) < ?R" "wval (rev n) < ?R"
    using wval_less [of "rev a"] wval_less [of "rev n"] Cons.hyps by simp_all
  have v: "wval (rev (x # a)) = wval (rev a) + ?R * uint x" "wval (rev (y # n)) = wval (rev n) + ?R * uint y"
    using Cons.hyps by (simp_all add: wval_append)
  have lt: "p + ?R * i < q + ?R * j" if "i < j" "p < ?R" "0 \<le> q" for i j p q :: int
  proof -
    have "?R * (i + 1) \<le> ?R * j"
      using that by (intro mult_left_mono) simp_all
    then show ?thesis
      using that by (simp add: distrib_left)
  qed
  consider "uint x < uint y" | "uint y < uint x" | "x = y"
    using word_uint_eq_iff [of x y] by linarith
  then show ?case
  proof cases
    case 1
    then show ?thesis
      using lt [OF 1 b(1), of "wval (rev n)"] by (simp only: v) (simp add: word_less_def)
  next
    case 2
    then show ?thesis
      using lt [OF 2 b(2), of "wval (rev a)"] by (simp only: v) (simp add: word_less_def)
  next
    case 3
    then show ?thesis
      using Cons.IH unfolding v by simp
  qed
qed simp

lemma geM_run: "length a = length (rsa_n key) \<Longrightarrow> geM key a \<longleftrightarrow> wval (rsa_n key) \<le> wval a"
  using geM_loop_run [of "rev a" "rev (rsa_n key)"] by (simp add: geM_def)

section \<open>Montgomery multiplication\<close>

lemma mac_step:
  fixes K :: int
  assumes "hA + hB + a * b + d * n + c = bl + K * (hA1 + hB1)"
    and "out + P * x = hA1 + hB1 + a * bs + d * ns + cs"
  shows "bl + K * out + (K * P) * x = hA + hB + a * (b + K * bs) + d * (n + K * ns) + (c + K * cs)"
  using assms by algebra

lemma mac_top:
  fixes K :: int
  assumes "K * q + r = x"
  shows "K * out + (K * P) * x = K * ((out + P * r) + (K * P) * q)"
  unfolding assms [symmetric] by (simp add: algebra_simps)

lemma montMulAdd_loop_run:
  assumes "length bs = length ns" "length ns = length cs" "montMulAdd_loop a d0 A B bs ns cs = (out, A', B')"
  shows "length out = length bs \<and> wval out + 2 ^ (32 * length bs) * (uint A' div 2 ^ 32 + uint B' div 2 ^ 32) =
    uint A div 2 ^ 32 + uint B div 2 ^ 32 + uint a * wval bs + uint d0 * wval ns + wval cs"
  using assms
proof (induction bs ns cs arbitrary: A B out rule: list_induct3)
  case (Cons b bs n ns c cs)
  define A1 where "A1 = drop_bit 32 A + ucast a * ucast b + ucast c"
  define B1 where "B1 = drop_bit 32 B + ucast d0 * ucast n + ucast (ucast A1 :: u32)"
  obtain out1 where r: "montMulAdd_loop a d0 A1 B1 bs ns cs = (out1, A', B')" "out = ucast B1 # out1"
    using Cons.prems by (auto simp: A1_def [symmetric] B1_def [symmetric] Let_def split: prod.splits)
  have hi: "uint (drop_bit 32 (x :: u64)) < 2 ^ 32" for x
    using unsigned_less [of x, where ?'a = int] by (simp add: uint_high)
  have a1: "uint A1 = uint A div 2 ^ 32 + uint a * uint b + uint c"
    unfolding A1_def by (simp only: uint_mac [OF hi] uint_high)
  have b1: "uint B1 = uint B div 2 ^ 32 + uint d0 * uint n + uint A1 mod 2 ^ 32"
    unfolding B1_def by (simp only: uint_mac [OF hi] uint_high uint_low)
  note IH = Cons.IH [OF r(1)]
  have "uint A1 mod 2 ^ 32 + 2 ^ 32 * (uint A1 div 2 ^ 32) = uint A1"
    "uint B1 mod 2 ^ 32 + 2 ^ 32 * (uint B1 div 2 ^ 32) = uint B1"
    by simp_all
  then have "uint A div 2 ^ 32 + uint B div 2 ^ 32 + uint a * uint b + uint d0 * uint n + uint c =
      uint B1 mod 2 ^ 32 + 2 ^ 32 * (uint A1 div 2 ^ 32 + uint B1 div 2 ^ 32)"
    unfolding distrib_left using a1 b1 by linarith
  from mac_step [OF this conjunct2 [OF IH]] show ?case
    using IH by (simp only: r(2) wval.simps uint_low base_power_Cons) simp
qed simp

text \<open>
  One step: with the key's inverse of the lowest digit, the sum of \<^verbatim>\<open>c\<close>, the product and a multiple
  of the modulus has a lowest digit of zero, which the step drops; a carry out of the top is
  removed by subtracting the modulus once.
\<close>

lemma mont_low_zero:
  fixes A d n i :: int
  assumes "(i * n + 1) mod K = 0" "d = (A mod K * i) mod K"
  shows "(d * n + A mod K) mod K = 0"
proof -
  have "(d * n + A mod K) mod K = (A * i * n + A) mod K"
    unfolding assms(2) by (metis mod_add_eq mod_add_left_eq mod_mod_trivial mod_mult_left_eq)
  also have "A * i * n + A = A * (i * n + 1)"
    by algebra
  also have "\<dots> mod K = 0"
    using assms(1) by (metis mod_mult_right_eq mult_zero_right mod_0)
  finally show ?thesis .
qed

lemma mont_bound:
  fixes K R c a b d n :: int
  assumes "0 \<le> c" "c < R" "0 \<le> a" "a < K" "0 \<le> b" "b < R" "0 \<le> d" "d < K" "0 < n"
  shows "c + a * b + d * n < K * R + K * n"
proof -
  have "a * b \<le> (K - 1) * (R - 1)" "d * n \<le> (K - 1) * n"
    using assms by (intro mult_mono; simp)+
  then have "c + a * b + d * n \<le> (R - 1) + (K - 1) * (R - 1) + (K - 1) * n"
    using assms by linarith
  also have "\<dots> = K * R - K + K * n - n"
    by algebra
  finally show ?thesis
    using assms by linarith
qed

lemma mont_top:
  fixes A B :: u64
  assumes "C = drop_bit 32 A + drop_bit 32 B"
  shows "uint C = uint A div 2 ^ 32 + uint B div 2 ^ 32" "uint C div 2 ^ 32 = 0 \<or> uint C div 2 ^ 32 = 1"
proof -
  have d: "0 \<le> uint x div 2 ^ 32" "uint x div 2 ^ 32 < 2 ^ 32" for x :: u64
    using unsigned_less [of x, where ?'a = int] by (simp_all add: pos_imp_zdiv_nonneg_iff)
  show c: "uint C = uint A div 2 ^ 32 + uint B div 2 ^ 32"
    using d [of A] d [of B] by (simp add: assms uint_word_ariths uint_high)
  have "0 \<le> uint C div 2 ^ 32" "uint C div 2 ^ 32 < 2"
    using d [of A] d [of B] unfolding c by simp_all
  then show "uint C div 2 ^ 32 = 0 \<or> uint C div 2 ^ 32 = 1"
    by linarith
qed

lemma montMulAdd_value:
  assumes len: "length b = length n" "length c = length n" "n = rsa_n key" "n \<noteq> []" "0 < wval n"
    and inv: "(uint (n0inv key) * uint (n ! 0) + 1) mod 2 ^ 32 = 0"
  obtains d where "0 \<le> d" "d < 2 ^ 32"
    "length (montMulAdd key c a b) = length n"
    "2 ^ 32 * wval (montMulAdd key c a b) = wval c + uint a * wval b + d * wval n \<or>
     2 ^ 32 * wval (montMulAdd key c a b) = wval c + uint a * wval b + d * wval n - 2 ^ 32 * wval n"
proof -
  obtain b0 bs n0 ns c0 cs where e: "b = b0 # bs" "n = n0 # ns" "c = c0 # cs"
    using len(1,2,4) by (metis length_0_conv list.exhaust)
  have l: "length bs = length ns" "length ns = length cs"
    using len(1,2) unfolding e by simp_all
  define A :: u64 where "A = ucast a * ucast b0 + ucast c0"
  define d0 :: u32 where "d0 = ucast A * n0inv key"
  define B :: u64 where "B = ucast d0 * ucast n0 + ucast (ucast A :: u32)"
  obtain out A' B' where r: "montMulAdd_loop a d0 A B bs ns cs = (out, A', B')"
    by (metis prod_cases3)
  define A2 where "A2 = drop_bit 32 A' + drop_bit 32 B'"
  let ?c = "out @ [ucast A2]"
  let ?V = "wval c + uint a * wval b + uint d0 * wval n"
  let ?R = "2 ^ (32 * length n) :: int"
  have run: "montMulAdd key c a b = (if drop_bit 32 A2 \<noteq> 0 then subM key ?c else ?c)"
    using r by (simp add: montMulAdd_def e len(3) [symmetric] A_def [symmetric] d0_def [symmetric]
        B_def [symmetric] A2_def [symmetric] Let_def)
  have uA: "uint A = uint a * uint b0 + uint c0"
    using uint_mac [of 0 a b0 c0] by (simp add: A_def)
  have uB: "uint B = uint d0 * uint n0 + uint A mod 2 ^ 32"
    using uint_mac [of 0 d0 n0 "ucast A"] by (simp add: B_def uint_low)
  note L = montMulAdd_loop_run [OF l r]
  have uA2: "uint A2 = uint A' div 2 ^ 32 + uint B' div 2 ^ 32"
    by (rule mont_top [OF A2_def])
  have "uint d0 = (uint A mod 2 ^ 32 * uint (n0inv key)) mod 2 ^ 32"
    by (simp add: d0_def uint_word_ariths uint_low)
  then have "uint B mod 2 ^ 32 = 0"
    unfolding uB using inv e(2) by (intro mont_low_zero) simp_all
  then have "0 + 0 + uint a * uint b0 + uint d0 * uint n0 + uint c0 = 0 + 2 ^ 32 * (uint A div 2 ^ 32 + uint B div 2 ^ 32)"
    using uA uB mult_div_mod_eq [of "2 ^ 32" "uint A"] mult_div_mod_eq [of "2 ^ 32" "uint B"]
    unfolding distrib_left by linarith
  from mac_step [OF this conjunct2 [OF L]]
  have V: "?V = 2 ^ 32 * wval out + (2 ^ 32 * 2 ^ (32 * length bs)) * uint A2"
    unfolding e wval.simps uA2 by linarith
  have P: "?R = 2 ^ 32 * 2 ^ (32 * length bs)"
    unfolding e l(1) by (rule base_power_Cons)
  have c: "wval ?c = wval out + 2 ^ (32 * length bs) * (uint A2 mod 2 ^ 32)" "length ?c = length n"
    using L l by (simp_all add: wval_append uint_low e)
  have K: "?V = 2 ^ 32 * (wval ?c + ?R * (uint A2 div 2 ^ 32))"
    unfolding V c P by (rule mac_top [OF mult_div_mod_eq])
  show thesis
  proof (cases "uint A2 div 2 ^ 32 = 0")
    case True
    then have "drop_bit 32 A2 = 0"
      by (simp add: word_uint_eq_iff uint_high)
    then show thesis
      using that [of "uint d0"] u32_bounds [of d0] run c(2) K True by simp
  next
    case False
    then have one: "uint A2 div 2 ^ 32 = 1" and nz: "drop_bit 32 A2 \<noteq> 0"
      using mont_top(2) [OF A2_def] by (auto simp: word_uint_eq_iff uint_high)
    have "?V < 2 ^ 32 * ?R + 2 ^ 32 * wval n"
      using wval_less [of c] wval_less [of b] len u32_bounds by (intro mont_bound) simp_all
    then have "2 ^ 32 * (wval ?c + ?R) < 2 ^ 32 * (?R + wval n)"
      unfolding K one distrib_left by simp
    then have "wval ?c < wval n"
      by simp
    then have "(wval ?c - wval n) mod ?R = wval ?c - wval n + ?R"
      using wval_less [of n] wval_nonneg [of ?c] by (intro mod_borrow) linarith+
    then have "wval (montMulAdd key c a b) = wval ?c - wval n + ?R" "length (montMulAdd key c a b) = length n"
      using run nz subM_run [of ?c key] c(2) len(3) by simp_all
    then show thesis
      using that [of "uint d0"] u32_bounds [of d0] K one by (simp add: algebra_simps)
  qed
qed

text \<open>
  What a 2048-bit key has to satisfy: the modulus uses its top bit, the inverse belongs to the
  lowest digit, and \<^verbatim>\<open>rr\<close> is the square of the Montgomery radix modulo the modulus.
\<close>

definition rsa_radix :: int where
  "rsa_radix = 2 ^ (32 * RSANUMWORDS)"

definition rsa_key_ok :: "RSAPublicKey \<Rightarrow> bool" where
  "rsa_key_ok key \<longleftrightarrow> rsa_len key = int RSANUMWORDS \<and> length (rsa_n key) = RSANUMWORDS \<and>
     length (rr key) = RSANUMWORDS \<and> rsa_radix div 2 \<le> wval (rsa_n key) \<and>
     (uint (n0inv key) * uint (rsa_n key ! 0) + 1) mod 2 ^ 32 = 0 \<and>
     wval (rr key) mod wval (rsa_n key) = rsa_radix\<^sup>2 mod wval (rsa_n key)"

lemma montMul_fold:
  assumes "rsa_key_ok key" "length b = RSANUMWORDS" "length c = RSANUMWORDS"
  shows "length (fold (\<lambda>ai c. montMulAdd key c ai b) a c) = RSANUMWORDS \<and>
    wval (rsa_n key) dvd 2 ^ (32 * length a) * wval (fold (\<lambda>ai c. montMulAdd key c ai b) a c) - (wval c + wval a * wval b)"
  using assms(3)
proof (induction a arbitrary: c)
  case (Cons x a)
  let ?n = "wval (rsa_n key)" and ?c = "montMulAdd key c x b"
  have ne: "rsa_n key \<noteq> []" "0 < ?n"
    using assms(1) by (auto simp: rsa_key_ok_def rsa_radix_def RSANUMWORDS_def RSANUMBYTES_def)
  obtain d where d: "length ?c = RSANUMWORDS"
    "2 ^ 32 * wval ?c = wval c + uint x * wval b + d * ?n \<or>
     2 ^ 32 * wval ?c = wval c + uint x * wval b + d * ?n - 2 ^ 32 * ?n"
    using montMulAdd_value [of b "rsa_n key" c key x] assms Cons.prems ne by (auto simp: rsa_key_ok_def)
  let ?f = "fold (\<lambda>ai c. montMulAdd key c ai b) a ?c"
  have IH: "length ?f = RSANUMWORDS" "?n dvd 2 ^ (32 * length a) * wval ?f - (wval ?c + wval a * wval b)"
    using Cons.IH [OF d(1)] by simp_all
  have "2 ^ 32 * wval ?c - (wval c + uint x * wval b) = d * ?n \<or>
      2 ^ 32 * wval ?c - (wval c + uint x * wval b) = (d - 2 ^ 32) * ?n"
    using d(2) by (auto simp: left_diff_distrib)
  then have "?n dvd 2 ^ 32 * wval ?c - (wval c + uint x * wval b)"
    by (metis dvd_triv_right)
  then have "?n dvd 2 ^ 32 * (2 ^ (32 * length a) * wval ?f - (wval ?c + wval a * wval b)) +
      (2 ^ 32 * wval ?c - (wval c + uint x * wval b))"
    using IH(2) by (intro dvd_add dvd_mult)
  then show ?case
    using IH(1) by (simp add: power_add algebra_simps)
qed simp

lemma montMul_run:
  assumes "rsa_key_ok key" "length a = RSANUMWORDS" "length b = RSANUMWORDS"
  shows "length (montMul key a b) = RSANUMWORDS"
    "wval (rsa_n key) dvd rsa_radix * wval (montMul key a b) - wval a * wval b"
  using montMul_fold [OF assms(1,3), of "replicate RSANUMWORDS 0" a] assms(1,2)
  by (simp_all add: montMul_def rsa_key_ok_def rsa_radix_def)

section \<open>Montgomery form\<close>

lemma rsa_coprime:
  assumes "rsa_key_ok key"
  shows "coprime rsa_radix (wval (rsa_n key))"
proof -
  have "rsa_n key \<noteq> []"
    using assms by (auto simp: rsa_key_ok_def RSANUMWORDS_def RSANUMBYTES_def)
  then obtain n0 ns where n: "rsa_n key = n0 # ns"
    by (cases "rsa_n key") simp_all
  have "2 ^ 32 dvd uint (n0inv key) * uint n0 + 1"
    using assms n by (simp add: rsa_key_ok_def mod_eq_0_iff_dvd)
  then have "2 dvd uint (n0inv key) * uint n0 + 1"
    by (rule dvd_trans [rotated]) simp
  then have "odd (wval (rsa_n key))"
    by (simp add: n)
  then show ?thesis
    by (simp add: rsa_radix_def coprime_power_left_iff)
qed

text \<open>A number \<open>x\<close> in Montgomery form.\<close>

definition mform :: "RSAPublicKey \<Rightarrow> u32 list \<Rightarrow> int \<Rightarrow> bool" where
  "mform key a x \<longleftrightarrow> length a = RSANUMWORDS \<and> wval (rsa_n key) dvd wval a - x * rsa_radix"

lemma radix_cancel:
  assumes "rsa_key_ok key" "wval (rsa_n key) dvd rsa_radix * m - p" "wval (rsa_n key) dvd p - rsa_radix * z"
  shows "wval (rsa_n key) dvd m - z"
proof -
  have "wval (rsa_n key) dvd (rsa_radix * m - p) + (p - rsa_radix * z)"
    using assms(2,3) by (rule dvd_add)
  then have "wval (rsa_n key) dvd rsa_radix * (m - z)"
    by (simp add: right_diff_distrib)
  then show ?thesis
    using rsa_coprime [OF assms(1)] by (simp add: coprime_dvd_mult_right_iff coprime_commute)
qed

lemma mform_enter:
  assumes "rsa_key_ok key" "length a = RSANUMWORDS"
  shows "mform key (montMul key a (rr key)) (wval a)"
proof -
  have "length (rr key) = RSANUMWORDS"
    using assms(1) by (simp add: rsa_key_ok_def)
  note m = montMul_run [OF assms(1,2) this]
  have "wval (rsa_n key) dvd wval (rr key) - rsa_radix\<^sup>2"
    using assms(1) by (simp add: rsa_key_ok_def mod_eq_dvd_iff)
  then have "wval (rsa_n key) dvd wval a * (wval (rr key) - rsa_radix\<^sup>2)"
    by (rule dvd_mult)
  then have "wval (rsa_n key) dvd wval a * wval (rr key) - rsa_radix * (wval a * rsa_radix)"
    by (simp add: algebra_simps power2_eq_square)
  from radix_cancel [OF assms(1) m(2) this] show ?thesis
    using m(1) by (simp add: mform_def)
qed

lemma mform_mult:
  assumes "rsa_key_ok key" "mform key p x" "mform key q y"
  shows "mform key (montMul key p q) (x * y)"
proof -
  have "length p = RSANUMWORDS" "length q = RSANUMWORDS"
    using assms(2,3) by (simp_all add: mform_def)
  note m = montMul_run [OF assms(1) this]
  have "wval (rsa_n key) dvd (wval p - x * rsa_radix) * wval q + (wval q - y * rsa_radix) * (x * rsa_radix)"
    using assms(2,3) by (auto simp: mform_def intro!: dvd_add dvd_mult2)
  then have "wval (rsa_n key) dvd wval p * wval q - rsa_radix * (x * y * rsa_radix)"
    by (simp add: algebra_simps)
  from radix_cancel [OF assms(1) m(2) this] show ?thesis
    using m(1) by (simp add: mform_def)
qed

lemma mform_leave:
  assumes "rsa_key_ok key" "mform key p x" "length a = RSANUMWORDS"
  shows "wval (rsa_n key) dvd wval (montMul key p a) - x * wval a"
proof -
  have "length p = RSANUMWORDS"
    using assms(2) by (simp add: mform_def)
  note m = montMul_run [OF assms(1) this assms(3)]
  have "wval (rsa_n key) dvd (wval p - x * rsa_radix) * wval a"
    using assms(2) by (auto simp: mform_def intro!: dvd_mult2)
  then have "wval (rsa_n key) dvd wval p * wval a - rsa_radix * (x * wval a)"
    by (simp add: algebra_simps)
  from radix_cancel [OF assms(1) m(2) this] show ?thesis .
qed

lemma mform_squarings:
  assumes "rsa_key_ok key" "mform key p x"
  shows "mform key (((\<lambda>aR. let aaR = montMul key aR aR in montMul key aaR aaR) ^^ k) p) (x ^ (4 ^ k))"
proof (induction k)
  case (Suc k)
  from mform_mult [OF assms(1) this this]
  have "mform key (let aaR = montMul key r r in montMul key aaR aaR) (x ^ (4 ^ k) * x ^ (4 ^ k) * (x ^ (4 ^ k) * x ^ (4 ^ k)))"
    if "r = ((\<lambda>aR. let aaR = montMul key aR aR in montMul key aaR aaR) ^^ k) p" for r
    using mform_mult [OF assms(1)] that by (simp add: Let_def)
  moreover have "x ^ (4 ^ k) * x ^ (4 ^ k) * (x ^ (4 ^ k) * x ^ (4 ^ k)) = x ^ (4 ^ Suc k)"
    by (simp add: power_mult power4_eq_xxxx mult.commute [of 4])
  ultimately show ?case
    by simp
qed (use assms in simp)

section \<open>Verification\<close>

definition rsa_exponent :: "RSAPublicKey \<Rightarrow> bool" where
  "rsa_exponent key \<longleftrightarrow> exponent key = 3 \<or> exponent key = 65537"

text \<open>The last step of the exponentiation: one conditional subtraction reduces fully.\<close>

lemma final_reduce:
  assumes "rsa_key_ok key" "length a = RSANUMWORDS"
  shows "length (if geM key a then subM key a else a) = RSANUMWORDS"
    "wval (if geM key a then subM key a else a) = wval a mod wval (rsa_n key)"
proof -
  let ?n = "wval (rsa_n key)"
  have n: "length (rsa_n key) = RSANUMWORDS" "rsa_radix div 2 \<le> ?n"
    using assms(1) by (simp_all add: rsa_key_ok_def)
  then show "length (if geM key a then subM key a else a) = RSANUMWORDS"
    using assms(2) subM_run(1) by simp
  have "rsa_radix = 2 * (rsa_radix div 2)" "0 < rsa_radix"
    by (simp_all add: rsa_radix_def RSANUMWORDS_def RSANUMBYTES_def)
  moreover have "wval a < rsa_radix"
    using wval_less [of a] assms(2) by (simp add: rsa_radix_def)
  ultimately have b: "wval a < 2 * ?n" "0 < ?n" "wval a < rsa_radix"
    using n(2) by linarith+
  show "wval (if geM key a then subM key a else a) = wval a mod ?n"
  proof (cases "?n \<le> wval a")
    case True
    then have "wval a mod ?n = wval a - ?n"
      using b by (metis diff_ge_0_iff_ge diff_less_eq minus_mod_self2 mod_pos_pos_trivial mult_2)
    moreover have "(wval a - ?n) mod rsa_radix = wval a - ?n"
      using True b by (intro mod_pos_pos_trivial) simp_all
    ultimately show ?thesis
      using True geM_run [of a key] subM_run(2) [of a key] assms(2) n(1) by (simp add: rsa_radix_def)
  next
    case False
    then show ?thesis
      using geM_run [of a key] assms(2) n(1) by simp
  qed
qed

lemma modpow_run:
  assumes "rsa_key_ok key" "rsa_exponent key" "length inout = RSANUMBYTES"
  shows "\<exists>em. modpow key inout = Some em \<and> length em = RSANUMBYTES \<and>
    os2ip em = os2ip inout ^ nat (exponent key) mod wval (rsa_n key)"
proof -
  let ?n = "wval (rsa_n key)"
  define a where "a = map (\<lambda>i. load_word inout (RSANUMWORDS - 1 - i)) [0..<RSANUMWORDS]"
  have len: "length (rsa_n key) = RSANUMWORDS"
    using assms(1) by (simp add: rsa_key_ok_def)
  have "a = rev (map (load_word inout) [0..<RSANUMWORDS])"
    unfolding a_def by (intro nth_equalityI) (simp_all add: rev_nth)
  then have a: "length a = RSANUMWORDS" "wval a = os2ip inout"
    using assms(3) by (simp_all add: wval_load_words RSANUMWORDS_def RSANUMBYTES_def)
  let ?sq = "(\<lambda>aR. montMul key (montMul key aR aR) (montMul key aR aR)) ^^ 8"
  let ?red = "\<lambda>m. concat (map be32 (rev (if geM key m then subM key m else m)))"
  have mp: "modpow key inout = (if exponent key = 65537 then Some (?red (montMul key (?sq (montMul key a (rr key))) a))
      else if exponent key = 3 then
        Some (?red (montMul key (montMul key (montMul key a (rr key)) (montMul key a (rr key))) a))
      else None)"
    unfolding modpow_def Let_def len a_def [symmetric] by simp
  note e = mform_enter [OF assms(1) a(1)]
  have fin: "length (?red m) = RSANUMBYTES \<and> os2ip (?red m) = x mod ?n"
    if "length m = RSANUMWORDS" "?n dvd wval m - x" for m x
  proof -
    have "wval m mod ?n = x mod ?n"
      using that(2) by (simp add: mod_eq_dvd_iff)
    then show ?thesis
      using final_reduce [OF assms(1) that(1)] unfolding os2ip_words length_concat_be32
      by (simp add: RSANUMWORDS_def RSANUMBYTES_def)
  qed
  consider "exponent key = 3" | "exponent key = 65537"
    using assms(2) by (auto simp: rsa_exponent_def)
  then show ?thesis
  proof cases
    case 1
    note sq = mform_mult [OF assms(1) e e]
    have "length (montMul key (montMul key (montMul key a (rr key)) (montMul key a (rr key))) a) = RSANUMWORDS"
      using sq montMul_run(1) [OF assms(1) _ a(1)] by (simp add: mform_def)
    note f = fin [OF this mform_leave [OF assms(1) sq a(1)]]
    have "wval a * wval a * wval a = os2ip inout ^ nat (exponent key)"
      using 1 a(2) by (simp add: power3_eq_cube)
    with f show ?thesis
      using 1 unfolding mp by (simp only:) simp
  next
    case 2
    note sq = mform_squarings [OF assms(1) e, of 8, unfolded Let_def]
    have "length (montMul key (?sq (montMul key a (rr key))) a) = RSANUMWORDS"
      using sq montMul_run(1) [OF assms(1) _ a(1)] by (simp add: mform_def)
    note f = fin [OF this mform_leave [OF assms(1) sq a(1)]]
    have "wval a ^ 4 ^ 8 * wval a = os2ip inout ^ nat (exponent key)"
      using 2 a(2) power_add [of "wval a" "4 ^ 8" 1] by simp
    with f show ?thesis
      using 2 unfolding mp by (simp only:) simp
  qed
qed

lemma wval_ones: "wval (replicate k (- 1)) = 2 ^ (32 * k) - 1"
  by (induction k) (simp_all add: power_add uint_max)

definition ex_key :: RSAPublicKey where
  "ex_key = \<lparr>rsa_len = 64, n0inv = 1, rsa_n = replicate 64 (- 1), rr = 1 # replicate 63 0, exponent = 65537\<rparr>"

lemma ex_key_ok: "rsa_key_ok ex_key" "rsa_exponent ex_key"
proof -
  have "(rsa_radix - 1) dvd (1 - rsa_radix\<^sup>2)"
    by (rule dvdI [of _ _ "- 1 - rsa_radix"]) (simp add: power2_eq_square algebra_simps)
  then have "1 mod (rsa_radix - 1) = rsa_radix\<^sup>2 mod (rsa_radix - 1)"
    by (simp add: mod_eq_dvd_iff)
  moreover have "wval (replicate 64 (- 1)) = rsa_radix - 1"
    by (simp add: wval_ones rsa_radix_def RSANUMWORDS_def RSANUMBYTES_def)
  moreover have "rsa_radix div 2 \<le> rsa_radix - 1"
    by (simp add: rsa_radix_def RSANUMWORDS_def RSANUMBYTES_def)
  moreover have "uint (- 1 :: u32) + 1 = 2 ^ 32"
    by (simp add: uint_max)
  ultimately show "rsa_key_ok ex_key"
    by (simp add: rsa_key_ok_def ex_key_def RSANUMWORDS_def RSANUMBYTES_def)
  show "rsa_exponent ex_key"
    by (simp add: rsa_exponent_def ex_key_def)
qed

text \<open>
  C18: For a well-formed 2048-bit key with exponent 3 or 65537, the Montgomery exponentiation \<^verbatim>\<open>modpow\<close>
  replaces the signature by the 256-octet big-endian representation of its power modulo the key's
  modulus, fully reduced, even when the signature is not below the modulus.
\<close>

theorem modpow_correct:
  assumes "rsa_key_ok key" "rsa_exponent key" "length inout = RSANUMBYTES"
  shows "\<exists>em. modpow key inout = Some em \<and> length em = RSANUMBYTES \<and>
    os2ip em = os2ip inout ^ nat (exponent key) mod wval (rsa_n key)"
  by (rule modpow_run [OF assms])

theorem modpow_correct_witness:
  "\<exists>em. modpow ex_key (replicate 255 0 @ [2]) = Some em \<and> length em = RSANUMBYTES"
  using modpow_correct [OF ex_key_ok, of "replicate 255 0 @ [2]"] by (auto simp: RSANUMBYTES_def)

text \<open>
  C5: \<^verbatim>\<open>RSA_verify\<close> with a well-formed key and a signature and hash of the right lengths answers whether
  the digest of the recovered encoded message, its hash part combined with the given hash by
  exclusive or, is the digest of the PKCS#1 v1.5 padding that the file records, for both digests.
\<close>

theorem RSA_verify_correct:
  assumes "rsa_key_ok key" "rsa_exponent key" "ctx_arrays ctx" "length signature = RSANUMBYTES"
    "length hash = SHA_DIGEST_SIZE \<or> length hash = SHA256_DIGEST_SIZE"
  shows "\<exists>em. length em = RSANUMBYTES \<and>
    os2ip em = os2ip signature ^ nat (exponent key) mod wval (rsa_n key) \<and>
    RSA_verify ctx key signature (int (length signature)) hash (int (length hash)) =
      Some (let k = RSANUMBYTES - length hash; m = take k em @ map2 (XOR) (drop k em) hash in
        if length hash = SHA_DIGEST_SIZE then sha1 m = kExpectedPadShaRsa2048
        else sha256 m = kExpectedPadSha256Rsa2048)"
proof -
  obtain em where em: "modpow key signature = Some em" "length em = RSANUMBYTES"
    "os2ip em = os2ip signature ^ nat (exponent key) mod wval (rsa_n key)"
    using modpow_run [OF assms(1,2,4)] by blast
  have "rsa_len key = int RSANUMWORDS"
    using assms(1) by (simp add: rsa_key_ok_def)
  moreover have "nat (int (length signature) - int (length hash)) = RSANUMBYTES - length hash"
    using assms(4) by simp
  ultimately have "RSA_verify ctx key signature (int (length signature)) hash (int (length hash)) =
      Some (let k = RSANUMBYTES - length hash; m = take k em @ map2 (XOR) (drop k em) hash in
        if length hash = SHA_DIGEST_SIZE then sha1 m = kExpectedPadShaRsa2048
        else sha256 m = kExpectedPadSha256Rsa2048)"
    using assms(2,4,5) em(1)
    by (auto simp: RSA_verify_def rsa_exponent_def Let_def SHA256_hash_run [OF assms(3)] SHA_hash_run [OF assms(3)])
  then show ?thesis
    using em by blast
qed

theorem RSA_verify_correct_witness:
  "\<exists>em. length em = RSANUMBYTES \<and>
    RSA_verify ex_ctx ex_key (replicate 256 1) 256 (replicate 32 7) 32 =
      Some (sha256 (take 224 em @ map2 (XOR) (drop 224 em) (replicate 32 7)) = kExpectedPadSha256Rsa2048)"
proof -
  have "ctx_arrays ex_ctx"
    by (simp add: ctx_arrays_def ex_ctx_def)
  from RSA_verify_correct [OF ex_key_ok this, of "replicate 256 1" "replicate 32 7"] show ?thesis
    by (auto simp: RSANUMBYTES_def SHA_DIGEST_SIZE_def SHA256_DIGEST_SIZE_def Let_def)
qed

text \<open>
  \<^verbatim>\<open>RSA_verify\<close> refuses a key of another size or exponent and a signature or hash of another length,
  without looking at them.
\<close>

theorem RSA_verify_refuses:
  assumes "rsa_len key \<noteq> int RSANUMWORDS \<or> len \<noteq> int RSANUMBYTES \<or> \<not> rsa_exponent key \<or>
    hash_len \<noteq> int SHA_DIGEST_SIZE \<and> hash_len \<noteq> int SHA256_DIGEST_SIZE"
  shows "RSA_verify ctx key signature len hash hash_len = Some False"
  using assms by (auto simp: RSA_verify_def rsa_exponent_def)

theorem RSA_verify_refuses_witness: "RSA_verify ex_ctx ex_key [] 0 [] 20 = Some False"
  using RSA_verify_refuses [of ex_key 0 20 ex_ctx "[]" "[]"] by (simp add: RSANUMBYTES_def)

end
