(* ===== verification/P256.thy ===== *)
theory P256
  imports Octets
begin

text \<open>
  \<^verbatim>\<open>libmincrypt/p256.c\<close>: arithmetic on 256-bit unsigned integers, modulo numbers whose most
  significant digit is all ones.  A \<^verbatim>\<open>p256_int\<close> is a list of eight digits, least significant first.
  A failed \<^verbatim>\<open>assert\<close> and a shift by the width of a digit are \<^term>\<open>None\<close>.  A result pointer that
  may be null only decides whether the digits are stored; the functions here return them always.
\<close>

section \<open>The code\<close>

type_synonym p256_int = "u32 list"

definition P256_NDIGITS :: nat where
  "P256_NDIGITS = 8"

definition SECP256r1_n :: p256_int where
  "SECP256r1_n = [0xfc632551, 0xf3b9cac2, 0xa7179e84, 0xbce6faad, - 1, - 1, 0, - 1]"

definition SECP256r1_p :: p256_int where
  "SECP256r1_p = [- 1, - 1, - 1, 0, 0, 0, 1, - 1]"

definition SECP256r1_b :: p256_int where
  "SECP256r1_b = [0x27d2604b, 0x3bce3c3e, 0xcc53b0f6, 0x651d06b0, 0x769886bc, 0xb3ebbd55, 0xaa3a93e7, 0x5ac635d8]"

definition p256_init :: p256_int where
  "p256_init = replicate P256_NDIGITS 0"

definition p256_get_bit :: "p256_int \<Rightarrow> nat \<Rightarrow> u32" where
  "p256_get_bit scalar i = drop_bit (i AND 31) (scalar ! (i div 32)) AND 1"

definition p256_is_zero :: "p256_int \<Rightarrow> bool" where
  "p256_is_zero a = (fold (\<lambda>d r. r OR d) a 0 = 0)"

text \<open>The new top digit and the digits of \<^verbatim>\<open>c\<close>.\<close>

definition mulAdd :: "p256_int \<Rightarrow> u32 \<Rightarrow> u32 \<Rightarrow> u32 list \<Rightarrow> u32 \<times> u32 list" where
  "mulAdd a b topd c = (case mul_digits b 0 a c of (c, carry) \<Rightarrow> (topd + ucast carry, c))"

definition subTop :: "u32 \<Rightarrow> u32 list \<Rightarrow> u32 \<Rightarrow> u32 list \<Rightarrow> (u32 \<times> u32 list) option" where
  "subTop top_a a top_c c = (case sub_digits 0 c a of (c, borrow) \<Rightarrow>
     let borrow = borrow + ucast top_c - ucast top_a in
     if signed_drop_bit 32 borrow = 0 then Some (ucast borrow, c) else None)"

definition p256_subM :: "p256_int \<Rightarrow> u32 \<Rightarrow> u32 list \<Rightarrow> u32 \<Rightarrow> u32 \<times> u32 list" where
  "p256_subM MOD topd c msk = (case sub_digits 0 c (map (\<lambda>d. d AND msk) MOD) of (c, borrow) \<Rightarrow>
     (topd + ucast borrow, c))"

definition addM :: "p256_int \<Rightarrow> u32 \<Rightarrow> u32 list \<Rightarrow> u32 \<Rightarrow> u32 \<times> u32 list" where
  "addM MOD topd c msk = (case add_digits 0 c (map (\<lambda>d. d AND msk) MOD) of (c, carry) \<Rightarrow>
     (topd + ucast carry, c))"

text \<open>The eight digits of the local array \<^verbatim>\<open>tmp\<close> from an index on, and storing them.\<close>

definition window_at :: "nat \<Rightarrow> u32 list \<Rightarrow> u32 list" where
  "window_at i tmp = take P256_NDIGITS (drop i tmp)"

definition set_window :: "nat \<Rightarrow> u32 list \<Rightarrow> u32 list \<Rightarrow> u32 list" where
  "set_window i c tmp = take i tmp @ c @ drop (i + P256_NDIGITS) tmp"

definition modmul_add :: "p256_int \<Rightarrow> nat \<Rightarrow> u32 \<Rightarrow> u32 \<times> u32 list \<Rightarrow> u32 \<times> u32 list" where
  "modmul_add a i bi = (\<lambda>(topd, tmp).
     let tmp = (if i \<noteq> 0 then tmp[i + P256_NDIGITS - 1 := topd] else tmp) in
     case mulAdd a bi 0 (window_at i tmp) of (topd, c) \<Rightarrow> (topd, set_window i c tmp))"

definition modmul_reduce :: "p256_int \<Rightarrow> nat \<Rightarrow> u32 \<times> u32 list \<Rightarrow> (u32 \<times> u32 list) option" where
  "modmul_reduce MOD i = (\<lambda>(topd, tmp).
     case mulAdd MOD topd 0 (replicate P256_NDIGITS 0) of (top_reducer, reducer) \<Rightarrow> do {
       (topd, c) \<leftarrow> subTop top_reducer reducer topd (window_at i tmp);
       if \<not> topd \<le> 1 then None
       else case p256_subM MOD topd c (NOT (topd - 1)) of (topd, c) \<Rightarrow>
         if topd \<noteq> 0 then None
         else let tmp = set_window i c tmp in Some (tmp ! (i + P256_NDIGITS - 1), tmp) })"

fun modmul_reduce_down :: "p256_int \<Rightarrow> nat \<Rightarrow> u32 \<times> u32 list \<Rightarrow> (u32 \<times> u32 list) option" where
  "modmul_reduce_down MOD 0 st = modmul_reduce MOD 0 st"
| "modmul_reduce_down MOD (Suc i) st = do { st \<leftarrow> modmul_reduce MOD (Suc i) st; modmul_reduce_down MOD i st }"

definition p256_modmul :: "p256_int \<Rightarrow> p256_int \<Rightarrow> u32 \<Rightarrow> p256_int \<Rightarrow> p256_int option" where
  "p256_modmul MOD a top_b b = do {
     let st = fold (\<lambda>i. modmul_add a i (b ! i)) [0..<P256_NDIGITS] (0, replicate (P256_NDIGITS * 2 + 1) 0);
     let st = modmul_add a P256_NDIGITS top_b st;
     (_, tmp) \<leftarrow> modmul_reduce_down MOD P256_NDIGITS st;
     let c = window_at 0 tmp;
     let (msk, c) = p256_subM MOD 0 c (- 1);
     Some (snd (addM MOD 0 c msk)) }"

definition p256_is_odd :: "p256_int \<Rightarrow> bool" where
  "p256_is_odd a = (a ! 0 AND 1 \<noteq> 0)"

definition p256_is_even :: "p256_int \<Rightarrow> bool" where
  "p256_is_even a = (\<not> a ! 0 AND 1 \<noteq> 0)"

definition p256_shl :: "p256_int \<Rightarrow> int \<Rightarrow> (u32 \<times> p256_int) option" where
  "p256_shl a n = (let n = n smod 32 in
     if n \<le> 0 then None
     else let s = nat n in
       Some (ucast (drop_bit 32 (push_bit s (ucast (a ! (P256_NDIGITS - 1)) :: u64))),
         map (\<lambda>i. if i = 0 then push_bit s (a ! i) else push_bit s (a ! i) OR drop_bit (32 - s) (a ! (i - 1)))
           [0..<P256_NDIGITS]))"

definition p256_shr :: "p256_int \<Rightarrow> int \<Rightarrow> p256_int option" where
  "p256_shr a n = (let n = n smod 32 in
     if n \<le> 0 then None
     else let s = nat n in
       Some (map (\<lambda>i. if i = P256_NDIGITS - 1 then drop_bit s (a ! i)
         else drop_bit s (a ! i) OR push_bit (32 - s) (a ! (i + 1))) [0..<P256_NDIGITS]))"

definition p256_shr1 :: "p256_int \<Rightarrow> u32 \<Rightarrow> p256_int" where
  "p256_shr1 a highbit = map (\<lambda>i. if i = P256_NDIGITS - 1 then drop_bit 1 (a ! i) OR push_bit 31 highbit
     else drop_bit 1 (a ! i) OR push_bit 31 (a ! (i + 1))) [0..<P256_NDIGITS]"

text \<open>\<^verbatim>\<open>(int)borrow | notzero\<close>, where the borrow is 0 or -1.\<close>

definition p256_cmp :: "p256_int \<Rightarrow> p256_int \<Rightarrow> int" where
  "p256_cmp a b = (case sub_digits 0 a b of (r, borrow) \<Rightarrow>
     let notzero = (if \<exists>d \<in> set r. d \<noteq> 0 then 1 else 0) in
     sint (ucast borrow OR notzero :: u32))"

definition p256_sub :: "p256_int \<Rightarrow> p256_int \<Rightarrow> int \<times> p256_int" where
  "p256_sub a b = (case sub_digits 0 a b of (c, borrow) \<Rightarrow> (sint (ucast borrow :: u32), c))"

definition p256_add :: "p256_int \<Rightarrow> p256_int \<Rightarrow> u32 \<times> p256_int" where
  "p256_add a b = (case add_digits 0 a b of (c, carry) \<Rightarrow> (ucast carry, c))"

definition p256_add_d :: "p256_int \<Rightarrow> u32 \<Rightarrow> u32 \<times> p256_int" where
  "p256_add_d a d = (case add_digits (ucast d) a (replicate P256_NDIGITS 0) of (c, carry) \<Rightarrow> (ucast carry, c))"

definition p256_mod :: "p256_int \<Rightarrow> p256_int \<Rightarrow> p256_int" where
  "p256_mod MOD a = (case p256_subM MOD 0 a (- 1) of (msk, c) \<Rightarrow> snd (addM MOD 0 c msk))"

text \<open>Halving \<^verbatim>\<open>R\<close> or \<^verbatim>\<open>R + MOD\<close>, and subtracting modulo \<^verbatim>\<open>MOD\<close>.\<close>

definition p256_halve_mod :: "p256_int \<Rightarrow> p256_int \<Rightarrow> p256_int" where
  "p256_halve_mod MOD R = (if p256_is_even R then p256_shr1 R 0
     else case p256_add R MOD of (carry, R) \<Rightarrow> p256_shr1 R carry)"

definition p256_sub_mod :: "p256_int \<Rightarrow> p256_int \<Rightarrow> p256_int \<Rightarrow> p256_int" where
  "p256_sub_mod MOD S R = (case p256_sub S R of (borrow, S) \<Rightarrow> if borrow \<noteq> 0 then snd (p256_add S MOD) else S)"

partial_function (option) modinv_loop ::
  "p256_int \<Rightarrow> p256_int \<Rightarrow> p256_int \<Rightarrow> p256_int \<Rightarrow> p256_int \<Rightarrow> p256_int option" where
  "modinv_loop MOD R S U V = (
     if p256_is_even U then modinv_loop MOD (p256_halve_mod MOD R) S (p256_shr1 U 0) V
     else if p256_is_even V then modinv_loop MOD R (p256_halve_mod MOD S) U (p256_shr1 V 0)
     else if fst (p256_sub V U) = 0 then
       let V = snd (p256_sub V U); S = p256_sub_mod MOD S R in
       if p256_is_zero V then Some R else modinv_loop MOD R S U V
     else modinv_loop MOD (p256_sub_mod MOD R S) S (snd (p256_sub U V)) V)"

declare modinv_loop.simps [code]

definition p256_modinv_vartime :: "p256_int \<Rightarrow> p256_int \<Rightarrow> p256_int option" where
  "p256_modinv_vartime MOD a = do {
     R \<leftarrow> modinv_loop MOD p256_init (p256_init[0 := 1]) MOD a;
     Some (p256_mod MOD R) }"

definition p256_is_valid_point :: "p256_int \<Rightarrow> p256_int \<Rightarrow> bool option" where
  "p256_is_valid_point x y = (
     if p256_cmp SECP256r1_p x \<le> 0 \<or> p256_cmp SECP256r1_p y \<le> 0 \<or> p256_is_zero x \<or> p256_is_zero y
     then Some False
     else do {
       y2 \<leftarrow> p256_modmul SECP256r1_p y 0 y;
       x3 \<leftarrow> p256_modmul SECP256r1_p x 0 x;
       x3 \<leftarrow> p256_modmul SECP256r1_p x 0 x3;
       let x3 = p256_sub_mod SECP256r1_p x3 x;
       let x3 = p256_sub_mod SECP256r1_p x3 x;
       let x3 = p256_sub_mod SECP256r1_p x3 x;
       let (carry, x3) = p256_add x3 SECP256r1_b;
       let x3 = (if carry \<noteq> 0 then snd (p256_sub x3 SECP256r1_p) else x3);
       Some (p256_cmp y2 x3 = 0) })"

definition p256_from_bin :: "byte list \<Rightarrow> p256_int" where
  "p256_from_bin src = map (\<lambda>i. load_word src (P256_NDIGITS - 1 - i)) [0..<P256_NDIGITS]"

section \<open>Digit operations\<close>

definition p256_ok :: "p256_int \<Rightarrow> bool" where
  "p256_ok a \<longleftrightarrow> length a = P256_NDIGITS"

abbreviation P256_R :: int where
  "P256_R \<equiv> 2 ^ 256"

lemma p256_less: "p256_ok a \<Longrightarrow> wval a < P256_R"
  using wval_less [of a] by (simp add: p256_ok_def P256_NDIGITS_def)

lemma p256_zeros: "p256_ok (replicate P256_NDIGITS 0)" "wval (replicate P256_NDIGITS 0) = 0"
  by (simp_all add: p256_ok_def)

lemma uint_low_carry: "uint (c :: u64) < 2 ^ 32 \<Longrightarrow> uint (ucast c :: u32) = uint c"
  by (simp add: uint_low)

lemma mulAdd_run:
  assumes "p256_ok a" "p256_ok c" "mulAdd a b 0 c = (t, c')"
  shows "p256_ok c'" "wval c' + P256_R * uint t = wval c + uint b * wval a"
proof -
  obtain k where k: "mul_digits b 0 a c = (c', k)" "t = ucast k"
    using assms(3) by (auto simp: mulAdd_def split: prod.splits)
  then show "p256_ok c'" "wval c' + P256_R * uint t = wval c + uint b * wval a"
    using mul_digits_run [of a c 0 b c' k] assms(1,2)
    by (simp_all add: p256_ok_def P256_NDIGITS_def uint_low)
qed

lemma subTop_run:
  assumes "p256_ok a" "p256_ok c"
    and D: "D = uint top_c * P256_R + wval c - (uint top_a * P256_R + wval a)" "0 \<le> D" "D < 2 ^ 32 * P256_R"
  obtains t c' where "subTop top_a a top_c c = Some (t, c')" "p256_ok c'" "wval c' + P256_R * uint t = D"
proof -
  obtain c' b where r: "sub_digits (word_of_int 0) c a = (c', b)"
    by fastforce
  obtain z where z: "length c' = length a" "z = 0 \<or> z = - 1" "b = word_of_int z"
    "wval c' + 2 ^ (32 * length a) * z = wval c - wval a + 0"
    using sub_digits_run [OF _ _ r] assms(1,2) by (auto simp: p256_ok_def)
  define q where "q = z + uint top_c - uint top_a"
  have ok: "p256_ok c'"
    using z(1) assms(1) by (simp add: p256_ok_def)
  have v: "wval c' + P256_R * q = D"
    using z(4) assms(1) by (simp add: D q_def p256_ok_def P256_NDIGITS_def algebra_simps)
  have l: "0 \<le> wval c'" "wval c' < P256_R"
    using p256_less [OF ok] by simp_all
  have q: "0 \<le> q" "q < 2 ^ 32"
    using v l D(2,3) by (simp_all, linarith+)
  have w: "word_of_int z + ucast top_c - ucast top_a = (word_of_int q :: u64)"
    by (simp only: wide_of_int q_def of_int_add of_int_diff)
  have "signed_drop_bit 32 (word_of_int q :: u64) = 0"
    using q by (subst signed_shift) simp_all
  then have "subTop top_a a top_c c = Some (word_of_int q, c')"
    using r unfolding subTop_def z(3) by (simp add: w low_of_int)
  moreover have "uint (word_of_int q :: u32) = q"
    using q by (simp add: uint_of_int_u32)
  ultimately show thesis
    using that ok v by metis
qed

lemma p256_subM_full:
  assumes "p256_ok MOD" "p256_ok c"
  obtains z c' where "z = 0 \<or> z = - 1" "p256_subM MOD t c (- 1) = (t + word_of_int z, c')" "p256_ok c'"
    "wval c' + P256_R * z = wval c - wval MOD"
proof -
  obtain c' b where r: "sub_digits (word_of_int 0) c MOD = (c', b)"
    by fastforce
  obtain z where z: "length c' = length MOD" "z = 0 \<or> z = - 1" "b = word_of_int z"
    "wval c' + 2 ^ (32 * length MOD) * z = wval c - wval MOD + 0"
    using sub_digits_run [OF _ _ r] assms by (auto simp: p256_ok_def)
  show thesis
  proof (rule that [OF z(2)])
    show "p256_subM MOD t c (- 1) = (t + word_of_int z, c')"
      using r unfolding z(3) by (simp add: p256_subM_def low_of_int)
    show "p256_ok c'" "wval c' + P256_R * z = wval c - wval MOD"
      using z(1,4) assms(1) by (simp_all add: p256_ok_def P256_NDIGITS_def)
  qed
qed

lemma p256_subM_none: "p256_ok MOD \<Longrightarrow> p256_ok c \<Longrightarrow> p256_subM MOD t c 0 = (t, c)"
proof -
  assume a: "p256_ok MOD" "p256_ok c"
  let ?z = "map (\<lambda>d. 0) MOD :: u32 list"
  have z: "?z = replicate P256_NDIGITS 0" "length c = length ?z" "wval ?z = 0"
    using a by (simp_all add: p256_ok_def map_replicate_const)
  note m = sub_digits_mod [OF z(2)]
  have "wval (fst (sub_digits 0 c ?z)) = wval c"
    using m(2) p256_less [OF a(2)] a(1) by (simp add: z(3) p256_ok_def P256_NDIGITS_def)
  then have "fst (sub_digits 0 c ?z) = c"
    using m(1) z(2) by (intro wval_inject) simp_all
  moreover have "snd (sub_digits 0 c ?z) = 0"
    using m(3) z(3) wval_nonneg [of c] by (simp add: linorder_not_le [symmetric] del: wval_nonneg)
  ultimately show ?thesis
    by (simp add: p256_subM_def prod.case_eq_if)
qed

section \<open>Reduction\<close>

text \<open>The moduli the code is made for: the most significant digit is all ones.\<close>

definition p256_modulus :: "p256_int \<Rightarrow> bool" where
  "p256_modulus MOD \<longleftrightarrow> p256_ok MOD \<and> P256_R - 2 ^ 224 \<le> wval MOD"

lemma reduce_bounds:
  fixes t c M :: int
  assumes "0 \<le> t" "t < 2 ^ 32" "0 \<le> c" "c < P256_R" "P256_R - 2 ^ 224 \<le> M" "M < P256_R"
  shows "0 \<le> t * P256_R + c - t * M" "t * P256_R + c - t * M < 2 * P256_R" "t * P256_R + c - t * M - M < P256_R"
proof -
  have e: "t * P256_R + c - t * M = t * (P256_R - M) + c"
    by (simp add: algebra_simps)
  have "0 \<le> t * (P256_R - M)"
    using assms by simp
  moreover have "t * (P256_R - M) \<le> (2 ^ 32 - 1) * 2 ^ 224"
    using assms by (intro mult_mono) simp_all
  ultimately show "0 \<le> t * P256_R + c - t * M" "t * P256_R + c - t * M < 2 * P256_R"
    "t * P256_R + c - t * M - M < P256_R"
    unfolding e using assms by simp_all
qed

lemma reduce_window:
  assumes M: "p256_modulus MOD" and c: "p256_ok c"
    and r: "mulAdd MOD t 0 (replicate P256_NDIGITS 0) = (tr, r)"
  obtains t1 c1 c2 k where "subTop tr r t c = Some (t1, c1)" "t1 \<le> 1"
    "p256_subM MOD t1 c1 (NOT (t1 - 1)) = (0, c2)" "p256_ok c2"
    "wval c2 = uint t * P256_R + wval c - k * wval MOD"
proof -
  let ?M = "wval MOD" and ?D = "uint t * P256_R + wval c - uint t * wval MOD"
  have ok: "p256_ok MOD" "P256_R - 2 ^ 224 \<le> ?M" "?M < P256_R"
    using M p256_less by (auto simp: p256_modulus_def)
  note red = mulAdd_run [OF ok(1) p256_zeros(1) r]
  note b = reduce_bounds [of "uint t" "wval c", OF u32_bounds(3,2) wval_nonneg p256_less [OF c] ok(2,3)]
  have D: "?D = uint t * P256_R + wval c - (uint tr * P256_R + wval r)"
    using red(2) by simp
  have "?D < 2 ^ 32 * P256_R"
    using b(2) by simp
  from subTop_run [OF red(1) c D b(1) this] obtain t1 c1 where
    s: "subTop tr r t c = Some (t1, c1)" "p256_ok c1" "wval c1 + P256_R * uint t1 = ?D" .
  have c1: "0 \<le> wval c1" "wval c1 < P256_R"
    using p256_less [OF s(2)] by simp_all
  have "P256_R * uint t1 < P256_R * 2"
    using s(3) b(2) c1(1) by linarith
  then have "uint t1 = 0 \<or> uint t1 = 1"
    using u32_bounds(3) [of t1] by (simp, linarith)
  then consider "t1 = 0" | "t1 = 1"
    by (auto simp: word_uint_eq_iff)
  then show thesis
  proof cases
    case 1
    show thesis
      using that [OF s(1), of c1 "uint t"] 1 s(2,3) p256_subM_none [OF ok(1) s(2), of 0] by simp
  next
    case 2
    obtain z c2 where z: "z = 0 \<or> z = - 1" "p256_subM MOD t1 c1 (- 1) = (t1 + word_of_int z, c2)" "p256_ok c2"
      "wval c2 + P256_R * z = wval c1 - ?M"
      using p256_subM_full [OF ok(1) s(2), of t1] .
    have "wval c1 - ?M < 0"
      using s(3) b(3) 2 by simp
    moreover have "z = 0 \<Longrightarrow> wval c2 = wval c1 - ?M"
      using z(4) by simp
    ultimately have "z = - 1"
      using z(1) wval_nonneg [of c2] by (metis linorder_not_le)
    then show thesis
      using that [OF s(1), of c2 "uint t + 1"] z(2-4) s(3) 2 by (simp add: algebra_simps)
  qed
qed

text \<open>The window of the array and the value of the array below and with it.\<close>

lemma window_split:
  assumes "i + P256_NDIGITS \<le> length tmp"
  shows "p256_ok (window_at i tmp)" "take (i + P256_NDIGITS) tmp = take i tmp @ window_at i tmp"
  using assms by (simp_all add: window_at_def p256_ok_def take_add)

lemma set_window_split:
  assumes "i + P256_NDIGITS \<le> length tmp" "p256_ok c"
  shows "length (set_window i c tmp) = length tmp"
    "take (i + P256_NDIGITS) (set_window i c tmp) = take i tmp @ c"
  using assms by (simp_all add: set_window_def p256_ok_def)

definition array_value :: "nat \<Rightarrow> u32 \<times> u32 list \<Rightarrow> int" where
  "array_value n st = wval (take n (snd st)) + 2 ^ (32 * n) * uint (fst st)"

lemma set_window_value:
  assumes "i + P256_NDIGITS \<le> length tmp" "p256_ok c"
  shows "array_value (i + P256_NDIGITS) (t', set_window i c tmp) =
    array_value (i + P256_NDIGITS) (t, tmp)
      + 2 ^ (32 * i) * ((wval c + P256_R * uint t') - (wval (window_at i tmp) + P256_R * uint t))"
proof -
  have l: "length (take i tmp) = i" "i \<le> length tmp"
    using assms(1) by simp_all
  have p: "2 ^ (32 * (i + P256_NDIGITS)) = 2 ^ (32 * i) * P256_R"
    by (simp add: P256_NDIGITS_def power_add)
  show ?thesis
    unfolding array_value_def fst_conv snd_conv set_window_split(2) [OF assms] window_split(2) [OF assms(1)]
      wval_append l(1) p
    by (simp add: algebra_simps)
qed

lemma reduce_step:
  assumes M: "p256_modulus MOD" and i: "i + P256_NDIGITS \<le> length tmp"
  obtains tmp' k where "modmul_reduce MOD i (t, tmp) = Some (tmp' ! (i + P256_NDIGITS - 1), tmp')"
    "length tmp' = length tmp"
    "wval (take (i + P256_NDIGITS) tmp') = array_value (i + P256_NDIGITS) (t, tmp) - k * wval MOD"
proof -
  obtain tr r where r: "mulAdd MOD t 0 (replicate P256_NDIGITS 0) = (tr, r)"
    by fastforce
  note w = window_split(1) [OF i]
  obtain t1 c1 c2 k where s: "subTop tr r t (window_at i tmp) = Some (t1, c1)" "t1 \<le> 1"
    "p256_subM MOD t1 c1 (NOT (t1 - 1)) = (0, c2)" "p256_ok c2"
    "wval c2 = uint t * P256_R + wval (window_at i tmp) - k * wval MOD"
    using reduce_window [OF M w r] .
  let ?tmp = "set_window i c2 tmp"
  have "array_value (i + P256_NDIGITS) (0, ?tmp) = array_value (i + P256_NDIGITS) (t, tmp) - (2 ^ (32 * i) * k) * wval MOD"
    unfolding set_window_value [OF i s(4), of 0 t] s(5) by (simp add: algebra_simps)
  then show thesis
    using that [of ?tmp "2 ^ (32 * i) * k"] r s set_window_split(1) [OF i s(4)]
    by (simp add: modmul_reduce_def Let_def array_value_def)
qed

lemma reduce_down_run:
  assumes M: "p256_modulus MOD" and i: "i + P256_NDIGITS \<le> length tmp"
  shows "\<exists>t' tmp' k. modmul_reduce_down MOD i (t, tmp) = Some (t', tmp') \<and> length tmp' = length tmp \<and>
    wval (window_at 0 tmp') = array_value (i + P256_NDIGITS) (t, tmp) - k * wval MOD"
  using i
proof (induction i arbitrary: t tmp)
  case 0
  obtain tmp' k where "modmul_reduce MOD 0 (t, tmp) = Some (tmp' ! (P256_NDIGITS - 1), tmp')" "length tmp' = length tmp"
    "wval (take P256_NDIGITS tmp') = array_value P256_NDIGITS (t, tmp) - k * wval MOD"
    using reduce_step [OF M 0, of t] by auto
  then show ?case
    by (auto simp: window_at_def)
next
  case (Suc i)
  obtain tmp' k where r: "modmul_reduce MOD (Suc i) (t, tmp) = Some (tmp' ! (i + P256_NDIGITS), tmp')"
    "length tmp' = length tmp"
    "wval (take (Suc i + P256_NDIGITS) tmp') = array_value (Suc i + P256_NDIGITS) (t, tmp) - k * wval MOD"
    using reduce_step [OF M Suc.prems, of t] by auto
  have "i + P256_NDIGITS < length tmp'"
    using Suc.prems r(2) by simp
  then have "array_value (i + P256_NDIGITS) (tmp' ! (i + P256_NDIGITS), tmp') = wval (take (Suc i + P256_NDIGITS) tmp')"
    by (simp add: array_value_def take_Suc_conv_app_nth wval_append)
  with Suc.IH [of tmp' "tmp' ! (i + P256_NDIGITS)"] obtain t2 tmp2 k2 where
    "modmul_reduce_down MOD i (tmp' ! (i + P256_NDIGITS), tmp') = Some (t2, tmp2)" "length tmp2 = length tmp'"
    "wval (window_at 0 tmp2) = wval (take (Suc i + P256_NDIGITS) tmp') - k2 * wval MOD"
    using Suc.prems r(2) by auto
  then show ?case
    using r by (intro exI [of _ t2] exI [of _ tmp2] exI [of _ "k + k2"]) (simp add: algebra_simps)
qed

section \<open>Multiplication\<close>

lemma modmul_add_value:
  assumes "p256_ok a" "i + P256_NDIGITS \<le> length tmp" "i = 0 \<Longrightarrow> t = 0 \<and> tmp ! (P256_NDIGITS - 1) = 0"
  shows "length (snd (modmul_add a i b (t, tmp))) = length tmp"
    "array_value (i + P256_NDIGITS) (modmul_add a i b (t, tmp)) =
      array_value (i + P256_NDIGITS - 1) (t, tmp) + 2 ^ (32 * i) * (uint b * wval a)"
proof -
  define tmp1 where "tmp1 = tmp[i + P256_NDIGITS - 1 := t]"
  have tmp1: "(if i \<noteq> 0 then tmp[i + P256_NDIGITS - 1 := t] else tmp) = tmp1"
    using assms(3) by (cases "i = 0") (simp_all add: tmp1_def, metis list_update_id)
  have l: "i + P256_NDIGITS \<le> length tmp1" "length tmp1 = length tmp"
    using assms(2) by (simp_all add: tmp1_def)
  obtain t' c where m: "mulAdd a b 0 (window_at i tmp1) = (t', c)"
    by fastforce
  note mr = mulAdd_run [OF assms(1) window_split(1) [OF l(1)] m]
  have run: "modmul_add a i b (t, tmp) = (t', set_window i c tmp1)"
    using m by (simp add: modmul_add_def tmp1 [simplified])
  then show "length (snd (modmul_add a i b (t, tmp))) = length tmp"
    using set_window_split(1) [OF l(1) mr(1)] l(2) by simp
  have "i + P256_NDIGITS - 1 < length tmp"
    using assms(2) by (simp add: P256_NDIGITS_def)
  then have "take (i + P256_NDIGITS) tmp1 = take (i + P256_NDIGITS - 1) tmp @ [t]"
    using take_Suc_conv_app_nth [of "i + P256_NDIGITS - 1" tmp1] by (simp add: tmp1_def P256_NDIGITS_def add.commute)
  then have "array_value (i + P256_NDIGITS) (0, tmp1) = array_value (i + P256_NDIGITS - 1) (t, tmp)"
    using assms(2) by (simp add: array_value_def wval_append P256_NDIGITS_def)
  then show "array_value (i + P256_NDIGITS) (modmul_add a i b (t, tmp)) =
      array_value (i + P256_NDIGITS - 1) (t, tmp) + 2 ^ (32 * i) * (uint b * wval a)"
    unfolding run set_window_value [OF l(1) mr(1), of t' 0] mr(2) by simp
qed

lemma modmul_add_fold:
  assumes "p256_ok a" "p256_ok b" "n \<le> P256_NDIGITS"
  shows "\<exists>t tmp. fold (\<lambda>i. modmul_add a i (b ! i)) [0..<n] (0, replicate (P256_NDIGITS * 2 + 1) 0) = (t, tmp) \<and>
    length tmp = P256_NDIGITS * 2 + 1 \<and> (n = 0 \<longrightarrow> t = 0 \<and> tmp ! (P256_NDIGITS - 1) = 0) \<and>
    array_value (n + P256_NDIGITS - 1) (t, tmp) = wval a * wval (take n b)"
  using assms(3)
proof (induction n)
  case (Suc n)
  then obtain t tmp where st: "fold (\<lambda>i. modmul_add a i (b ! i)) [0..<n] (0, replicate (P256_NDIGITS * 2 + 1) 0) = (t, tmp)"
    "length tmp = P256_NDIGITS * 2 + 1" "n = 0 \<longrightarrow> t = 0 \<and> tmp ! (P256_NDIGITS - 1) = 0"
    "array_value (n + P256_NDIGITS - 1) (t, tmp) = wval a * wval (take n b)"
    by auto
  have l: "n + P256_NDIGITS \<le> length tmp" "n < length b"
    using Suc.prems st(2) assms(2) by (simp_all add: p256_ok_def)
  note v = modmul_add_value [OF assms(1) l(1), of t "b ! n"]
  have "wval (take (Suc n) b) = wval (take n b) + 2 ^ (32 * n) * uint (b ! n)"
    using l(2) by (simp add: take_Suc_conv_app_nth wval_append)
  then show ?case
    using v st by (cases "modmul_add a n (b ! n) (t, tmp)") (simp add: algebra_simps)
qed (simp add: array_value_def P256_NDIGITS_def numeral_nat)

lemma p256_mod_run:
  assumes "p256_ok MOD" "p256_ok c" "wval c < 2 * wval MOD"
  shows "p256_ok (p256_mod MOD c)" "wval (p256_mod MOD c) = wval c mod wval MOD"
proof -
  let ?M = "wval MOD"
  obtain z c1 where z: "z = 0 \<or> z = - 1" "p256_subM MOD 0 c (- 1) = (0 + word_of_int z, c1)" "p256_ok c1"
    "wval c1 + P256_R * z = wval c - ?M"
    using p256_subM_full [OF assms(1,2), of 0] .
  have c1: "0 \<le> wval c1" "wval c1 < P256_R" "0 \<le> wval c" "wval c < P256_R"
    using p256_less [OF z(3)] p256_less [OF assms(2)] by simp_all
  let ?m = "map (\<lambda>d. d AND word_of_int z) MOD"
  obtain r k where r: "add_digits 0 c1 ?m = (r, k)"
    by fastforce
  have m: "wval ?m = - z * ?M"
    using z(1) by (auto simp: map_replicate_const)
  have ar: "length r = P256_NDIGITS" "uint k \<le> 1" "wval r + P256_R * uint k = wval c1 + wval ?m"
    using add_digits_run [OF _ _ r] assms(1) z(3) by (simp_all add: p256_ok_def P256_NDIGITS_def)
  have rb: "0 \<le> wval r" "wval r < P256_R"
    using wval_less [of r] ar(1) by (simp_all add: P256_NDIGITS_def)
  have run: "p256_mod MOD c = r"
    using z(2) r by (simp add: p256_mod_def addM_def)
  show "p256_ok (p256_mod MOD c)"
    using run ar(1) by (simp add: p256_ok_def)
  have k: "uint k = 0 \<or> uint k = 1"
    using ar(2) unsigned_greater_eq [of k, where ?'a = int] by linarith
  show "wval (p256_mod MOD c) = wval c mod ?M"
    using z(1)
  proof
    assume z0: "z = 0"
    have "wval c1 = wval c - ?M" "wval r + P256_R * uint k = wval c1"
      using z(4) ar(3) [unfolded m] unfolding z0 by simp_all
    moreover have "uint k \<noteq> 1"
    proof
      assume "uint k = 1"
      with calculation(2) have "wval r + P256_R = wval c1"
        by simp
      with rb(1) c1(2) show False
        by linarith
    qed
    moreover have "(wval c - ?M) mod ?M = wval c - ?M"
      using assms(3) c1(1) calculation(1) by (intro mod_pos_pos_trivial) linarith+
    ultimately show ?thesis
      using k run by simp
  next
    assume z1: "z = - 1"
    have "wval c1 = wval c - ?M + P256_R" "wval r + P256_R * uint k = wval c1 + ?M"
      using z(4) ar(3) [unfolded m] unfolding z1 by simp_all
    moreover have "uint k \<noteq> 0"
    proof
      assume "uint k = 0"
      with calculation have "wval r = wval c + P256_R"
        by simp
      with rb(2) c1(3) show False
        by linarith
    qed
    moreover have "wval c mod ?M = wval c"
      using c1(2,3) calculation(1) by (intro mod_pos_pos_trivial) linarith+
    ultimately show ?thesis
      using k run by simp
  qed
qed

lemma modulus_double: "p256_modulus MOD \<Longrightarrow> p256_ok c \<Longrightarrow> wval c < 2 * wval MOD"
  using p256_less [of c] by (simp add: p256_modulus_def)

lemma p256_modmul_run:
  assumes M: "p256_modulus MOD" and ab: "p256_ok a" "p256_ok b"
  shows "\<exists>c. p256_modmul MOD a top_b b = Some c \<and> p256_ok c \<and>
    wval c = wval a * (wval b + P256_R * uint top_b) mod wval MOD"
proof -
  obtain t tmp where st: "fold (\<lambda>i. modmul_add a i (b ! i)) [0..<P256_NDIGITS] (0, replicate (P256_NDIGITS * 2 + 1) 0) = (t, tmp)"
    "length tmp = P256_NDIGITS * 2 + 1" "array_value (P256_NDIGITS + P256_NDIGITS - 1) (t, tmp) = wval a * wval b"
    using modmul_add_fold [OF ab order_refl] ab(2) by (auto simp: p256_ok_def)
  obtain t1 tmp1 where s1: "modmul_add a P256_NDIGITS top_b (t, tmp) = (t1, tmp1)"
    by fastforce
  have l: "P256_NDIGITS + P256_NDIGITS \<le> length tmp" "P256_NDIGITS \<noteq> 0"
    using st(2) by (simp_all add: P256_NDIGITS_def)
  have v: "length tmp1 = length tmp" "array_value (P256_NDIGITS + P256_NDIGITS) (t1, tmp1) = wval a * wval b + P256_R * (uint top_b * wval a)"
    using modmul_add_value [OF ab(1) l(1), of t top_b] s1 st(3) l(2) by (simp_all add: P256_NDIGITS_def)
  then obtain t2 tmp2 k where r: "modmul_reduce_down MOD P256_NDIGITS (t1, tmp1) = Some (t2, tmp2)" "length tmp2 = length tmp1"
    "wval (window_at 0 tmp2) = array_value (P256_NDIGITS + P256_NDIGITS) (t1, tmp1) - k * wval MOD"
    using reduce_down_run [OF M, of P256_NDIGITS tmp1 t1] l(1) by auto
  have w: "p256_ok (window_at 0 tmp2)"
    using r(2) v(1) l(1) by (intro window_split) simp
  have ok: "p256_ok MOD"
    using M by (simp add: p256_modulus_def)
  have "p256_modmul MOD a top_b b = Some (p256_mod MOD (window_at 0 tmp2))"
    using st(1) s1 r(1) by (simp add: p256_modmul_def p256_mod_def Let_def split: prod.split)
  moreover have "wval (window_at 0 tmp2) mod wval MOD = wval a * (wval b + P256_R * uint top_b) mod wval MOD"
    unfolding r(3) v(2) by (simp add: mod_eq_dvd_iff algebra_simps)
  ultimately show ?thesis
    using p256_mod_run [OF ok w modulus_double [OF M w]] by simp
qed

section \<open>Addition, subtraction, comparison\<close>

lemma p256_add_run:
  assumes "p256_ok a" "p256_ok b" "p256_add a b = (k, c)"
  shows "p256_ok c" "k = 0 \<or> k = 1" "wval c + P256_R * uint k = wval a + wval b"
proof -
  obtain k' where k': "add_digits 0 a b = (c, k')" "k = ucast k'"
    using assms(3) by (auto simp: p256_add_def split: prod.splits)
  have r: "length c = P256_NDIGITS" "uint k' \<le> 1" "wval c + P256_R * uint k' = wval a + wval b"
    using add_digits_run [OF _ _ k'(1)] assms(1,2) by (simp_all add: p256_ok_def P256_NDIGITS_def)
  have "uint k = uint k'" "uint k' = 0 \<or> uint k' = 1"
    using r(2) k'(2) unsigned_greater_eq [of k', where ?'a = int] by (simp_all add: uint_low, linarith)
  then show "p256_ok c" "k = 0 \<or> k = 1" "wval c + P256_R * uint k = wval a + wval b"
    using r by (auto simp: p256_ok_def word_uint_eq_iff)
qed

lemma p256_sub_run:
  assumes "p256_ok a" "p256_ok b"
  shows "p256_ok (snd (p256_sub a b))" "fst (p256_sub a b) = (if wval a < wval b then - 1 else 0)"
    "wval (snd (p256_sub a b)) = (wval a - wval b) mod P256_R"
  using sub_digits_mod [of a b] assms
  by (auto simp: p256_sub_def p256_ok_def P256_NDIGITS_def split: prod.splits)

lemma all_zero_wval: "(\<forall>d \<in> set r. d = 0) \<longleftrightarrow> wval r = 0"
proof (induction r)
  case (Cons d r)
  have "uint d + 2 ^ 32 * wval r = 0 \<longleftrightarrow> uint d = 0 \<and> wval r = 0"
    using u32_bounds(3) [of d] wval_nonneg [of r] by (auto simp: add_nonneg_eq_0_iff)
  then show ?case
    using Cons by (simp add: word_uint_eq_iff)
qed simp

lemma p256_cmp_run:
  assumes "p256_ok a" "p256_ok b"
  shows "p256_cmp a b = (if wval a < wval b then - 1 else if wval a = wval b then 0 else 1)"
proof -
  note m = sub_digits_mod [of a b]
  have l: "length a = length b" "0 \<le> wval a" "0 \<le> wval b" "wval a < P256_R" "wval b < P256_R" "2 ^ (32 * length b) = P256_R"
    using assms p256_less by (auto simp: p256_ok_def P256_NDIGITS_def)
  have "(wval a - wval b) mod P256_R = 0 \<longleftrightarrow> wval a = wval b"
    using l(2-5) by (metis diff_self mod_0 mod_eq_dvd_iff mod_eq_0_iff_dvd mod_pos_pos_trivial)
  then have "(\<exists>d \<in> set (fst (sub_digits 0 a b)). d \<noteq> 0) \<longleftrightarrow> wval a \<noteq> wval b"
    using all_zero_wval [of "fst (sub_digits 0 a b)"] m(2) [OF l(1)] l(6) by auto
  then show ?thesis
    using m(3) [OF l(1)] by (auto simp: p256_cmp_def prod.case_eq_if Let_def)
qed

text \<open>Subtraction modulo the modulus.\<close>

lemma p256_sub_mod_run:
  assumes "p256_ok MOD" "p256_ok a" "p256_ok b" "wval a < wval MOD" "wval b < wval MOD"
  shows "p256_ok (p256_sub_mod MOD a b)" "wval (p256_sub_mod MOD a b) = (wval a - wval b) mod wval MOD"
proof -
  let ?s = "snd (p256_sub a b)"
  note s = p256_sub_run [OF assms(2,3)]
  have b: "0 \<le> wval a" "0 \<le> wval b" "wval MOD < P256_R"
    using p256_less [OF assms(1)] by simp_all
  have "p256_ok (p256_sub_mod MOD a b) \<and> wval (p256_sub_mod MOD a b) = (wval a - wval b) mod wval MOD"
  proof (cases "wval a < wval b")
    case True
    obtain k c where k: "p256_add ?s MOD = (k, c)"
      by fastforce
    note a = p256_add_run [OF s(1) assms(1) k]
    have "wval ?s = wval a - wval b + P256_R"
      unfolding s(3) using True b assms(5) by (intro mod_borrow) linarith+
    then have v: "wval c + P256_R * uint k = wval a - wval b + P256_R + wval MOD"
      using a(3) by simp
    have "k \<noteq> 0"
    proof
      assume "k = 0"
      with v have "wval c = wval a - wval b + P256_R + wval MOD"
        by simp
      with p256_less [OF a(1)] assms(5) b show False
        by linarith
    qed
    then have "k = 1"
      using a(2) by simp
    then have "wval c = wval a - wval b + wval MOD"
      using v by simp
    moreover have "(wval a - wval b) mod wval MOD = wval a - wval b + wval MOD"
      using True b assms(5) by (intro mod_borrow) linarith+
    ultimately show ?thesis
      using True s(2) k a(1) by (simp add: p256_sub_mod_def prod.case_eq_if)
  next
    case False
    have "(wval a - wval b) mod P256_R = wval a - wval b" "(wval a - wval b) mod wval MOD = wval a - wval b"
      using False b assms(4) by (intro mod_pos_pos_trivial; linarith)+
    then show ?thesis
      using False s by (simp add: p256_sub_mod_def prod.case_eq_if)
  qed
  then show "p256_ok (p256_sub_mod MOD a b)" "wval (p256_sub_mod MOD a b) = (wval a - wval b) mod wval MOD"
    by simp_all
qed

section \<open>Shifts\<close>

text \<open>
  All three shifts move bits between neighbouring digits of a list one longer than the result:
  a right shift of the digits followed by the incoming high bits, and a left shift, which is a
  right shift by the complement of a zero digit followed by the digits.
\<close>

fun shift_digits :: "nat \<Rightarrow> u32 list \<Rightarrow> u32 list" where
  "shift_digits s (x # y # r) = (drop_bit s x OR push_bit (32 - s) y) # shift_digits s (y # r)"
| "shift_digits s r = []"

lemma length_shift_digits [simp]: "length (shift_digits s e) = length e - 1"
  by (induction s e rule: shift_digits.induct) simp_all

lemma nth_shift_digits:
  "i + 1 < length e \<Longrightarrow> shift_digits s e ! i = (drop_bit s (e ! i) OR push_bit (32 - s) (e ! (i + 1)))"
proof (induction s e arbitrary: i rule: shift_digits.induct)
  case (1 s x y r)
  then show ?case
    by (cases i) simp_all
qed simp_all

lemma div_pow_less:
  fixes x :: int
  assumes "x < 2 ^ m" "s \<le> m"
  shows "x div 2 ^ s < 2 ^ (m - s)"
proof (rule ccontr)
  assume "\<not> x div 2 ^ s < 2 ^ (m - s)"
  then have "2 ^ s * 2 ^ (m - s) \<le> 2 ^ s * (x div 2 ^ s)"
    by (intro mult_left_mono) simp_all
  moreover have "2 ^ s * (x div 2 ^ s) \<le> x"
    using mult_div_mod_eq [of "2 ^ s" x] pos_mod_sign [of "2 ^ s" x, OF zero_less_power] by linarith
  moreover have "2 ^ s * 2 ^ (m - s) = (2 :: int) ^ m"
    using assms(2) by (simp add: power_add [symmetric])
  ultimately show False
    using assms(1) by linarith
qed

lemma uint_shift_digit:
  fixes x y :: u32
  assumes "0 < s" "s < 32"
  shows "uint (drop_bit s x OR push_bit (32 - s) y) = uint x div 2 ^ s + 2 ^ (32 - s) * (uint y mod 2 ^ s)"
proof -
  have "drop_bit s x AND push_bit (32 - s) y = 0"
    using assms by (intro bit_word_eqI) (auto simp: bit_simps dest!: bit_imp_le_length)
  then have e: "drop_bit s x OR push_bit (32 - s) y = drop_bit s x + push_bit (32 - s) y"
    by (simp add: disjunctive_add_eq_or)
  have d: "uint (drop_bit s x) = uint x div 2 ^ s"
    using u32_bounds [of x] by (simp only: unsigned_drop_bit_eq) (simp add: drop_bit_eq_div take_bit_eq_mod)
  have "uint (push_bit (32 - s) y) = take_bit 32 (push_bit (32 - s) (uint y))"
    by (simp add: unsigned_push_bit_eq)
  also have "\<dots> = push_bit (32 - s) (take_bit s (uint y))"
    using assms by (simp add: take_bit_push_bit)
  finally have p: "uint (push_bit (32 - s) y) = 2 ^ (32 - s) * (uint y mod 2 ^ s)"
    by (simp add: push_bit_eq_mult take_bit_eq_mod mult.commute)
  have "uint (drop_bit s x + push_bit (32 - s) y) < 2 ^ 32"
    using u32_bounds(2) .
  have "uint x div 2 ^ s < 2 ^ (32 - s)"
    using u32_bounds(2) [of x] assms by (intro div_pow_less) simp_all
  moreover have "2 ^ (32 - s) * (uint y mod 2 ^ s) \<le> 2 ^ (32 - s) * (2 ^ s - 1 :: int)"
    by (intro mult_left_mono) simp_all
  moreover have "2 ^ (32 - s) * (2 ^ s - 1) = 2 ^ 32 - (2 ^ (32 - s) :: int)"
    using assms by (simp add: right_diff_distrib power_add [symmetric])
  ultimately have "uint x div 2 ^ s + 2 ^ (32 - s) * (uint y mod 2 ^ s) < 2 ^ 32"
    by linarith
  moreover have "0 \<le> uint x div 2 ^ s + 2 ^ (32 - s) * (uint y mod 2 ^ s)"
    by (intro add_nonneg_nonneg) (simp_all add: pos_imp_zdiv_nonneg_iff)
  ultimately show ?thesis
    unfolding e by (simp add: uint_word_ariths d p)
qed

lemma shift_step:
  fixes x Y :: int
  assumes "0 < s" "s < 32"
  shows "(x + 2 ^ 32 * Y) div 2 ^ s = (x div 2 ^ s + 2 ^ (32 - s) * (Y mod 2 ^ s)) + 2 ^ 32 * (Y div 2 ^ s)"
proof -
  have p: "(2 :: int) ^ 32 = 2 ^ s * 2 ^ (32 - s)"
    using assms by (simp add: power_add [symmetric])
  have "(x + 2 ^ 32 * Y) div 2 ^ s = (x + 2 ^ s * (2 ^ (32 - s) * Y)) div 2 ^ s"
    by (simp only: p mult.assoc)
  also have "\<dots> = x div 2 ^ s + 2 ^ (32 - s) * Y"
    by (simp add: div_add1_eq)
  also have "2 ^ (32 - s) * Y = 2 ^ (32 - s) * (Y mod 2 ^ s + 2 ^ s * (Y div 2 ^ s))"
    by simp
  also have "\<dots> = 2 ^ (32 - s) * (Y mod 2 ^ s) + 2 ^ 32 * (Y div 2 ^ s)"
    unfolding p by (simp only: distrib_left mult_ac)
  finally show ?thesis
    by simp
qed

lemma shift_digits_value:
  assumes "0 < s" "s < 32"
  shows "wval (shift_digits s e) = wval e div 2 ^ s mod 2 ^ (32 * (length e - 1))"
  using assms
proof (induction s e rule: shift_digits.induct)
  case (1 s x y r)
  let ?Y = "wval (y # r)"
  have "?Y mod 2 ^ s = uint y mod 2 ^ s"
  proof -
    have "(2 :: int) ^ 32 = 2 ^ s * 2 ^ (32 - s)"
      using 1 by (simp add: power_add [symmetric])
    then show ?thesis
      by (simp only: wval.simps mult.assoc mod_mult_self2)
  qed
  then have d: "uint (drop_bit s x OR push_bit (32 - s) y) = uint x div 2 ^ s + 2 ^ (32 - s) * (?Y mod 2 ^ s)"
    by (simp only: uint_shift_digit [OF 1(2,3)])
  have "wval (x # y # r) div 2 ^ s = uint (drop_bit s x OR push_bit (32 - s) y) + 2 ^ 32 * (?Y div 2 ^ s)"
    unfolding d by (simp only: wval.simps(2) [of x] shift_step [OF 1(2,3)])
  then have "wval (x # y # r) div 2 ^ s mod 2 ^ (32 * Suc (length r)) =
      uint (drop_bit s x OR push_bit (32 - s) y) + 2 ^ 32 * (?Y div 2 ^ s mod 2 ^ (32 * length r))"
    using digit_mod [OF u32_bounds(3,2)] by (simp only:)
  then show ?case
    using 1 by simp
qed (simp_all add: wval_less)

lemma p256_shr1_run:
  assumes "p256_ok a" "h = 0 \<or> h = 1"
  shows "p256_ok (p256_shr1 a h)" "wval (p256_shr1 a h) = (wval a + P256_R * uint h) div 2"
proof -
  let ?e = "a @ [h]"
  have l: "length a = 8"
    using assms(1) by (simp add: p256_ok_def P256_NDIGITS_def)
  have e: "p256_shr1 a h = shift_digits 1 ?e"
  proof (rule nth_equalityI)
    fix i assume "i < length (p256_shr1 a h)"
    then have "i < 8"
      by (simp add: p256_shr1_def P256_NDIGITS_def)
    then show "p256_shr1 a h ! i = shift_digits 1 ?e ! i"
      using l nth_shift_digits [of i ?e 1] by (auto simp: p256_shr1_def P256_NDIGITS_def nth_append)
  qed (simp add: p256_shr1_def l P256_NDIGITS_def)
  then show "p256_ok (p256_shr1 a h)"
    using l by (simp add: p256_ok_def P256_NDIGITS_def)
  have v: "wval ?e = wval a + P256_R * uint h"
    using l by (simp add: wval_append)
  have "(wval a + P256_R * uint h) div 2 < P256_R" "0 \<le> (wval a + P256_R * uint h) div 2"
    using assms(2) p256_less [OF assms(1)] wval_nonneg [of a] by (auto simp: pos_imp_zdiv_nonneg_iff)
  then show "wval (p256_shr1 a h) = (wval a + P256_R * uint h) div 2"
    unfolding e using shift_digits_value [of 1 ?e] l v by simp
qed

text \<open>The shift count the functions reduce to; they are defined when it is not zero.\<close>

lemma p256_shr_run:
  assumes "p256_ok a" "0 < n" "n < 32"
  shows "p256_shr a n = Some (shift_digits (nat n) (a @ [0]))"
    "wval (shift_digits (nat n) (a @ [0])) = wval a div 2 ^ nat n"
proof -
  let ?e = "a @ [0 :: u32]"
  have l: "length a = 8" "0 < nat n" "nat n < 32"
    using assms by (simp_all add: p256_ok_def P256_NDIGITS_def)
  have m: "n smod 32 = n"
    using assms by (simp add: smod_int_range signed_modulo_int_def signed_divide_int_def minus_mult_div_eq_mod)
  have "map (\<lambda>i. if i = P256_NDIGITS - 1 then drop_bit (nat n) (a ! i)
      else drop_bit (nat n) (a ! i) OR push_bit (32 - nat n) (a ! (i + 1))) [0..<P256_NDIGITS] = shift_digits (nat n) ?e"
    using l nth_shift_digits [of _ ?e "nat n"]
    by (intro nth_equalityI) (auto simp: P256_NDIGITS_def nth_append)
  then show "p256_shr a n = Some (shift_digits (nat n) ?e)"
    using assms(2) by (simp only: p256_shr_def m Let_def) simp
  have "wval a div 2 ^ nat n \<le> wval a"
    using zdiv_mono2 [of "wval a" 1 "2 ^ nat n"] by simp
  then have "wval a div 2 ^ nat n < P256_R" "0 \<le> wval a div 2 ^ nat n"
    using p256_less [OF assms(1)] wval_nonneg [of a] by (simp_all add: pos_imp_zdiv_nonneg_iff)
  then show "wval (shift_digits (nat n) ?e) = wval a div 2 ^ nat n"
    using shift_digits_value [OF l(2,3), of ?e] l(1) by (simp add: wval_append)
qed

lemma shl_top:
  assumes "p256_ok a" "0 < s" "s < 32"
  shows "uint (ucast (drop_bit 32 (push_bit s (ucast (a ! (P256_NDIGITS - 1)) :: u64))) :: u32) =
    2 ^ s * wval a div P256_R"
proof -
  let ?x = "a ! 7"
  have l: "length a = 8"
    using assms(1) by (simp add: p256_ok_def P256_NDIGITS_def)
  have "take (Suc 7) a = take 7 a @ [?x]"
    using l by (intro take_Suc_conv_app_nth) simp
  then have "a = take 7 a @ [?x]"
    using l by simp
  then have A: "wval a = wval (take 7 a) + 2 ^ 224 * uint ?x"
    using l wval_append [of "take 7 a" "[?x]"] by simp
  have "wval a div 2 ^ 224 = uint ?x"
    using wval_less [of "take 7 a"] l unfolding A by simp
  then have "wval a div (2 ^ 224 * 2 ^ (32 - s)) = uint ?x div 2 ^ (32 - s)"
    by (simp add: zdiv_zmult2_eq)
  moreover have "2 ^ s * wval a div (2 ^ s * (2 ^ 224 * 2 ^ (32 - s))) = wval a div (2 ^ 224 * 2 ^ (32 - s))"
    by (rule div_mult_mult1) simp
  moreover have "2 ^ s * uint ?x div (2 ^ s * 2 ^ (32 - s)) = uint ?x div 2 ^ (32 - s)"
    by (rule div_mult_mult1) simp
  moreover have "2 ^ s * (2 ^ 224 * 2 ^ (32 - s)) = P256_R" "2 ^ s * 2 ^ (32 - s) = (2 ^ 32 :: int)"
    using assms by (simp_all add: power_add [symmetric])
  ultimately have r: "2 ^ s * wval a div P256_R = uint ?x div 2 ^ (32 - s)"
    "2 ^ s * uint ?x div 2 ^ 32 = uint ?x div 2 ^ (32 - s)"
    by (simp_all only:)
  have "2 ^ s * uint ?x \<le> 2 ^ 32 * (2 ^ 32 - 1)"
    using assms u32_bounds [of ?x] by (intro mult_mono power_increasing) simp_all
  then have b: "2 ^ s * uint ?x < 2 ^ 64"
    by simp
  have "uint (push_bit s (ucast ?x :: u64)) = take_bit 64 (push_bit s (uint (ucast ?x :: u64)))"
    by (simp add: unsigned_push_bit_eq)
  also have "\<dots> = 2 ^ s * uint ?x"
    using b by (simp add: uint_wide take_bit_eq_mod push_bit_eq_mult mult.commute)
  finally have "uint (push_bit s (ucast ?x :: u64)) = 2 ^ s * uint ?x" "2 ^ s * uint ?x < 2 ^ 64"
    using b by simp_all
  moreover have "0 \<le> uint ?x div 2 ^ (32 - s)"
    by (simp add: pos_imp_zdiv_nonneg_iff)
  ultimately show ?thesis
    using r div_pow_less [of "2 ^ s * uint ?x" 64 32] by (simp add: uint_low uint_high P256_NDIGITS_def)
qed

lemma p256_shl_run:
  assumes "p256_ok a" "0 < n" "n < 32"
  shows "\<exists>t b. p256_shl a n = Some (t, b) \<and> p256_ok b \<and> wval b + P256_R * uint t = 2 ^ nat n * wval a"
proof -
  let ?e = "(0 :: u32) # a" and ?s = "32 - nat n"
  have l: "length a = 8" "0 < ?s" "?s < 32" "nat n < 32" "0 < nat n"
    using assms by (simp_all add: p256_ok_def P256_NDIGITS_def)
  have m: "n smod 32 = n"
    using assms by (simp add: signed_modulo_int_def signed_divide_int_def minus_mult_div_eq_mod)
  define t :: u32 where "t = ucast (drop_bit 32 (push_bit (nat n) (ucast (a ! (P256_NDIGITS - 1)) :: u64)))"
  have d: "map (\<lambda>i. if i = 0 then push_bit (nat n) (a ! i)
      else push_bit (nat n) (a ! i) OR drop_bit ?s (a ! (i - 1))) [0..<P256_NDIGITS] = shift_digits ?s ?e"
    using l nth_shift_digits [of _ ?e ?s]
    by (intro nth_equalityI) (auto simp: P256_NDIGITS_def nth_Cons' or.commute)
  then have run: "p256_shl a n = Some (t, shift_digits ?s ?e)"
    using assms(2) by (simp only: p256_shl_def m Let_def t_def) simp
  have ok: "p256_ok (shift_digits ?s ?e)"
    using l by (simp add: p256_ok_def P256_NDIGITS_def)
  have "(2 :: int) ^ 32 = 2 ^ ?s * 2 ^ nat n"
    using l by (simp add: power_add [symmetric])
  then have "wval ?e = 2 ^ ?s * (2 ^ nat n * wval a)"
    by (simp only: wval.simps mult.assoc) simp
  then have "wval ?e div 2 ^ ?s = 2 ^ nat n * wval a"
    by (simp only:) (rule nonzero_mult_div_cancel_left, simp)
  then have v: "wval (shift_digits ?s ?e) = 2 ^ nat n * wval a mod P256_R"
    using shift_digits_value [OF l(2,3), of ?e] l(1) by simp
  have "uint t = 2 ^ nat n * wval a div P256_R"
    using shl_top [OF assms(1) l(5,4)] by (simp add: t_def)
  then have "wval (shift_digits ?s ?e) + P256_R * uint t = 2 ^ nat n * wval a"
    unfolding v by simp
  then show ?thesis
    using run ok by blast
qed

section \<open>Parity\<close>

lemma p256_even_run:
  assumes "p256_ok a"
  shows "p256_is_even a \<longleftrightarrow> even (wval a)" "p256_is_odd a \<longleftrightarrow> odd (wval a)"
proof -
  obtain x r where a: "a = x # r"
    using assms by (cases a) (simp_all add: p256_ok_def P256_NDIGITS_def)
  have "x AND 1 = 0 \<longleftrightarrow> even (uint x)"
    by (simp add: and_one_eq even_iff_mod_2_eq_zero word_uint_eq_iff uint_mod)
  then show "p256_is_even a \<longleftrightarrow> even (wval a)" "p256_is_odd a \<longleftrightarrow> odd (wval a)"
    by (simp_all add: a p256_is_even_def p256_is_odd_def)
qed

lemma p256_is_zero_run: "p256_is_zero a \<longleftrightarrow> wval a = 0"
proof -
  have "fold (\<lambda>d r. r OR d) a r = 0 \<longleftrightarrow> r = 0 \<and> (\<forall>d \<in> set a. d = 0)" for r :: u32
    by (induction a arbitrary: r) (auto simp: or_eq_0_iff)
  then show ?thesis
    by (simp add: p256_is_zero_def all_zero_wval)
qed

section \<open>Inversion\<close>

text \<open>The invariant of the binary Euclidean loop for the inverse of \<open>a\<close>.\<close>

definition modinv_inv :: "p256_int \<Rightarrow> int \<Rightarrow> p256_int \<Rightarrow> p256_int \<Rightarrow> p256_int \<Rightarrow> p256_int \<Rightarrow> bool" where
  "modinv_inv MOD a R S U V \<longleftrightarrow> p256_ok R \<and> p256_ok S \<and> p256_ok U \<and> p256_ok V \<and>
     wval R < wval MOD \<and> wval S < wval MOD \<and> 0 < wval U \<and> 0 < wval V \<and>
     wval MOD dvd a * wval R - wval U \<and> wval MOD dvd a * wval S - wval V \<and> coprime (wval U) (wval V)"

lemma odd_cancel_2: "odd (m :: int) \<Longrightarrow> m dvd 2 * x \<Longrightarrow> m dvd x"
  by (metis coprime_dvd_mult_right_iff coprime_right_2_iff_odd)

lemma halve_mod_run:
  assumes "p256_ok MOD" "odd (wval MOD)" "p256_ok R" "wval R < wval MOD"
  shows "p256_ok (p256_halve_mod MOD R)" "wval (p256_halve_mod MOD R) < wval MOD"
    "wval MOD dvd 2 * wval (p256_halve_mod MOD R) - wval R"
proof -
  have "p256_ok (p256_halve_mod MOD R) \<and> wval (p256_halve_mod MOD R) < wval MOD \<and>
    (2 * wval (p256_halve_mod MOD R) = wval R \<or> 2 * wval (p256_halve_mod MOD R) = wval R + wval MOD)"
  proof (cases "even (wval R)")
    case True
    note h = p256_shr1_run [OF assms(3), of 0]
    have "2 * wval (p256_shr1 R 0) = wval R"
      using h(2) True by simp
    moreover from this have "wval (p256_shr1 R 0) < wval MOD"
      using assms(4) wval_nonneg [of R] by linarith
    ultimately show ?thesis
      using True assms h(1) by (simp add: p256_halve_mod_def p256_even_run)
  next
    case False
    obtain k c where k: "p256_add R MOD = (k, c)"
      by fastforce
    note a = p256_add_run [OF assms(3,1) k]
    note h = p256_shr1_run [OF a(1,2)]
    have "2 * wval (p256_shr1 c k) = wval R + wval MOD"
      using h(2) a(3) False assms(2) by simp
    then show ?thesis
      using False assms h(1) k by (simp add: p256_halve_mod_def p256_even_run)
  qed
  then show "p256_ok (p256_halve_mod MOD R)" "wval (p256_halve_mod MOD R) < wval MOD"
    "wval MOD dvd 2 * wval (p256_halve_mod MOD R) - wval R"
    by auto
qed

text \<open>Halving one side of the invariant.\<close>

lemma halve_step:
  assumes "p256_ok MOD" "odd (wval MOD)" "p256_ok R" "wval R < wval MOD" "p256_ok U" "even (wval U)" "0 < wval U"
    "wval MOD dvd a * wval R - wval U"
  shows "p256_ok (p256_shr1 U 0)" "wval U = 2 * wval (p256_shr1 U 0)" "0 < wval (p256_shr1 U 0)"
    "wval MOD dvd a * wval (p256_halve_mod MOD R) - wval (p256_shr1 U 0)"
proof -
  note u = p256_shr1_run [OF assms(5), of 0] and h = halve_mod_run [OF assms(1-4)]
  show ok: "p256_ok (p256_shr1 U 0)" and e: "wval U = 2 * wval (p256_shr1 U 0)"
    using u assms(6) by simp_all
  show "0 < wval (p256_shr1 U 0)"
    using e assms(7) by linarith
  have "wval MOD dvd a * (2 * wval (p256_halve_mod MOD R) - wval R) + (a * wval R - wval U)"
    using h(3) assms(8) by (intro dvd_add dvd_mult)
  then have "wval MOD dvd 2 * (a * wval (p256_halve_mod MOD R) - wval (p256_shr1 U 0))"
    unfolding e by (simp add: algebra_simps)
  then show "wval MOD dvd a * wval (p256_halve_mod MOD R) - wval (p256_shr1 U 0)"
    by (rule odd_cancel_2 [OF assms(2)])
qed

text \<open>Subtracting the smaller side from the larger.\<close>

lemma sub_step:
  assumes "p256_ok MOD" "p256_ok R" "p256_ok S" "wval R < wval MOD" "wval S < wval MOD" "p256_ok U" "p256_ok V"
    "wval U \<le> wval V" "wval MOD dvd a * wval R - wval U" "wval MOD dvd a * wval S - wval V"
  shows "p256_ok (snd (p256_sub V U))" "wval (snd (p256_sub V U)) = wval V - wval U"
    "p256_ok (p256_sub_mod MOD S R)" "wval (p256_sub_mod MOD S R) < wval MOD"
    "wval MOD dvd a * wval (p256_sub_mod MOD S R) - (wval V - wval U)"
proof -
  note v = p256_sub_run [OF assms(7,6)] and s = p256_sub_mod_run [OF assms(1,3,2,5,4)]
  have b: "0 < wval MOD" "wval V < P256_R"
    using wval_nonneg [of R] assms(4) p256_less [OF assms(7)] by linarith+
  show "p256_ok (snd (p256_sub V U))" "p256_ok (p256_sub_mod MOD S R)"
    using v s by simp_all
  show "wval (snd (p256_sub V U)) = wval V - wval U"
    unfolding v(3) using b assms(8) wval_nonneg [of U] by (intro mod_pos_pos_trivial) linarith+
  show "wval (p256_sub_mod MOD S R) < wval MOD"
    unfolding s(2) using b by simp
  have "wval MOD dvd wval (p256_sub_mod MOD S R) - (wval S - wval R)"
    unfolding s(2) by (simp add: mod_eq_dvd_iff [symmetric])
  then have "wval MOD dvd a * (wval (p256_sub_mod MOD S R) - (wval S - wval R)) +
      ((a * wval S - wval V) - (a * wval R - wval U))"
    using dvd_diff [OF assms(10,9)] by (intro dvd_add dvd_mult)
  then show "wval MOD dvd a * wval (p256_sub_mod MOD S R) - (wval V - wval U)"
    by (simp add: algebra_simps)
qed

lemma coprime_half: "coprime (2 * x) y \<Longrightarrow> coprime x (y :: int)"
  by (simp add: coprime_mult_left_iff)

lemma modinv_loop_run:
  assumes "p256_ok MOD" "odd (wval MOD)" "modinv_inv MOD a R S U V"
  shows "\<exists>b. modinv_loop MOD R S U V = Some b \<and> p256_ok b \<and> wval b < wval MOD \<and> wval MOD dvd a * wval b - 1"
  using assms(3)
proof (induction "nat (wval U + wval V)" arbitrary: R S U V rule: less_induct)
  case less
  note iv = less.prems [unfolded modinv_inv_def]
  note unf = modinv_loop.simps [of MOD R S U V]
  have par: "p256_is_even U \<longleftrightarrow> even (wval U)" "p256_is_even V \<longleftrightarrow> even (wval V)"
    using iv by (simp_all add: p256_even_run)
  consider (ue) "even (wval U)" | (ve) "odd (wval U)" "even (wval V)"
    | (vge) "odd (wval U)" "odd (wval V)" "wval U \<le> wval V" | (ugt) "odd (wval U)" "odd (wval V)" "wval V < wval U"
    by linarith
  then show ?case
  proof cases
    case ue
    note st = halve_step [OF assms(1,2), of R U a] and h = halve_mod_run [OF assms(1,2), of R]
    have e: "wval U = 2 * wval (p256_shr1 U 0)" "0 < wval (p256_shr1 U 0)"
      using st ue iv by simp_all
    have "coprime (wval (p256_shr1 U 0)) (wval V)"
      using iv e(1) coprime_half by metis
    then have "modinv_inv MOD a (p256_halve_mod MOD R) S (p256_shr1 U 0) V"
      using iv st h ue by (simp add: modinv_inv_def)
    from less.hyps [OF _ this] show ?thesis
      using e iv ue par by (simp add: unf)
  next
    case ve
    note st = halve_step [OF assms(1,2), of S V a] and h = halve_mod_run [OF assms(1,2), of S]
    have e: "wval V = 2 * wval (p256_shr1 V 0)" "0 < wval (p256_shr1 V 0)"
      using st ve iv by simp_all
    have "coprime (wval U) (wval (p256_shr1 V 0))"
      using iv e(1) coprime_half coprime_commute by metis
    then have "modinv_inv MOD a R (p256_halve_mod MOD S) U (p256_shr1 V 0)"
      using iv st h ve by (simp add: modinv_inv_def)
    from less.hyps [OF _ this] show ?thesis
      using e iv ve par by (simp add: unf)
  next
    case vge
    have st: "p256_ok (snd (p256_sub V U))" "wval (snd (p256_sub V U)) = wval V - wval U"
      "p256_ok (p256_sub_mod MOD S R)" "wval (p256_sub_mod MOD S R) < wval MOD"
      "wval MOD dvd a * wval (p256_sub_mod MOD S R) - (wval V - wval U)"
      using sub_step [OF assms(1), of R S U V a] vge iv by simp_all
    have f: "fst (p256_sub V U) = 0"
      using p256_sub_run(2) [of V U] iv vge by simp
    show ?thesis
    proof (cases "wval V = wval U")
      case True
      then have "wval U = 1"
        using iv by (auto simp: coprime_self zdvd1_eq)
      then show ?thesis
        using True f st(2) iv vge par by (simp add: unf p256_is_zero_run)
    next
      case False
      have "coprime (wval U) (wval V - wval U)"
        using iv by (metis coprime_commute coprime_iff_gcd_eq_1 gcd_diff1)
      then have "modinv_inv MOD a R (p256_sub_mod MOD S R) U (snd (p256_sub V U))"
        using iv st False vge by (simp add: modinv_inv_def)
      from less.hyps [OF _ this] show ?thesis
        using f st(2) iv vge par False by (simp add: unf p256_is_zero_run)
    qed
  next
    case ugt
    have st: "p256_ok (snd (p256_sub U V))" "wval (snd (p256_sub U V)) = wval U - wval V"
      "p256_ok (p256_sub_mod MOD R S)" "wval (p256_sub_mod MOD R S) < wval MOD"
      "wval MOD dvd a * wval (p256_sub_mod MOD R S) - (wval U - wval V)"
      using sub_step [OF assms(1), of S R V U a] ugt iv by simp_all
    have f: "fst (p256_sub V U) \<noteq> 0"
      using p256_sub_run(2) [of V U] iv ugt by simp
    have "coprime (wval U - wval V) (wval V)"
      using iv by (metis coprime_iff_gcd_eq_1 gcd_diff1)
    then have "modinv_inv MOD a (p256_sub_mod MOD R S) S (snd (p256_sub U V)) V"
      using iv st ugt by (simp add: modinv_inv_def)
    from less.hyps [OF _ this] show ?thesis
      using f st(2) iv ugt par by (simp add: unf)
  qed
qed

lemma modinv_loop_zero:
  assumes "modinv_loop M R S U V = Some b"
  shows "p256_ok U \<longrightarrow> odd (wval U) \<longrightarrow> p256_ok V \<longrightarrow> wval V \<noteq> 0"
proof (rule modinv_loop.raw_induct [OF _ assms, where P = "\<lambda>M R S U V b. p256_ok U \<longrightarrow> odd (wval U) \<longrightarrow> p256_ok V \<longrightarrow> wval V \<noteq> 0"],
    intro impI notI)
  fix loop M R S U V b
  assume IH: "\<And>M R S U V b. loop M R S U V = Some b \<Longrightarrow> p256_ok U \<longrightarrow> odd (wval U) \<longrightarrow> p256_ok V \<longrightarrow> wval V \<noteq> 0"
    and ok: "p256_ok U" "odd (wval U)" "p256_ok V" "wval V = 0"
    and run: "(if p256_is_even U then loop M (p256_halve_mod M R) S (p256_shr1 U 0) V
     else if p256_is_even V then loop M R (p256_halve_mod M S) U (p256_shr1 V 0)
     else if fst (p256_sub V U) = 0 then
       let V = snd (p256_sub V U); S = p256_sub_mod M S R in
       if p256_is_zero V then Some R else loop M R S U V
     else loop M (p256_sub_mod M R S) S (snd (p256_sub U V)) V) = Some b"
  have "loop M R (p256_halve_mod M S) U (p256_shr1 V 0) = Some b"
    using run ok by (simp add: p256_even_run)
  from IH [OF this] show False
    using ok p256_shr1_run [OF ok(3), of 0] by simp
qed

lemma p256_one: "p256_ok (p256_init[0 := 1])" "wval (p256_init[0 := 1]) = 1" "p256_ok p256_init" "wval p256_init = 0"
  by (simp_all add: p256_ok_def p256_init_def P256_NDIGITS_def numeral_eq_Suc)

lemmas digit_eval = uint_max P256_NDIGITS_def

lemma secp_moduli: "p256_modulus SECP256r1_p" "p256_modulus SECP256r1_n" "p256_ok SECP256r1_b"
  by (simp_all add: p256_modulus_def p256_ok_def SECP256r1_p_def SECP256r1_n_def SECP256r1_b_def digit_eval)

section \<open>What the functions compute\<close>

text \<open>
  C17: For a modulus whose most significant digit is all ones, none of the assertions of
  \<^verbatim>\<open>p256_modmul\<close> fails, and its result is the product of \<^verbatim>\<open>a\<close> and the nine-digit number \<^verbatim>\<open>top_b\<close>, \<^verbatim>\<open>b\<close>
  reduced modulo the modulus.
\<close>

theorem p256_modmul_correct:
  assumes "p256_modulus MOD" "p256_ok a" "p256_ok b"
  shows "\<exists>c. p256_modmul MOD a top_b b = Some c \<and> p256_ok c \<and>
    wval c = wval a * (wval b + 2 ^ 256 * uint top_b) mod wval MOD"
  by (rule p256_modmul_run [OF assms])

theorem p256_modmul_correct_witness:
  "\<exists>c. p256_modmul SECP256r1_n SECP256r1_b 3 SECP256r1_b = Some c \<and>
    wval c = wval SECP256r1_b * (wval SECP256r1_b + 2 ^ 256 * 3) mod wval SECP256r1_n"
  using p256_modmul_correct [OF secp_moduli(2,3,3), of 3] by auto

text \<open>
  C25: For an odd modulus and a positive number coprime to it, \<^verbatim>\<open>p256_modinv_vartime\<close> ends, and its result is
  below the modulus and is the inverse of the number.
\<close>

theorem p256_modinv_correct:
  assumes "p256_ok MOD" "odd (wval MOD)" "1 < wval MOD" "p256_ok a" "0 < wval a" "coprime (wval MOD) (wval a)"
  shows "\<exists>b. p256_modinv_vartime MOD a = Some b \<and> wval b < wval MOD \<and> wval a * wval b mod wval MOD = 1"
proof -
  have "modinv_inv MOD (wval a) p256_init (p256_init[0 := 1]) MOD a"
    using assms p256_one by (simp add: modinv_inv_def)
  from modinv_loop_run [OF assms(1,2) this] obtain b where
    b: "modinv_loop MOD p256_init (p256_init[0 := 1]) MOD a = Some b" "p256_ok b" "wval b < wval MOD"
      "wval MOD dvd wval a * wval b - 1"
    by blast
  have "wval (p256_mod MOD b) = wval b"
    using p256_mod_run(2) [OF assms(1) b(2)] b(3) wval_nonneg [of b] by simp
  moreover have "wval a * wval b mod wval MOD = 1 mod wval MOD"
    using b(4) by (simp add: mod_eq_dvd_iff)
  ultimately show ?thesis
    using b assms(3) by (simp add: p256_modinv_vartime_def)
qed

theorem p256_modinv_correct_witness:
  "\<exists>b. p256_modinv_vartime SECP256r1_n (p256_init[0 := 1]) = Some b \<and> wval b < wval SECP256r1_n \<and>
    wval b mod wval SECP256r1_n = 1"
  using p256_modinv_correct [of SECP256r1_n "p256_init[0 := 1]"] p256_one secp_moduli(2)
  by (simp add: p256_modulus_def SECP256r1_n_def digit_eval)

text \<open>C33: \<^verbatim>\<open>p256_modinv_vartime\<close> of zero never returns when the modulus is odd.\<close>

theorem p256_modinv_zero_diverges:
  assumes "p256_ok MOD" "odd (wval MOD)" "p256_ok a" "wval a = 0"
  shows "p256_modinv_vartime MOD a = None"
proof -
  have "modinv_loop MOD p256_init (p256_init[0 := 1]) MOD a \<noteq> Some b" for b
    using assms modinv_loop_zero by blast
  then have "modinv_loop MOD p256_init (p256_init[0 := 1]) MOD a = None"
    using not_None_eq by blast
  then show ?thesis
    by (simp add: p256_modinv_vartime_def)
qed

theorem p256_modinv_zero_diverges_witness: "p256_modinv_vartime SECP256r1_n p256_init = None"
  using p256_modinv_zero_diverges [of SECP256r1_n p256_init] p256_one secp_moduli(2)
  by (simp add: p256_modulus_def SECP256r1_n_def digit_eval)

text \<open>The right-hand side of the curve equation as the code computes it: the sum with \<^verbatim>\<open>b\<close> is reduced
  only when it overflows 256 bits.\<close>

definition curve_rhs :: "int \<Rightarrow> int" where
  "curve_rhs x = (let w = (x ^ 3 - 3 * x) mod wval SECP256r1_p + wval SECP256r1_b in
     if P256_R \<le> w then w - wval SECP256r1_p else w)"

lemma p256_add_reduce:
  assumes "p256_ok MOD" "p256_ok a" "p256_ok b" "wval a < wval MOD" "wval b < wval MOD"
  shows "case p256_add a b of (k, c) \<Rightarrow>
    p256_ok (if k \<noteq> 0 then snd (p256_sub c MOD) else c) \<and>
    wval (if k \<noteq> 0 then snd (p256_sub c MOD) else c) =
      (if P256_R \<le> wval a + wval b then wval a + wval b - wval MOD else wval a + wval b)"
proof -
  obtain k c where k: "p256_add a b = (k, c)"
    by fastforce
  note r = p256_add_run [OF assms(2,3) k]
  note s = p256_sub_run [OF r(1) assms(1)]
  have b: "0 \<le> wval c" "wval c < P256_R" "wval MOD < P256_R"
    using p256_less [OF r(1)] p256_less [OF assms(1)] by simp_all
  from r(2) show ?thesis
  proof
    assume k0: "k = 0"
    then have "wval c = wval a + wval b"
      using r(3) by simp
    then show ?thesis
      using k k0 r(1) b by simp
  next
    assume k1: "k = 1"
    then have c: "wval c = wval a + wval b - P256_R"
      using r(3) by simp
    then have "(wval c - wval MOD) mod P256_R = wval a + wval b - wval MOD"
      using b assms(4,5) by (subst mod_borrow) linarith+
    moreover have "P256_R \<le> wval a + wval b"
      using c b by linarith
    ultimately show ?thesis
      using k k1 s by simp
  qed
qed

lemma p256_is_valid_point_run:
  assumes "p256_ok x" "p256_ok y" "0 < wval x" "wval x < wval SECP256r1_p" "0 < wval y" "wval y < wval SECP256r1_p"
  shows "p256_is_valid_point x y = Some (wval y ^ 2 mod wval SECP256r1_p = curve_rhs (wval x))"
proof -
  let ?p = "wval SECP256r1_p"
  have ok: "p256_ok SECP256r1_p"
    using secp_moduli(1) by (simp add: p256_modulus_def)
  obtain y2 where y2: "p256_modmul SECP256r1_p y 0 y = Some y2" "p256_ok y2" "wval y2 = wval y * wval y mod ?p"
    using p256_modmul_run [OF secp_moduli(1) assms(2,2), of 0] by auto
  obtain x2 where x2: "p256_modmul SECP256r1_p x 0 x = Some x2" "p256_ok x2" "wval x2 = wval x * wval x mod ?p"
    using p256_modmul_run [OF secp_moduli(1) assms(1,1), of 0] by auto
  obtain x3 where x3: "p256_modmul SECP256r1_p x 0 x2 = Some x3" "p256_ok x3" "wval x3 = wval x * wval x2 mod ?p"
    using p256_modmul_run [OF secp_moduli(1) assms(1) x2(2), of 0] by auto
  have lt: "z mod ?p < ?p" for z
    using assms(3,4) by simp
  define d1 where "d1 = p256_sub_mod SECP256r1_p x3 x"
  define d2 where "d2 = p256_sub_mod SECP256r1_p d1 x"
  define d3 where "d3 = p256_sub_mod SECP256r1_p d2 x"
  have d1: "p256_ok d1" "wval d1 = (wval x3 - wval x) mod ?p"
    using p256_sub_mod_run [OF ok x3(2) assms(1) _ assms(4)] x3(3) lt by (simp_all add: d1_def)
  have d2: "p256_ok d2" "wval d2 = (wval d1 - wval x) mod ?p"
    using p256_sub_mod_run [OF ok d1(1) assms(1) _ assms(4)] d1(2) lt by (simp_all add: d2_def)
  have d3: "p256_ok d3" "wval d3 = (wval d2 - wval x) mod ?p"
    using p256_sub_mod_run [OF ok d2(1) assms(1) _ assms(4)] d2(2) lt by (simp_all add: d3_def)
  have "wval d3 = (wval x * (wval x * wval x) - wval x - wval x - wval x) mod ?p"
    unfolding d3 d2 d1 x3(3) x2(3) by (simp only: mod_diff_left_eq mod_mult_right_eq)
  then have v: "wval d3 = (wval x ^ 3 - 3 * wval x) mod ?p"
    by (simp add: power3_eq_cube algebra_simps)
  obtain k c where k: "p256_add d3 SECP256r1_b = (k, c)"
    by fastforce
  define e where "e = (if k \<noteq> 0 then snd (p256_sub c SECP256r1_p) else c)"
  have "wval SECP256r1_b < ?p"
    by (simp add: SECP256r1_b_def SECP256r1_p_def digit_eval)
  from p256_add_reduce [OF ok d3(1) secp_moduli(3) _ this] have e: "p256_ok e" "wval e = curve_rhs (wval x)"
    using k d3(2) lt by (simp_all add: e_def curve_rhs_def Let_def v)
  have "p256_is_valid_point x y = Some (p256_cmp y2 e = 0)"
    using y2(1) x2(1) x3(1) k assms ok
    by (simp add: p256_is_valid_point_def p256_cmp_run p256_is_zero_run d1_def [symmetric] d2_def [symmetric]
        d3_def [symmetric] e_def [symmetric])
  then show ?thesis
    using y2 e by (simp add: p256_cmp_run power2_eq_square)
qed

text \<open>
  C29: A pair of coordinates that \<^verbatim>\<open>p256_is_valid_point\<close> accepts is a point of the curve: both coordinates are
  positive and below the field size, and they satisfy the curve equation.
\<close>

theorem p256_is_valid_point_sound:
  assumes "p256_ok x" "p256_ok y" "p256_is_valid_point x y = Some True"
  shows "0 < wval x \<and> wval x < wval SECP256r1_p \<and> 0 < wval y \<and> wval y < wval SECP256r1_p \<and>
    (wval y ^ 2 - (wval x ^ 3 - 3 * wval x + wval SECP256r1_b)) mod wval SECP256r1_p = 0"
proof -
  let ?p = "wval SECP256r1_p"
  have ok: "p256_ok SECP256r1_p"
    using secp_moduli(1) by (simp add: p256_modulus_def)
  have r: "0 < wval x" "wval x < ?p" "0 < wval y" "wval y < ?p"
    using assms(3) wval_nonneg [of x] wval_nonneg [of y] assms(1,2) ok
    by (auto simp: p256_is_valid_point_def p256_cmp_run p256_is_zero_run less_le split: if_splits)
  then have "wval y ^ 2 mod ?p = curve_rhs (wval x)"
    using assms p256_is_valid_point_run [OF assms(1,2)] by simp
  then have "wval y ^ 2 mod ?p = curve_rhs (wval x) mod ?p"
    by (metis mod_mod_trivial)
  also have "\<dots> = (wval x ^ 3 - 3 * wval x + wval SECP256r1_b) mod ?p"
    by (simp add: curve_rhs_def Let_def mod_add_left_eq minus_mod_self2)
  finally show ?thesis
    using r by (simp add: mod_eq_dvd_iff mod_eq_0_iff_dvd)
qed

definition ex_gx :: p256_int where
  "ex_gx = [0xd898c296, 0xf4a13945, 0x2deb33a0, 0x77037d81, 0x63a440f2, 0xf8bce6e5, 0xe12c4247, 0x6b17d1f2]"

definition ex_gy :: p256_int where
  "ex_gy = [0x37bf51f5, 0xcbb64068, 0x6b315ece, 0x2bce3357, 0x7c0f9e16, 0x8ee7eb4a, 0xfe1a7f9b, 0x4fe342e2]"

lemma ex_g_valid: "p256_ok ex_gx" "p256_ok ex_gy" "p256_is_valid_point ex_gx ex_gy = Some True"
proof -
  show ok: "p256_ok ex_gx" "p256_ok ex_gy"
    by (simp_all add: p256_ok_def ex_gx_def ex_gy_def P256_NDIGITS_def)
  show "p256_is_valid_point ex_gx ex_gy = Some True"
    using p256_is_valid_point_run [OF ok]
    by (simp add: ex_gx_def ex_gy_def SECP256r1_p_def SECP256r1_b_def curve_rhs_def digit_eval Let_def)
qed

theorem p256_is_valid_point_sound_witness:
  "(wval ex_gy ^ 2 - (wval ex_gx ^ 3 - 3 * wval ex_gx + wval SECP256r1_b)) mod wval SECP256r1_p = 0"
  using p256_is_valid_point_sound [OF ex_g_valid] by simp

definition ex_px :: p256_int where
  "ex_px = [0x5a8a73cc, 0x57f879ce, 0x067d6010, 0x5fcc40a3, 0x611b282e, 0x9e2e2ecd, 0x5e568b6b, 0x6916fac4]"

definition ex_py :: p256_int where
  "ex_py = [1, 0, 0, 0, 0, 0, 0, 0]"

text \<open>
  C34: Not every point of the curve is accepted: there is one, with second coordinate 1, for which the sum
  with \<^verbatim>\<open>b\<close> lies between the field size and the next power of two, stays unreduced, and the
  point is refused.
\<close>

theorem p256_is_valid_point_incomplete:
  "p256_ok ex_px \<and> p256_ok ex_py \<and> 0 < wval ex_px \<and> wval ex_px < wval SECP256r1_p \<and> wval ex_py = 1 \<and>
   (wval ex_py ^ 2 - (wval ex_px ^ 3 - 3 * wval ex_px + wval SECP256r1_b)) mod wval SECP256r1_p = 0 \<and>
   p256_is_valid_point ex_px ex_py = Some False"
proof -
  have ok: "p256_ok ex_px" "p256_ok ex_py"
    by (simp_all add: p256_ok_def ex_px_def ex_py_def P256_NDIGITS_def)
  have r: "0 < wval ex_px" "wval ex_px < wval SECP256r1_p" "wval ex_py = 1"
    by (simp_all add: ex_px_def ex_py_def SECP256r1_p_def digit_eval)
  have "(1 - (wval ex_px ^ 3 - 3 * wval ex_px + wval SECP256r1_b)) mod wval SECP256r1_p = 0"
    "1 mod wval SECP256r1_p \<noteq> curve_rhs (wval ex_px)"
    by (simp_all add: ex_px_def SECP256r1_p_def SECP256r1_b_def curve_rhs_def digit_eval Let_def)
  then show ?thesis
    using p256_is_valid_point_run [OF ok] ok r by simp
qed

text \<open>
  For a shift count that is not a multiple of 32, \<^verbatim>\<open>p256_shl\<close> returns the bits shifted out and stores the
  rest of the shifted number, and \<^verbatim>\<open>p256_shr\<close> stores the quotient; for a multiple of 32 both shift a
  32-bit digit by 32 bits, which C leaves undefined.
\<close>

theorem p256_shift_values:
  assumes "p256_ok a" "0 \<le> n"
  shows "if n mod 32 = 0 then p256_shl a n = None \<and> p256_shr a n = None
    else (\<exists>t b. p256_shl a n = Some (t, b) \<and> wval b + 2 ^ 256 * uint t = 2 ^ nat (n mod 32) * wval a) \<and>
      (\<exists>b. p256_shr a n = Some b \<and> wval b = wval a div 2 ^ nat (n mod 32))"
proof -
  have m: "n smod 32 = n mod 32" "(n mod 32) smod 32 = n mod 32"
    using assms(2) pos_mod_sign [of 32 n]
    by (auto simp: signed_modulo_int_def signed_divide_int_def minus_mult_div_eq_mod sgn_if)
  have e: "p256_shl a n = p256_shl a (n mod 32)" "p256_shr a n = p256_shr a (n mod 32)"
    by (simp_all only: p256_shl_def p256_shr_def m)
  show ?thesis
  proof (cases "n mod 32 = 0")
    case True
    then show ?thesis
      by (simp add: p256_shl_def p256_shr_def m)
  next
    case False
    have b: "0 < n mod 32" "n mod 32 < 32"
      using False pos_mod_sign [of 32 n] pos_mod_bound [of 32 n] by linarith+
    show ?thesis
      using False p256_shl_run [OF assms(1) b] p256_shr_run [OF assms(1) b] unfolding e by auto
  qed
qed

theorem p256_shift_values_witness:
  "p256_shl SECP256r1_b 64 = None \<and> (\<exists>b. p256_shr SECP256r1_b 5 = Some b \<and> wval b = wval SECP256r1_b div 2 ^ 5)"
  using p256_shift_values [OF secp_moduli(3), of 64] p256_shift_values [OF secp_moduli(3), of 5] by simp

text \<open>
  \<^verbatim>\<open>p256_cmp\<close>, \<^verbatim>\<open>p256_sub\<close> and \<^verbatim>\<open>p256_add\<close> compare, subtract and add 256-bit numbers, the last two with the borrow
  or carry they return.
\<close>

theorem p256_arith_correct:
  assumes "p256_ok a" "p256_ok b"
  shows "p256_cmp a b = sgn (wval a - wval b) \<and>
    (case p256_sub a b of (borrow, c) \<Rightarrow> wval c + 2 ^ 256 * borrow = wval a - wval b \<and> borrow = (if wval a < wval b then - 1 else 0)) \<and>
    (case p256_add a b of (carry, c) \<Rightarrow> wval c + 2 ^ 256 * uint carry = wval a + wval b)"
proof -
  have b: "0 \<le> wval a" "0 \<le> wval b" "wval a < P256_R" "wval b < P256_R"
    using assms p256_less by simp_all
  have "wval (snd (p256_sub a b)) + P256_R * fst (p256_sub a b) = wval a - wval b"
  proof (cases "wval a < wval b")
    case True
    have "(wval a - wval b) mod P256_R = wval a - wval b + P256_R"
      using True b by (intro mod_borrow) linarith+
    then show ?thesis
      using True unfolding p256_sub_run(2,3) [OF assms] by simp
  next
    case False
    have "(wval a - wval b) mod P256_R = wval a - wval b"
      using False b by (intro mod_pos_pos_trivial) linarith+
    then show ?thesis
      using False unfolding p256_sub_run(2,3) [OF assms] by simp
  qed
  moreover have "case p256_add a b of (carry, c) \<Rightarrow> wval c + 2 ^ 256 * uint carry = wval a + wval b"
    using p256_add_run(3) [OF assms] by (cases "p256_add a b") simp
  ultimately show ?thesis
    using p256_sub_run(2) [OF assms] by (auto simp: p256_cmp_run [OF assms] sgn_if prod.case_eq_if)
qed

theorem p256_arith_correct_witness: "p256_cmp SECP256r1_b SECP256r1_n = - 1"
  using p256_arith_correct [of SECP256r1_b SECP256r1_n] secp_moduli
  by (simp add: p256_modulus_def SECP256r1_b_def SECP256r1_n_def digit_eval)

lemma p256_from_bin_run:
  assumes "length src = 32"
  shows "p256_ok (p256_from_bin src)" "wval (p256_from_bin src) = os2ip src"
proof -
  have "p256_from_bin src = rev (map (load_word src) [0..<8])"
    unfolding p256_from_bin_def P256_NDIGITS_def by (intro nth_equalityI) (simp_all add: rev_nth)
  then show "p256_ok (p256_from_bin src)" "wval (p256_from_bin src) = os2ip src"
    using wval_load_words [of src 8] assms by (simp_all add: p256_ok_def P256_NDIGITS_def)
qed

end
