(* ===== verification/Dsa_Sig.thy ===== *)
theory Dsa_Sig
  imports P256
begin

text \<open>
  \<^verbatim>\<open>libmincrypt/dsa_sig.c\<close>: unpacking the ASN.1 sequence of the two integers of an ECDSA signature.
  The signature is the buffer the caller passes; reading behind its end is \<^term>\<open>None\<close>.  The result
  \<^term>\<open>Some None\<close> is the return value 0, \<^term>\<open>Some (Some (r, s))\<close> is 1 with the two integers.
\<close>

section \<open>The code\<close>

definition rd_byte :: "byte list \<Rightarrow> int \<Rightarrow> byte option" where
  "rd_byte sig i = (if 0 \<le> i \<and> i < int (length sig) then Some (sig ! nat i) else None)"

text \<open>The loop skips leading zeros; it reads a byte before it looks at the remaining length.\<close>

fun trim_loop :: "byte list \<Rightarrow> int \<Rightarrow> nat \<Rightarrow> (int \<times> nat) option" where
  "trim_loop sig src src_len = do {
     b \<leftarrow> rd_byte sig src;
     if b = 0 \<and> src_len > 0 then trim_loop sig (src + 1) (src_len - 1) else Some (src, src_len) }"

declare trim_loop.simps [simp del]

definition trim_to_p256_bytes :: "byte list \<Rightarrow> int \<Rightarrow> nat \<Rightarrow> byte list option option" where
  "trim_to_p256_bytes sig src src_len = do {
     (src, src_len) \<leftarrow> trim_loop sig src src_len;
     if src_len > 32 \<or> src_len < 1 then Some None
     else if nat src + src_len > length sig then None
     else Some (Some (replicate (32 - src_len) 0 @ take src_len (drop (nat src) sig))) }"

definition dsa_sig_unpack :: "byte list \<Rightarrow> int \<Rightarrow> (p256_int \<times> p256_int) option option" where
  "dsa_sig_unpack sig sig_len = (if sig_len < 8 then Some None else do {
     b0 \<leftarrow> rd_byte sig 0;
     b2 \<leftarrow> rd_byte sig 2;
     if b0 \<noteq> 0x30 \<or> b2 \<noteq> 0x02 then Some None else do {
     b1 \<leftarrow> rd_byte sig 1;
     let seq_len = uint b1;
     if seq_len \<le> 0 \<or> seq_len + 2 \<noteq> sig_len then Some None else do {
     b3 \<leftarrow> rd_byte sig 3;
     let r_len = uint b3;
     if r_len < 1 \<or> r_len > seq_len - 5 then Some None else do {
     b \<leftarrow> rd_byte sig (4 + r_len);
     if b \<noteq> 0x02 then Some None else do {
     b5 \<leftarrow> rd_byte sig (5 + r_len);
     let s_len = uint b5;
     if s_len < 1 \<or> s_len \<noteq> seq_len - 4 - r_len then Some None else do {
     r \<leftarrow> trim_to_p256_bytes sig 4 (nat r_len);
     case r of None \<Rightarrow> Some None
     | Some r_bytes \<Rightarrow> do {
         s \<leftarrow> trim_to_p256_bytes sig (6 + r_len) (nat s_len);
         case s of None \<Rightarrow> Some None
         | Some s_bytes \<Rightarrow> Some (Some (p256_from_bin r_bytes, p256_from_bin s_bytes)) } } } } } } })"

section \<open>Trimming\<close>

definition strip_zeros :: "byte list \<Rightarrow> byte list" where
  "strip_zeros bs = dropWhile (\<lambda>b. b = 0) bs"

lemma os2ip_zeros: "os2ip (replicate k 0 @ bs) = os2ip bs"
proof -
  have "os2ip (replicate k 0) = 0"
    by (induction k) (simp_all add: os2ip_def)
  then show ?thesis
    by (simp add: os2ip_append)
qed

lemma strip_zeros_split: "bs = replicate (length bs - length (strip_zeros bs)) 0 @ strip_zeros bs"
proof (induction bs)
  case (Cons b bs)
  have "length (strip_zeros bs) \<le> length bs"
    by (simp add: strip_zeros_def length_dropWhile_le)
  then show ?case
    using Cons by (auto simp: strip_zeros_def Suc_diff_le)
qed (simp add: strip_zeros_def)

lemma os2ip_strip: "os2ip (strip_zeros bs) = os2ip bs"
  by (metis strip_zeros_split os2ip_zeros)

text \<open>The bytes of an integer lie in the buffer between two others.\<close>

lemma trim_loop_run:
  assumes "sig = pre @ bs @ post" "post \<noteq> [] \<or> strip_zeros bs \<noteq> []"
  shows "trim_loop sig (int (length pre)) (length bs) =
    Some (int (length sig - length post - length (strip_zeros bs)), length (strip_zeros bs))"
  using assms
proof (induction bs arbitrary: pre)
  case Nil
  then show ?case
    by (simp add: trim_loop.simps [of _ _ 0] rd_byte_def strip_zeros_def)
next
  case (Cons b bs)
  have "rd_byte sig (int (length pre)) = Some b"
    by (simp add: rd_byte_def Cons.prems(1))
  then show ?case
    using Cons.IH [of "pre @ [b]"] Cons.prems
    by (cases "b = 0") (simp_all add: trim_loop.simps [of _ "int (length pre)" "Suc (length bs)"] strip_zeros_def add.commute)
qed

lemma trim_run:
  assumes "sig = pre @ bs @ post" "post \<noteq> [] \<or> strip_zeros bs \<noteq> []"
  shows "trim_to_p256_bytes sig (int (length pre)) (length bs) =
    Some (if length (strip_zeros bs) > 32 \<or> strip_zeros bs = [] then None
      else Some (replicate (32 - length (strip_zeros bs)) 0 @ strip_zeros bs))"
proof -
  let ?z = "strip_zeros bs" and ?k = "length bs - length (strip_zeros bs)"
  have l: "length ?z \<le> length bs"
    by (simp add: strip_zeros_def length_dropWhile_le)
  have "drop ?k bs = ?z"
    using strip_zeros_split [of bs] by (metis append_eq_conv_conj length_replicate)
  then have d: "take (length ?z) (drop (length pre + ?k) sig) = ?z"
    using l by (simp add: assms(1))
  define j where "j = length pre + ?k"
  have e: "length sig - length post - length ?z = j" "j + length ?z \<le> length sig"
    using l by (simp_all add: assms(1) j_def)
  show ?thesis
    unfolding trim_to_p256_bytes_def trim_loop_run [OF assms] e(1)
    using d e(2) by (auto simp: j_def [symmetric])
qed

lemma trim_overread:
  assumes "sig = pre @ replicate n 0"
  shows "trim_to_p256_bytes sig (int (length pre)) n = None"
proof -
  have "trim_loop sig (int (length pre)) n = None"
    using assms
  proof (induction n arbitrary: pre)
    case 0
    then show ?case
      by (simp add: trim_loop.simps [of _ _ 0] rd_byte_def)
  next
    case (Suc n)
    have "rd_byte sig (int (length pre)) = Some 0"
      by (simp add: rd_byte_def Suc.prems nth_append)
    then show ?case
      using Suc.IH [of "pre @ [0]"] Suc.prems
      by (simp add: trim_loop.simps [of _ "int (length pre)" "Suc n"] replicate_append_same add.commute)
  qed
  then show ?thesis
    by (simp add: trim_to_p256_bytes_def)
qed

section \<open>Unpacking\<close>

text \<open>
  A sequence of two integers given by their octets, every length in one octet.  Lengths above
  127 do not have this form in ASN.1, where they need more octets.
\<close>

definition tlv_sig :: "byte list \<Rightarrow> byte list \<Rightarrow> byte list" where
  "tlv_sig rb sb = [0x30, of_nat (length rb + length sb + 4), 0x02, of_nat (length rb)] @ rb
     @ [0x02, of_nat (length sb)] @ sb"

definition tlv_ok :: "byte list \<Rightarrow> byte list \<Rightarrow> bool" where
  "tlv_ok rb sb \<longleftrightarrow> rb \<noteq> [] \<and> sb \<noteq> [] \<and> length rb + length sb + 4 < 256"

lemma uint_len: "n < 256 \<Longrightarrow> uint (of_nat n :: byte) = int n"
  by (simp add: unsigned_of_nat take_bit_eq_mod flip: of_nat_mod)

lemma word_of_int_len: "int n = uint (b :: byte) \<Longrightarrow> of_nat n = b"
proof -
  assume "int n = uint b"
  then have "n = nat (uint b)"
    by (metis nat_int)
  then show ?thesis
    by simp
qed

lemma unpack_tlv:
  assumes "tlv_ok rb sb"
  defines "sig \<equiv> tlv_sig rb sb"
  shows "dsa_sig_unpack sig (int (length sig)) = do {
     r \<leftarrow> trim_to_p256_bytes sig 4 (length rb);
     case r of None \<Rightarrow> Some None
     | Some r_bytes \<Rightarrow> do {
         s \<leftarrow> trim_to_p256_bytes sig (6 + int (length rb)) (length sb);
         case s of None \<Rightarrow> Some None
         | Some s_bytes \<Rightarrow> Some (Some (p256_from_bin r_bytes, p256_from_bin s_bytes)) } }"
proof -
  let ?r = "length rb" and ?s = "length sb"
  have pos: "0 < ?r" "0 < ?s" "?r + ?s + 4 < 256"
    using assms(1) by (auto simp: tlv_ok_def)
  have len: "length sig = 6 + ?r + ?s"
    by (simp add: sig_def tlv_sig_def)
  have rd: "rd_byte sig 0 = Some 0x30" "rd_byte sig 1 = Some (of_nat (?r + ?s + 4))" "rd_byte sig 2 = Some 0x02"
    "rd_byte sig 3 = Some (of_nat ?r)" "rd_byte sig (4 + int ?r) = Some 0x02" "rd_byte sig (5 + int ?r) = Some (of_nat ?s)"
    by (simp_all add: rd_byte_def len) (simp_all add: sig_def tlv_sig_def nth_append nat_add_distrib numeral_nat)
  have u: "uint (of_nat (?r + ?s + 4) :: byte) = int (?r + ?s + 4)" "uint (of_nat ?r :: byte) = int ?r"
    "uint (of_nat ?s :: byte) = int ?s"
    using pos by (simp_all only: uint_len)
  have two: "(int ?r + int ?s < 2) = False"
    unfolding eq_False using pos by linarith
  show ?thesis
    unfolding dsa_sig_unpack_def rd bind.bind_lunit Let_def u len using pos by (simp add: two)
qed

text \<open>What the encoding of each integer has to be for the code to accept it.\<close>

definition p256_octets :: "byte list \<Rightarrow> bool" where
  "p256_octets bs \<longleftrightarrow> strip_zeros bs \<noteq> [] \<and> length (strip_zeros bs) \<le> 32"

lemma trim_value:
  assumes "p256_octets bs"
  shows "wval (p256_from_bin (replicate (32 - length (strip_zeros bs)) 0 @ strip_zeros bs)) = os2ip bs"
    "p256_ok (p256_from_bin (replicate (32 - length (strip_zeros bs)) 0 @ strip_zeros bs))"
  using assms p256_from_bin_run [of "replicate (32 - length (strip_zeros bs)) 0 @ strip_zeros bs"]
  by (simp_all add: p256_octets_def os2ip_zeros os2ip_strip)

lemma tlv_parts:
  "tlv_sig rb sb = [0x30, of_nat (length rb + length sb + 4), 0x02, of_nat (length rb)] @ rb
     @ ([0x02, of_nat (length sb)] @ sb)"
  "tlv_sig rb sb = ([0x30, of_nat (length rb + length sb + 4), 0x02, of_nat (length rb)] @ rb
     @ [0x02, of_nat (length sb)]) @ sb @ []"
  by (simp_all add: tlv_sig_def)

lemma trim_first:
  "trim_to_p256_bytes (tlv_sig rb sb) 4 (length rb) = Some (if p256_octets rb
      then Some (replicate (32 - length (strip_zeros rb)) 0 @ strip_zeros rb) else None)"
  using trim_run [OF tlv_parts(1) [of rb sb]] by (auto simp: p256_octets_def)

lemma trim_second:
  "trim_to_p256_bytes (tlv_sig rb sb) (6 + int (length rb)) (length sb) = (if strip_zeros sb = [] then None
      else Some (if p256_octets sb then Some (replicate (32 - length (strip_zeros sb)) 0 @ strip_zeros sb) else None))"
proof (cases "strip_zeros sb = []")
  case True
  then have "sb = replicate (length sb) 0"
    using strip_zeros_split [of sb] by simp
  then show ?thesis
    using True tlv_parts(2) [of rb sb]
      trim_overread [of "tlv_sig rb sb" "[0x30, of_nat (length rb + length sb + 4), 0x02, of_nat (length rb)] @ rb
        @ [0x02, of_nat (length sb)]" "length sb"]
    by (simp add: add.commute)
next
  case False
  then show ?thesis
    using trim_run [OF tlv_parts(2) [of rb sb]] by (auto simp: p256_octets_def add.commute)
qed

lemma unpack_accepts:
  assumes "tlv_ok rb sb" "p256_octets rb" "p256_octets sb"
  shows "\<exists>r s. dsa_sig_unpack (tlv_sig rb sb) (int (length (tlv_sig rb sb))) = Some (Some (r, s)) \<and>
    p256_ok r \<and> wval r = os2ip rb \<and> p256_ok s \<and> wval s = os2ip sb"
  using assms trim_value
  by (simp add: unpack_tlv trim_first trim_second p256_octets_def)

section \<open>The distinguished encoding\<close>

text \<open>
  DER (X.690) on numbers: a non-negative integer has the fewest octets that leave the top bit,
  its sign, clear; its octets are preceded by the tag and their number, and a sequence by its
  tag and length.
\<close>

fun octet_count :: "nat \<Rightarrow> nat" where
  "octet_count n = (if n < 128 then 1 else Suc (octet_count (n div 256)))"

declare octet_count.simps [simp del]

definition der_integer :: "nat \<Rightarrow> byte list" where
  "der_integer n = [0x02, of_nat (octet_count n)] @ big_endian (octet_count n) n"

definition der_signature :: "nat \<Rightarrow> nat \<Rightarrow> byte list" where
  "der_signature r s = [0x30, of_nat (length (der_integer r @ der_integer s))] @ der_integer r @ der_integer s"

lemma length_big_endian [simp]: "length (big_endian k n) = k"
  by (simp add: big_endian_def)

lemma der_signature_tlv:
  "der_signature r s = tlv_sig (big_endian (octet_count r) r) (big_endian (octet_count s) s)"
  by (simp add: der_signature_def der_integer_def tlv_sig_def ac_simps)

lemma octet_count_pos: "0 < octet_count n"
  by (subst octet_count.simps) simp

lemma octet_count_bound: "n < 256 ^ octet_count n"
proof (induction n rule: octet_count.induct)
  case (1 n)
  show ?case
  proof (cases "n < 128")
    case False
    then have "n div 256 < 256 ^ octet_count (n div 256)" by (rule 1)
    then have "n < 256 * 256 ^ octet_count (n div 256)" by (simp add: div_less_iff_less_mult mult.commute)
    then show ?thesis using False by (subst octet_count.simps) simp
  qed (simp add: octet_count.simps)
qed

lemma octet_count_le: "n < 128 * 256 ^ k \<Longrightarrow> octet_count n \<le> Suc k"
proof (induction k arbitrary: n)
  case 0
  then show ?case by (simp add: octet_count.simps)
next
  case (Suc k)
  then have "n div 256 < 128 * 256 ^ k" by (simp add: div_less_iff_less_mult mult.commute mult.left_commute)
  then show ?case using Suc.IH by (subst octet_count.simps) auto
qed

lemma os2ip_big_endian: "n < 256 ^ k \<Longrightarrow> os2ip (big_endian k n) = int n"
proof (induction k arbitrary: n)
  case 0
  then show ?case by (simp add: big_endian_def little_endian_def)
next
  case (Suc k)
  have "big_endian (Suc k) n = big_endian k (n div 256) @ [of_nat n]"
    by (simp add: big_endian_def little_endian_def map_upt_Suc div_mult2_eq del: upt_Suc)
  moreover have "os2ip (big_endian k (n div 256)) = int (n div 256)"
    using Suc by (simp add: div_less_iff_less_mult mult.commute)
  moreover have "uint (of_nat n :: byte) = int (n mod 256)"
    by (simp add: unsigned_of_nat take_bit_eq_mod zmod_int)
  ultimately show ?case
    by (simp add: os2ip_snoc of_nat_div of_nat_mod)
qed

text \<open>A number below \<open>2\<^sup>2\<^sup>5\<^sup>6\<close> has at most 32 significant octets.\<close>

lemma os2ip_nonneg: "0 \<le> os2ip bs"
  by (induction bs rule: rev_induct) (simp_all add: os2ip_snoc)

lemma significant_octets:
  assumes "strip_zeros bs \<noteq> []"
  shows "256 ^ (length (strip_zeros bs) - 1) \<le> os2ip bs"
proof -
  obtain b cs where z: "strip_zeros bs = b # cs" using assms by (cases "strip_zeros bs") auto
  then have "b \<noteq> 0" by (auto simp: strip_zeros_def dropWhile_eq_Cons_conv)
  then have "1 \<le> uint b" by (metis linorder_not_less uint_0_iff uint_ge_0 zless_imp_add1_zle add_0 order.order_iff_strict)
  then have "1 * 256 ^ length cs \<le> uint b * 256 ^ length cs" by (intro mult_right_mono) simp_all
  also have "\<dots> \<le> os2ip ([b] @ cs)" using os2ip_nonneg [of cs] unfolding os2ip_append by (simp add: os2ip_def [of "[b]"])
  finally show ?thesis using os2ip_strip [of bs] z by simp
qed

lemma p256_octetsI:
  assumes "0 < os2ip bs" "os2ip bs < 2 ^ 256"
  shows "p256_octets bs"
proof -
  have ne: "strip_zeros bs \<noteq> []" using assms(1) os2ip_strip [of bs] by auto
  have "length (strip_zeros bs) \<le> 32"
  proof (rule ccontr)
    assume "\<not> ?thesis"
    then have "(256 :: int) ^ 32 \<le> 256 ^ (length (strip_zeros bs) - 1)" by (intro power_increasing) simp_all
    then show False using significant_octets [OF ne] assms(2) by simp
  qed
  with ne show ?thesis by (simp add: p256_octets_def)
qed

lemma der_signature_ok:
  assumes "0 < r" "r < 2 ^ 256" "0 < s" "s < 2 ^ 256"
  defines "rb \<equiv> big_endian (octet_count r) r" and "sb \<equiv> big_endian (octet_count s) s"
  shows "tlv_ok rb sb" "p256_octets rb" "p256_octets sb" "os2ip rb = int r" "os2ip sb = int s"
proof -
  have "octet_count n \<le> 33" if "n < 2 ^ 256" for n
    using octet_count_le [of n 32] that by (simp add: order.strict_trans)
  then have "octet_count r \<le> 33" "octet_count s \<le> 33" using assms by blast+
  then show "tlv_ok rb sb"
    using octet_count_pos [of r] octet_count_pos [of s]
    by (auto simp: tlv_ok_def rb_def sb_def simp flip: length_greater_0_conv)
  show v: "os2ip rb = int r" "os2ip sb = int s"
    by (simp_all add: rb_def sb_def os2ip_big_endian octet_count_bound)
  have "int r < 2 ^ 256" "int s < 2 ^ 256" using assms(2,4) by (metis of_nat_less_iff of_nat_numeral of_nat_power)+
  then show "p256_octets rb" "p256_octets sb" using assms(1,3) v by (auto intro: p256_octetsI)
qed

text \<open>
  C23: The DER encoding of two positive integers below \<open>2\<^sup>2\<^sup>5\<^sup>6\<close> is unpacked to these two integers.
\<close>

theorem dsa_sig_unpack_der:
  assumes "0 < m" "m < 2 ^ 256" "0 < n" "n < 2 ^ 256"
  shows "\<exists>r s. dsa_sig_unpack (der_signature m n) (int (length (der_signature m n))) = Some (Some (r, s)) \<and>
    p256_ok r \<and> wval r = int m \<and> p256_ok s \<and> wval s = int n"
  using unpack_accepts [OF der_signature_ok(1-3) [OF assms]] der_signature_ok(4,5) [OF assms]
  unfolding der_signature_tlv by simp

theorem dsa_sig_unpack_der_witness:
  "der_signature 200 772 = [0x30, 8, 2, 2, 0, 200, 2, 2, 3, 4] \<and>
   (\<exists>r s. dsa_sig_unpack (der_signature 200 772) (int (length (der_signature 200 772))) = Some (Some (r, s)) \<and>
    wval r = 200 \<and> wval s = 772)"
  using dsa_sig_unpack_der [of 200 772]
  by (auto simp: der_signature_def der_integer_def octet_count.simps big_endian_def little_endian_def)

text \<open>
  C35: When the second integer of an otherwise acceptable signature consists of zeros only, the loop that
  skips them reads the byte behind the signature before it sees that none is left.
\<close>

theorem dsa_sig_unpack_overread:
  assumes "tlv_ok rb sb" "p256_octets rb" "strip_zeros sb = []"
  shows "dsa_sig_unpack (tlv_sig rb sb) (int (length (tlv_sig rb sb))) = None"
  using assms by (simp add: unpack_tlv trim_first trim_second)

theorem dsa_sig_unpack_overread_witness:
  "dsa_sig_unpack (tlv_sig [7] [0]) (int (length (tlv_sig [7] [0]))) = None"
  using dsa_sig_unpack_overread [of "[7]" "[0]"] by (simp add: tlv_ok_def p256_octets_def strip_zeros_def)

text \<open>
  C24: Whatever the code accepts, given a buffer of exactly the stated length, is a sequence of two
  integers with one-octet lengths of up to 255, each with 1 to 32 significant octets behind any
  number of zeros, and the code returns the numbers these octets denote without a sign.  This
  is more than DER allows.
\<close>

theorem dsa_sig_unpack_sound:
  assumes "dsa_sig_unpack sig (int (length sig)) = Some (Some (r, s))"
  shows "\<exists>rb sb. sig = tlv_sig rb sb \<and> tlv_ok rb sb \<and> p256_octets rb \<and> p256_octets sb \<and>
    wval r = os2ip rb \<and> wval s = os2ip sb"
proof -
  have u: "uint b < 256" "0 \<le> uint b" "of_nat (nat (uint b)) = b" for b :: byte
    using unsigned_less [of b, where ?'a = int] by simp_all
  have len: "8 \<le> length sig"
    using assms by (auto simp: dsa_sig_unpack_def split: if_splits)
  define rl where "rl = nat (uint (sig ! 3))"
  have rd: "rd_byte sig 0 = Some (sig ! 0)" "rd_byte sig 1 = Some (sig ! 1)" "rd_byte sig 2 = Some (sig ! 2)"
    "rd_byte sig 3 = Some (sig ! 3)"
    using len by (auto simp: rd_byte_def)
  have c1: "sig ! 0 = 0x30" "sig ! 2 = 0x02" "uint (sig ! 1) + 2 = int (length sig)"
    "1 \<le> uint (sig ! 3)" "uint (sig ! 3) \<le> uint (sig ! 1) - 5"
    using assms len unfolding dsa_sig_unpack_def rd bind.bind_lunit Let_def by (auto split: if_splits)
  have ir: "uint (sig ! 3) = int rl"
    using u(2) by (simp add: rl_def)
  have rd2: "rd_byte sig (4 + int rl) = Some (sig ! (4 + rl))" "rd_byte sig (5 + int rl) = Some (sig ! (5 + rl))"
    using c1(3,5) ir by (simp_all add: rd_byte_def nat_add_distrib)
  have c2: "sig ! (4 + rl) = 0x02" "1 \<le> uint (sig ! (5 + rl))" "uint (sig ! (5 + rl)) = uint (sig ! 1) - 4 - int rl"
    using assms len c1 unfolding dsa_sig_unpack_def rd bind.bind_lunit Let_def ir rd2 by (auto split: if_splits)
  define rb sb where "rb = take rl (drop 4 sig)" and "sb = drop (6 + rl) sig"
  have l: "length rb = rl" "int (length sb) = uint (sig ! (5 + rl))" "int (rl + length sb + 4) = uint (sig ! 1)"
    using c1 c2 ir by (simp_all add: rb_def sb_def)
  have w: "of_nat (rl + length sb + 4) = sig ! 1" "of_nat rl = sig ! 3" "of_nat (length sb) = sig ! (5 + rl)"
    using word_of_int_len [OF l(3)] word_of_int_len [OF ir [symmetric]] word_of_int_len [OF l(2)] .
  have "take 4 sig = map ((!) sig) [0..<4]"
    using len by (intro nth_equalityI) simp_all
  then have t: "take 4 sig = [sig ! 0, sig ! 1, sig ! 2, sig ! 3]"
    by (simp add: upt_rec numeral_nat)
  have m: "drop (4 + rl) sig = sig ! (4 + rl) # sig ! (5 + rl) # drop (6 + rl) sig"
    using c1(3,5) ir Cons_nth_drop_Suc [of "4 + rl" sig] Cons_nth_drop_Suc [of "5 + rl" sig] by (simp add: numeral_nat)
  have "sig = take 4 sig @ rb @ drop (4 + rl) sig"
    unfolding rb_def by (metis append_take_drop_id drop_drop add.commute)
  also have "\<dots> = tlv_sig rb sb"
    using c1(1,2) c2(1) l(1) w unfolding t m tlv_sig_def sb_def [symmetric] by simp
  finally have d: "sig = tlv_sig rb sb" .
  have ok: "tlv_ok rb sb"
    using l c1(4) c2(2) ir u(1) [of "sig ! 1"] by (auto simp: tlv_ok_def)
  show ?thesis
    using assms ok trim_value unfolding d
    by (auto simp: unpack_tlv trim_first trim_second split: if_splits)
qed

theorem dsa_sig_unpack_sound_witness:
  "\<exists>r s rb sb. dsa_sig_unpack (tlv_sig [7] [9]) (int (length (tlv_sig [7] [9]))) = Some (Some (r, s)) \<and>
    tlv_sig [7] [9] = tlv_sig rb sb \<and> wval r = os2ip rb \<and> wval s = os2ip sb"
proof -
  have "tlv_ok [7] [9]" "p256_octets [7]" "p256_octets [9]"
    by (simp_all add: tlv_ok_def p256_octets_def strip_zeros_def)
  then obtain r s where "dsa_sig_unpack (tlv_sig [7] [9]) (int (length (tlv_sig [7] [9]))) = Some (Some (r, s))"
    using unpack_accepts by blast
  with dsa_sig_unpack_sound [OF this] show ?thesis
    by metis
qed

text \<open>
  A signature that is not the DER encoding of any two non-negative integers is accepted: its
  first integer has the top bit set, which makes it negative.
\<close>

theorem dsa_sig_unpack_not_der:
  "(\<exists>r s. dsa_sig_unpack [0x30, 6, 2, 1, 0x80, 2, 1, 1] 8 = Some (Some (r, s)) \<and> wval r = 128) \<and>
   (\<forall>m n. [0x30, 6, 2, 1, 0x80, 2, 1, 1] \<noteq> der_signature m n)"
proof -
  have t: "tlv_sig [0x80] [1] = [0x30, 6, 2, 1, 0x80, 2, 1, 1]"
    by (simp add: tlv_sig_def)
  have "tlv_ok [0x80] [1]" "p256_octets [0x80]" "p256_octets [1]"
    by (simp_all add: tlv_ok_def p256_octets_def strip_zeros_def)
  from unpack_accepts [OF this]
  have "\<exists>r s. dsa_sig_unpack [0x30, 6, 2, 1, 0x80, 2, 1, 1] 8 = Some (Some (r, s)) \<and> wval r = 128"
    unfolding t by (auto simp: os2ip_def)
  moreover have "[0x30, 6, 2, 1, 0x80, 2, 1, 1] \<noteq> der_signature m n" for m n
  proof
    assume e: "[0x30, 6, 2, 1, 0x80, 2, 1, 1] = der_signature m n"
    from arg_cong [OF e, of length] have "octet_count m + octet_count n = 2"
      by (simp add: der_signature_def der_integer_def)
    then have c: "octet_count m = 1" using octet_count_pos [of m] octet_count_pos [of n] by linarith
    then have "m < 128" using octet_count_pos [of "m div 256"] by (subst (asm) octet_count.simps) (simp split: if_splits)
    moreover have "of_nat m = (0x80 :: byte)"
      using e c by (simp add: der_signature_def der_integer_def big_endian_def little_endian_def)
    then have "unat (of_nat m :: byte) = 128" by simp
    ultimately show False by (simp add: unat_of_nat take_bit_eq_mod)
  qed
  ultimately show ?thesis by blast
qed

end
