(* ===== verification/Jstring.thy ===== *)
theory Jstring
  imports Prelude
begin

text \<open>
  The conversions of libcutils between UTF-16 and the modified UTF-8 of Java
  (\<^verbatim>\<open>strdup8to16.c\<close>, \<^verbatim>\<open>strdup16to8.c\<close>): a 16-bit unit, surrogate or not, is one sequence of up to
  three bytes, and a zero unit is two bytes, so that the result is a C string.

  A pointer to UTF-8 text is the list of the bytes from there on that may be read, the terminating
  zero included; a read behind them is undefined.  A target is given by the number of units that
  may be written to it; a write behind them is undefined.  \<^verbatim>\<open>char\<close> is signed.
\<close>

section \<open>From UTF-16 to UTF-8\<close>

definition unit_len :: "u16 \<Rightarrow> u64" where
  "unit_len uic = (if uic > 0x07ff then 3 else if uic > 0x7f \<or> uic = 0 then 2 else 1)"

fun strnlen_fast :: "u16 list \<Rightarrow> u64 \<Rightarrow> u64" where
  "strnlen_fast [] utf8Len = utf8Len"
| "strnlen_fast (uic # s) utf8Len = strnlen_fast s (utf8Len + unit_len uic)"

fun strnlen_slow :: "u16 list \<Rightarrow> u64 \<Rightarrow> u64" where
  "strnlen_slow [] utf8Len = (if utf8Len = - 1 then - 2 else utf8Len)"
| "strnlen_slow (uic # s) utf8Cur = (let utf8Len = utf8Cur + unit_len uic in
     if utf8Len < utf8Cur then - 2 else strnlen_slow s utf8Len)"

text \<open>The string and its length are one list.\<close>

definition strnlen16to8 :: "u16 list \<Rightarrow> u64" where
  "strnlen16to8 s = (if of_nat (length s) < ((- 2) :: u64) div 3 then strnlen_fast s 0 else strnlen_slow s 0)"

definition unit_bytes :: "u16 \<Rightarrow> byte list" where
  "unit_bytes uic = (if uic > 0x07ff then
       [ucast (drop_bit 12 uic) OR 0xe0, ucast (drop_bit 6 uic AND 0x3f) OR 0x80, ucast (uic AND 0x3f) OR 0x80]
     else if uic > 0x7f \<or> uic = 0 then
       [ucast (drop_bit 6 uic) OR 0xc0, ucast (uic AND 0x3f) OR 0x80]
     else [ucast uic])"

text \<open>The bytes written, the terminating zero included.\<close>

fun strncpy16to8 :: "u16 list \<Rightarrow> byte list" where
  "strncpy16to8 [] = [0]"
| "strncpy16to8 (uic # s) = unit_bytes uic @ strncpy16to8 s"

text \<open>\<open>None\<close> is undefined, \<open>Some None\<close> a null result; \<open>av\<close> counts the allocations that succeed.\<close>

definition strndup16to8 :: "u16 list option \<Rightarrow> nat \<Rightarrow> byte list option option" where
  "strndup16to8 s av = (case s of None \<Rightarrow> Some None
     | Some s \<Rightarrow> let len = strnlen16to8 s in
         if len \<ge> - 2 then Some None
         else if av = 0 then Some None
         else if length (strncpy16to8 s) \<le> unat (len + 1) then Some (Some (strncpy16to8 s)) else None)"

section \<open>From UTF-8 to UTF-16\<close>

definition UTF8_SEQ_LENGTH :: "byte \<Rightarrow> nat" where
  "UTF8_SEQ_LENGTH ch = unat (drop_bit (unat (drop_bit 3 ch AND 0x1e)) (0xe5000000 :: u32) AND 3) + 1"

definition is_ext :: "byte \<Rightarrow> bool" where
  "is_ext b \<longleftrightarrow> b AND 0xc0 = 0x80"

text \<open>
  The counter \<^verbatim>\<open>expected\<close> is an \<^verbatim>\<open>int\<close> that every extension byte decrements; below the least \<^verbatim>\<open>int\<close> the
  result is undefined.
\<close>

fun strlen_loop :: "byte list \<Rightarrow> int \<Rightarrow> u64 \<Rightarrow> u64 option" where
  "strlen_loop [] expected len = None"
| "strlen_loop (ic # s) expected len =
     (if ic = 0 then Some len
      else if is_ext ic then
        (if expected = - (2 ^ 31) then None
         else strlen_loop s (expected - 1) (if expected - 1 < 0 then len + 1 else len))
      else let expected = int (UTF8_SEQ_LENGTH ic) - 1 in
        strlen_loop s expected (if expected = 3 then len + 2 else len + 1))"

definition strlen8to16 :: "byte list \<Rightarrow> u64 option" where
  "strlen8to16 s = strlen_loop s 0 0"

definition leaderMask :: "byte list" where
  "leaderMask = [0xff, 0x1f, 0x0f, 0x07]"

text \<open>The remaining bytes of a sequence: how many, the value so far, the bytes from the pointer on.\<close>

fun getUtf32_loop :: "nat \<Rightarrow> u32 \<Rightarrow> byte list \<Rightarrow> (u32 \<times> byte list) option" where
  "getUtf32_loop 0 ret s = Some (ret, s)"
| "getUtf32_loop (Suc n) ret [] = None"
| "getUtf32_loop (Suc n) ret (b # s) =
     (if b = 0 \<or> \<not> is_ext b then Some (0xfffd, b # s)
      else getUtf32_loop n (push_bit 6 ret OR scast (0x3f AND b)) s)"

fun getUtf32FromUtf8 :: "byte list \<Rightarrow> (u32 \<times> byte list) option" where
  "getUtf32FromUtf8 [] = None"
| "getUtf32FromUtf8 (b # s) =
     (if is_ext b then Some (0xfffd, s)
      else let ret = scast b AND scast (leaderMask ! (UTF8_SEQ_LENGTH b - 1)) in
        if b = 0 then Some (ret, b # s) else getUtf32_loop (UTF8_SEQ_LENGTH b - 1) ret s)"

definition units_of :: "u32 \<Rightarrow> u16 list" where
  "units_of ret = (if ret \<le> 0xffff then [ucast ret]
     else if ret \<le> 0x10fffd then
       [ucast (0xd800 OR drop_bit 10 (ret - 0x10000)), ucast (0xdc00 OR ((ret - 0x10000) AND 0x3ff))]
     else [0xfffd])"

text \<open>The loop of \<^verbatim>\<open>strcpy8to16\<close>; \<open>cap\<close> is the room left in the target.\<close>

partial_function (option) strcpy8to16 :: "nat \<Rightarrow> byte list \<Rightarrow> u16 list option" where
  "strcpy8to16 cap s = (case s of [] \<Rightarrow> None
     | b # _ \<Rightarrow> if b = 0 then Some []
         else do {
           (ret, s) \<leftarrow> getUtf32FromUtf8 s;
           if length (units_of ret) \<le> cap then do {
             us \<leftarrow> strcpy8to16 (cap - length (units_of ret)) s;
             Some (units_of ret @ us) } else None })"

declare strcpy8to16.simps [code]

text \<open>The same up to an end given by the number of bytes to it, whether or not the text contains a zero.\<close>

partial_function (option) strcpylen8to16 :: "nat \<Rightarrow> byte list \<Rightarrow> int \<Rightarrow> u16 list option" where
  "strcpylen8to16 cap s n = (if 0 < n then do {
       (ret, s') \<leftarrow> getUtf32FromUtf8 s;
       if length (units_of ret) \<le> cap then do {
         us \<leftarrow> strcpylen8to16 (cap - length (units_of ret)) s' (n - (int (length s) - int (length s')));
         Some (units_of ret @ us) } else None }
     else Some [])"

declare strcpylen8to16.simps [code]

text \<open>
  The result of \<^verbatim>\<open>malloc\<close> is not checked: a null target has no room.  \<open>None\<close> is undefined,
  \<open>Some None\<close> the null result for a null argument or a length that overflows.
\<close>

definition strdup8to16 :: "byte list option \<Rightarrow> nat \<Rightarrow> u16 list option option" where
  "strdup8to16 s av = (case s of None \<Rightarrow> Some None
     | Some s \<Rightarrow> do {
         len \<leftarrow> strlen8to16 s;
         if len \<noteq> 0 \<and> (- 1) div len < 2 then Some None
         else do {
           us \<leftarrow> strcpy8to16 (if av = 0 then 0 else unat len) s;
           Some (Some us) } })"

section \<open>Bits of the sequences\<close>

lemma byte_bitsI:
  fixes a b :: byte
  assumes "\<And>n. n \<in> {0, 1, 2, 3, 4, 5, 6, 7} \<Longrightarrow> bit a n = bit b n"
  shows "a = b"
proof (rule bit_word_eqI)
  fix n
  assume "n < LENGTH(8)"
  then have "n \<in> {0, 1, 2, 3, 4, 5, 6, 7}"
    by auto
  then show "bit a n = bit b n"
    by (rule assms)
qed

lemma no_bit [simp]: "16 \<le> n \<Longrightarrow> \<not> bit (u :: u16) n" "8 \<le> n \<Longrightarrow> \<not> bit (c :: byte) n"
  by (auto dest: bit_imp_le_length)

lemma nibble_cases: "unat (drop_bit 4 (b :: byte)) \<in> set [0..<16]"
proof -
  have "unat b div 16 < 16"
    using unsigned_less [of b, where ?'a = nat] by (simp add: less_mult_imp_div_less)
  then show ?thesis
    by (simp add: drop_bit_eq_div unat_div_distrib)
qed

lemma upt16: "[0..<16] = [0, 1, 2, 3, 4, 5, 6, 7, 8, 9, 10, 11, 12, 13, 14, 15 :: nat]"
  by (simp add: upt_rec)

lemma seq_length_nibble:
  "UTF8_SEQ_LENGTH b = (let t = unat (drop_bit 4 b) in
    if t < 12 then 1 else if t < 14 then 2 else if t = 14 then 3 else 4)"
proof -
  have "drop_bit 3 b AND 0x1e = push_bit 1 (drop_bit 4 b)"
    by (rule byte_bitsI) (auto simp: bit_simps simp del: push_bit_numeral push_bit_of_Suc_0 push_bit_Suc)
  then have k: "unat (drop_bit 3 b AND 0x1e) = 2 * unat (drop_bit 4 b)"
    using nibble_cases [of b] by (simp add: unat_word_ariths push_bit_eq_mult)
  show ?thesis
    using nibble_cases [of b] unfolding UTF8_SEQ_LENGTH_def k upt16 by (auto simp: Let_def drop_bit_eq_div)
qed

lemma is_ext_iff: "is_ext b \<longleftrightarrow> drop_bit 6 b = 2"
proof -
  have b: "b AND 0xc0 = push_bit 6 (drop_bit 6 b)" "drop_bit 6 (b AND 0xc0) = drop_bit 6 b"
    by (rule byte_bitsI; auto simp: bit_simps)+
  show ?thesis
    unfolding is_ext_def
  proof
    assume "b AND 0xc0 = 0x80"
    then show "drop_bit 6 b = 2"
      unfolding b(2) [symmetric] by simp
  next
    assume "drop_bit 6 b = 2"
    then show "b AND 0xc0 = 0x80"
      unfolding b(1) by simp
  qed
qed

lemma scast_ucast_low: "\<not> bit b 7 \<Longrightarrow> scast (b :: byte) = (ucast b :: u32)"
proof (rule bit_word_eqI)
  fix n
  assume a: "\<not> bit b 7" "n < LENGTH(32)"
  consider "n < 7" | "n = 7" | "8 \<le> n"
    by fastforce
  then show "bit (scast b :: u32) n = bit (ucast b :: u32) n"
    using a by cases (simp_all add: bit_signed_iff bit_unsigned_iff)
qed

lemma scast_and: "\<not> bit m 7 \<Longrightarrow> scast (b :: byte) AND scast m = (ucast (b AND m) :: u32)"
  using scast_ucast_low [of "b AND m"] by (simp add: signed_and_eq bit_and_iff)

section \<open>Decoding an encoded unit\<close>

lemma unit_bits:
  fixes u :: u16
  shows "drop_bit 4 (ucast (drop_bit 12 u) OR 0xe0 :: byte) = 14"
    "drop_bit 6 (ucast (u AND 0x3f) OR 0x80 :: byte) = 2"
    "0x3f AND (ucast (u AND 0x3f) OR 0x80) = (ucast (u AND 0x3f) :: byte)"
    "(ucast (drop_bit 12 u) OR 0xe0) AND 15 = (ucast (drop_bit 12 u) :: byte)"
  by (rule byte_bitsI; auto simp: bit_simps)+

lemma three_parts:
  fixes u :: u16
  shows "push_bit 6 (push_bit 6 (ucast (drop_bit 12 u)) OR ucast (drop_bit 6 u AND mask 6)) OR ucast (u AND mask 6) =
    (ucast u :: u32)"
proof (rule bit_word_eqI)
  fix n
  assume a: "n < LENGTH(32)"
  consider "n < 6" | "6 \<le> n" "n < 12" | "12 \<le> n"
    by fastforce
  then show "bit (push_bit 6 (push_bit 6 (ucast (drop_bit 12 u)) OR ucast (drop_bit 6 u AND mask 6)) OR
      ucast (u AND mask 6) :: u32) n = bit (ucast u :: u32) n"
    using a by cases (auto simp: bit_simps)
qed

lemma two_parts:
  fixes u :: u16
  shows "push_bit 6 (ucast (drop_bit 6 u)) OR ucast (u AND mask 6) = (ucast u :: u32)"
proof (rule bit_word_eqI)
  fix n
  assume a: "n < LENGTH(32)"
  consider "n < 6" | "6 \<le> n"
    by fastforce
  then show "bit (push_bit 6 (ucast (drop_bit 6 u)) OR ucast (u AND mask 6) :: u32) n = bit (ucast u :: u32) n"
    using a by cases (auto simp: bit_simps)
qed

lemma high_bits: "u \<le> 0x7ff \<Longrightarrow> 11 \<le> n \<Longrightarrow> \<not> bit (u :: u16) n"
proof -
  assume "u \<le> 0x7ff" "11 \<le> n"
  then have "unat u < 2 ^ n"
    using power_increasing [of 11 n "2 :: nat"] by (simp add: word_le_nat_alt)
  then have "\<not> bit (unat u) n"
    by (simp add: bit_iff_odd)
  then show ?thesis
    by (simp add: bit_unsigned_iff)
qed

lemma two_bits:
  fixes u :: u16
  assumes "u \<le> 0x7ff"
  shows "drop_bit 5 (ucast (drop_bit 6 u) OR 0xc0 :: byte) = 6"
    "(ucast (drop_bit 6 u) OR 0xc0) AND 0x1f = (ucast (drop_bit 6 u) :: byte)"
  by (rule byte_bitsI; auto simp: bit_simps high_bits [OF assms])+

lemma ext_unit:
  fixes u :: u16
  shows "is_ext (ucast (u AND 0x3f) OR 0x80)" "(ucast (u AND 0x3f) OR 0x80 :: byte) \<noteq> 0"
    "scast (0x3f AND (ucast (u AND 0x3f) OR 0x80) :: byte) = (ucast (u AND mask 6) :: u32)"
proof -
  have "mask 6 = (0x3f :: u16)"
    by (simp add: mask_eq_exp_minus_1)
  moreover have "\<not> bit (ucast (u AND 0x3f) :: byte) 7"
    by (simp add: bit_simps)
  moreover have "(ucast (ucast (u AND 0x3f) :: byte) :: u32) = ucast (u AND 0x3f)"
    using calculation(1) by (intro bit_word_eqI) (auto simp: bit_simps simp flip: calculation(1))
  ultimately show "scast (0x3f AND (ucast (u AND 0x3f) OR 0x80) :: byte) = (ucast (u AND mask 6) :: u32)"
    by (simp add: unit_bits(3) scast_ucast_low)
  show "is_ext (ucast (u AND 0x3f) OR 0x80)"
    unfolding is_ext_iff unit_bits(2) by (rule refl)
  then show "(ucast (u AND 0x3f) OR 0x80 :: byte) \<noteq> 0"
    by (auto simp: is_ext_def)
qed

text \<open>The kind of a byte by its upper half.\<close>

definition nib :: "byte \<Rightarrow> nat" where
  "nib b = unat b div 16"

lemma drop_nib: "unat (drop_bit 4 b) = nib b" "unat (drop_bit 5 b) = nib b div 2" "unat (drop_bit 6 b) = nib b div 4"
  "nib b \<in> set [0..<16]"
  using nibble_cases [of b] by (simp_all add: nib_def drop_bit_eq_div unat_div_distrib div_mult2_eq [symmetric])

lemma byte_kind:
  "UTF8_SEQ_LENGTH b = (if nib b < 12 then 1 else if nib b < 14 then 2 else if nib b = 14 then 3 else 4)"
  "is_ext b \<longleftrightarrow> nib b div 4 = 2" "bit b 7 \<longleftrightarrow> 8 \<le> nib b"
proof -
  show "UTF8_SEQ_LENGTH b = (if nib b < 12 then 1 else if nib b < 14 then 2 else if nib b = 14 then 3 else 4)"
    by (simp add: seq_length_nibble drop_nib Let_def)
  show "is_ext b \<longleftrightarrow> nib b div 4 = 2"
    unfolding is_ext_iff by (simp add: word_unat_eq_iff drop_nib)
  have "bit b 7 \<longleftrightarrow> odd (unat b div 128)"
    using bit_unsigned_iff [where ?'a = nat, of b 7] by (simp add: bit_iff_odd)
  also have "unat b div 128 = nib b div 8"
    by (simp add: nib_def div_mult2_eq [symmetric])
  finally show "bit b 7 \<longleftrightarrow> 8 \<le> nib b"
    using drop_nib(4) [of b] unfolding upt16 by auto
qed

lemma ext_nonzero: "is_ext b \<Longrightarrow> b \<noteq> 0" "\<not> is_ext 0"
  by (auto simp: is_ext_def)

lemma kinds:
  "nib b < 8 \<Longrightarrow> \<not> is_ext b \<and> UTF8_SEQ_LENGTH b = 1"
  "nib b div 2 = 6 \<Longrightarrow> \<not> is_ext b \<and> UTF8_SEQ_LENGTH b = 2 \<and> b \<noteq> 0"
  "nib b = 14 \<Longrightarrow> \<not> is_ext b \<and> UTF8_SEQ_LENGTH b = 3 \<and> b \<noteq> 0"
  "\<not> is_ext b \<Longrightarrow> nib b < 8 \<or> nib b div 2 = 6 \<or> nib b = 14 \<or> nib b = 15"
  using drop_nib(4) [of b] unfolding byte_kind(1,2) upt16 by (auto simp: nib_def)

lemma and_ff: "b AND 0xff = (b :: byte)"
  by (rule byte_bitsI) (auto simp: bit_simps)

lemma get_lead:
  assumes "\<not> is_ext b" "b \<noteq> 0"
  shows "getUtf32FromUtf8 (b # s) =
    getUtf32_loop (UTF8_SEQ_LENGTH b - 1) (ucast (b AND leaderMask ! (UTF8_SEQ_LENGTH b - 1))) s"
proof -
  have "scast b AND scast (leaderMask ! (UTF8_SEQ_LENGTH b - 1)) = (ucast (b AND leaderMask ! (UTF8_SEQ_LENGTH b - 1)) :: u32)"
  proof (cases "nib b < 8")
    case True
    then have "\<not> bit b 7"
      using byte_kind(3) [of b] by simp
    then show ?thesis
      using True kinds(1) [of b] by (simp add: leaderMask_def scast_ucast_low and_ff)
  next
    case False
    then have "UTF8_SEQ_LENGTH b \<in> {2, 3, 4}"
      using kinds(4) [OF assms(1)] by (auto simp: byte_kind(1))
    then have "\<not> bit (leaderMask ! (UTF8_SEQ_LENGTH b - 1)) 7"
      by (auto simp: leaderMask_def)
    then show ?thesis
      by (rule scast_and)
  qed
  then show ?thesis
    using assms by (simp add: Let_def)
qed

lemma unat_up: "unat (ucast (b :: byte) :: u32) = unat b" "unat (ucast (u :: u16) :: u32) = unat u"
  unfolding unat_eq_nat_uint by (subst uint_up_ucast; simp add: is_up)+

lemma get_ext: "is_ext b \<Longrightarrow> getUtf32FromUtf8 (b # s) = Some (0xfffd, s)"
  by simp

lemma get_zero: "getUtf32FromUtf8 (0 # s) = Some (0, 0 # s)"
  using ext_nonzero(2) by (simp add: Let_def)

declare getUtf32FromUtf8.simps [simp del]

lemma get_unit:
  fixes u :: u16
  shows "getUtf32FromUtf8 (unit_bytes u @ s) = Some (ucast u, s)" "hd (unit_bytes u) \<noteq> 0" "unit_bytes u \<noteq> []"
    "strlen_loop (unit_bytes u @ s) e len = strlen_loop s 0 (len + 1)"
proof -
  note x = ext_unit [of "drop_bit 6 u"] ext_unit [of u]
  consider (three) "u > 0x7ff" | (two) "u \<le> 0x7ff" "u > 0x7f \<or> u = 0" | (one) "\<not> u > 0x7f" "u \<noteq> 0"
    by fastforce
  then have "getUtf32FromUtf8 (unit_bytes u @ s) = Some (ucast u, s) \<and> hd (unit_bytes u) \<noteq> 0 \<and>
    strlen_loop (unit_bytes u @ s) e len = strlen_loop s 0 (len + 1)"
  proof cases
    case three
    define b where "b = (ucast (drop_bit 12 u) OR 0xe0 :: byte)"
    have n: "nib b = 14" "b AND 15 = ucast (drop_bit 12 u)"
      unfolding drop_nib(1) [symmetric] b_def unit_bits(1,4) by simp_all
    have v: "(ucast (ucast (drop_bit 12 u) :: byte) :: u32) = ucast (drop_bit 12 u)"
      by (intro bit_word_eqI) (auto simp: bit_simps dest: bit_imp_le_length)
    have "unit_bytes u = [b, ucast (drop_bit 6 u AND 0x3f) OR 0x80, ucast (u AND 0x3f) OR 0x80]"
      using three by (simp add: unit_bytes_def b_def)
    then show ?thesis
      using kinds(3) [OF n(1)] n(2) x v three_parts [of u]
      by (simp add: get_lead leaderMask_def numeral_2_eq_2 Let_def)
  next
    case two
    define b where "b = (ucast (drop_bit 6 u) OR 0xc0 :: byte)"
    have n: "nib b div 2 = 6" "b AND 0x1f = ucast (drop_bit 6 u)"
      unfolding drop_nib(2) [symmetric] b_def two_bits [OF two(1)] by simp_all
    have "m < 11" if "bit u m" for m
      using high_bits [OF two(1), of m] that by fastforce
    then have v: "(ucast (ucast (drop_bit 6 u) :: byte) :: u32) = ucast (drop_bit 6 u)"
      by (intro bit_word_eqI) (fastforce simp: bit_simps)
    have "unit_bytes u = [b, ucast (u AND 0x3f) OR 0x80]"
      using two by (simp add: unit_bytes_def b_def not_less)
    then show ?thesis
      using kinds(2) [OF n(1)] n(2) x v two_parts [of u] by (simp add: get_lead leaderMask_def Let_def)
  next
    case one
    then have u: "unat u < 128"
      by (simp add: not_less word_le_nat_alt)
    then have n: "unat (ucast u :: byte) = unat u"
      by (simp add: unsigned_ucast_eq take_bit_nat_eq_self)
    then have k: "nib (ucast u) < 8" "(ucast u :: byte) \<noteq> 0"
      using u one(2) by (auto simp: nib_def less_mult_imp_div_less word_unat_eq_iff)
    have "(ucast (ucast u :: byte) :: u32) = ucast u"
      using n by (intro word_unat_eq_iff [THEN iffD2]) (simp only: unat_up)
    moreover have "unit_bytes u = [ucast u]"
      using one by (simp add: unit_bytes_def not_less word_le_nat_alt)
    ultimately show ?thesis
      using kinds(1) [OF k(1)] k(2) by (simp add: get_lead leaderMask_def and_ff Let_def)
  qed
  then show "getUtf32FromUtf8 (unit_bytes u @ s) = Some (ucast u, s)" "hd (unit_bytes u) \<noteq> 0"
    "strlen_loop (unit_bytes u @ s) e len = strlen_loop s 0 (len + 1)"
    by blast+
  show "unit_bytes u \<noteq> []"
    by (simp add: unit_bytes_def)
qed

section \<open>What the conversions promise\<close>

lemma units_of_ucast: "units_of (ucast (u :: u16)) = [u]"
proof -
  have "unat (ucast u :: u32) < 65536"
    using unsigned_less [of u, where ?'a = nat] by (simp add: unsigned_ucast_eq take_bit_nat_eq_self)
  then have "(ucast u :: u32) \<le> 0xffff"
    by (simp add: word_le_nat_alt)
  moreover have "ucast (ucast u :: u32) = u"
    by (rule bit_word_eqI) (auto simp: bit_simps)
  ultimately show ?thesis
    by (simp add: units_of_def)
qed

lemma strcpy_step:
  assumes "b \<noteq> 0" "getUtf32FromUtf8 (b # s) = Some (ret, s')"
    "length (units_of ret) \<le> cap" "strcpy8to16 (cap - length (units_of ret)) s' = Some us"
  shows "strcpy8to16 cap (b # s) = Some (units_of ret @ us)"
  using assms by (subst strcpy8to16.simps) simp

lemma strcpy_zero: "strcpy8to16 cap (0 # s) = Some []"
  by (subst strcpy8to16.simps) simp

lemma strcpy_units: "length us \<le> cap \<Longrightarrow> strcpy8to16 cap (strncpy16to8 us) = Some us"
proof (induction us arbitrary: cap)
  case (Cons u us)
  obtain b bs where b: "unit_bytes u = b # bs" "b \<noteq> 0"
    using get_unit(2,3) [of u] by (cases "unit_bytes u") auto
  have "strcpy8to16 cap (b # bs @ strncpy16to8 us) = Some (units_of (ucast u) @ us)"
    using Cons.prems Cons.IH [of "cap - 1"] b get_unit(1) [of u "strncpy16to8 us"]
    by (cases cap; intro strcpy_step; simp add: units_of_ucast)
  then show ?case
    by (simp add: b units_of_ucast)
qed (simp add: strcpy_zero)

lemma strlen_units: "strlen_loop (strncpy16to8 us) e len = Some (len + of_nat (length us))"
  by (induction us arbitrary: e len) (simp_all add: get_unit(4))

lemma unit_len_bytes: "unat (unit_len u) = length (unit_bytes u)" "length (unit_bytes u) \<le> 3"
  by (simp_all add: unit_len_def unit_bytes_def)

lemma strnlen_units:
  "unat acc + 3 * length us < 2 ^ 64 \<Longrightarrow> unat (strnlen_fast us acc) + 1 = unat acc + length (strncpy16to8 us)"
proof (induction us arbitrary: acc)
  case (Cons u us)
  have "unat (acc + unit_len u) = unat acc + length (unit_bytes u)"
    using Cons.prems unit_len_bytes [of u] by (simp add: unat_word_ariths)
  then show ?case
    using Cons.IH [of "acc + unit_len u"] Cons.prems unit_len_bytes(2) [of u] by simp
qed simp

lemma strndup_run:
  assumes "length us < 2 ^ 60" "0 < av"
  shows "strndup16to8 (Some us) av = Some (Some (strncpy16to8 us))"
proof -
  have l: "unat (strnlen_fast us 0) + 1 = length (strncpy16to8 us)"
    using strnlen_units [of 0 us] assms(1) by simp
  have "length (strncpy16to8 us) \<le> 3 * length us + 1"
  proof (induction us)
    case (Cons u us)
    then show ?case
      using unit_len_bytes(2) [of u] by simp
  qed simp
  then have n: "unat (strnlen_fast us 0) < 2 ^ 62"
    using l assms(1) by simp
  have "(of_nat (length us) :: u64) < (- 2) div 3"
    using assms(1) by (simp add: word_less_nat_alt unsigned_of_nat take_bit_nat_eq_self)
  then have "strnlen16to8 us = strnlen_fast us 0"
    by (simp add: strnlen16to8_def)
  moreover have "\<not> strnlen_fast us 0 \<ge> - 2" "unat (strnlen_fast us 0 + 1) = length (strncpy16to8 us)"
    using n l by (simp_all add: word_le_nat_alt unat_word_ariths)
  ultimately show ?thesis
    using assms(2) by (simp add: strndup16to8_def Let_def)
qed

text \<open>The check of the allocated size passes for lengths that can occur.\<close>

lemma half_max:
  assumes "n < 2 ^ 62"
  shows "\<not> ((of_nat n :: u64) \<noteq> 0 \<and> (- 1) div (of_nat n :: u64) < 2)"
proof (cases "n = 0")
  case False
  have "2 \<le> (2 ^ 64 - 1) div n"
    using assms False by (simp add: less_eq_div_iff_mult_less_eq)
  then show ?thesis
    using assms by (simp add: word_less_nat_alt unat_div_distrib unsigned_of_nat take_bit_nat_eq_self
        unsigned_minus_1_eq_mask mask_eq_exp_minus_1)
qed simp

text \<open>
  C14: Every UTF-16 string, with unpaired surrogates and zero units included, survives the conversion to
  UTF-8 and back, when the two allocations succeed.
\<close>

theorem strdup16to8_8to16:
  assumes "length us < 2 ^ 60" "0 < av" "0 < av2"
  shows "\<exists>s. strndup16to8 (Some us) av = Some (Some s) \<and> strdup8to16 (Some s) av2 = Some (Some us)"
proof -
  let ?n = "of_nat (length us) :: u64"
  have n: "unat ?n = length us"
    using assms(1) by (simp add: unsigned_of_nat take_bit_nat_eq_self)
  have "strdup8to16 (Some (strncpy16to8 us)) av2 = Some (Some us)"
    using assms(1,3) half_max [of "length us"] strlen_units [of us 0 0] strcpy_units [of us "length us"] n
    by (auto simp: strdup8to16_def strlen8to16_def)
  then show ?thesis
    using strndup_run [OF assms(1,2)] by blast
qed

theorem strdup16to8_8to16_witness:
  "\<exists>s. strndup16to8 (Some [0x41, 0, 0xd800, 0xffff]) 1 = Some (Some s) \<and>
    strdup8to16 (Some s) 1 = Some (Some [0x41, 0, 0xd800, 0xffff])"
  using strdup16to8_8to16 [of "[0x41, 0, 0xd800, 0xffff]" 1 1] by simp

section \<open>Arbitrary bytes\<close>

text \<open>The count of \<^verbatim>\<open>strlen8to16\<close> as a natural number.\<close>

fun unit_count :: "byte list \<Rightarrow> int \<Rightarrow> nat" where
  "unit_count [] e = 0"
| "unit_count (b # s) e = (if b = 0 then 0
     else if is_ext b then (if e \<le> 0 then 1 else 0) + unit_count s (e - 1)
     else (if UTF8_SEQ_LENGTH b = 4 then 2 else 1) + unit_count s (int (UTF8_SEQ_LENGTH b) - 1))"

abbreviation c_length :: "byte list \<Rightarrow> nat" where
  "c_length s \<equiv> length (takeWhile (\<lambda>b. b \<noteq> 0) s)"

lemma strlen_count:
  "0 \<in> set s \<Longrightarrow> int (c_length s) \<le> e + 2 ^ 31 \<Longrightarrow> c_length s \<le> 2 ^ 31 \<Longrightarrow>
     strlen_loop s e len = Some (len + of_nat (unit_count s e))"
proof (induction s e arbitrary: len rule: unit_count.induct)
  case (2 b s e)
  have "0 \<le> int (UTF8_SEQ_LENGTH b) - 1" by (simp add: UTF8_SEQ_LENGTH_def)
  then show ?case using 2 by (cases "b = 0") (auto simp: Let_def add.assoc)
qed simp

lemma unit_count_le: "unit_count s e \<le> 2 * c_length s"
  by (induction s e rule: unit_count.induct) auto

lemma unit_count_ext:
  "\<forall>b \<in> set ext. is_ext b \<Longrightarrow> int (length ext) \<le> e \<Longrightarrow> unit_count (ext @ s) e = unit_count s (e - int (length ext))"
  using ext_nonzero(1) by (induction ext arbitrary: e) (auto simp: algebra_simps)

lemma six_bits: "bit (scast (0x3f AND b :: byte) :: u32) m \<longleftrightarrow> m < 6 \<and> bit b m"
proof -
  have m: "0x3f = (mask 6 :: byte)"
    by (simp add: mask_eq_exp_minus_1)
  have "scast (0x3f AND b :: byte) = (ucast (0x3f AND b) :: u32)"
    by (rule scast_ucast_low) (simp add: bit_simps)
  then show ?thesis
    unfolding m by (auto simp: bit_simps)
qed

text \<open>What a sequence consumes: bytes that continue it, all of them or up to the first that does not.\<close>

lemma getUtf32_loop_run:
  assumes "0 \<in> set s" "\<forall>m \<ge> k. \<not> bit ret m"
  shows "\<exists>r ext s'. getUtf32_loop n ret s = Some (r, s') \<and> s = ext @ s' \<and> (\<forall>b \<in> set ext. is_ext b) \<and>
    0 \<in> set s' \<and> length ext \<le> n \<and>
    (length ext = n \<and> (\<forall>m \<ge> k + 6 * n. \<not> bit r m) \<or> r = 0xfffd \<and> \<not> is_ext (hd s'))"
  using assms
proof (induction n ret s arbitrary: k rule: getUtf32_loop.induct)
  case (3 n ret b s)
  show ?case
  proof (cases "is_ext b")
    case True
    then have b: "b \<noteq> 0"
      by (rule ext_nonzero)
    have "\<forall>m \<ge> k + 6. \<not> bit (push_bit 6 ret OR scast (0x3f AND b)) m"
      using "3.prems"(2) by (auto simp: bit_or_iff bit_push_bit_iff six_bits)
    with "3.IH" [of "k + 6"] True b "3.prems"(1) obtain r ext s' where
      "getUtf32_loop n (push_bit 6 ret OR scast (0x3f AND b)) s = Some (r, s') \<and> s = ext @ s' \<and>
       (\<forall>b \<in> set ext. is_ext b) \<and> 0 \<in> set s' \<and> length ext \<le> n \<and>
       (length ext = n \<and> (\<forall>m \<ge> k + 6 + 6 * n. \<not> bit r m) \<or> r = 0xfffd \<and> \<not> is_ext (hd s'))"
      by auto
    then show ?thesis
      using True b by (intro exI [of _ r] exI [of _ "b # ext"] exI [of _ s']) (auto simp: algebra_simps)
  next
    case False
    then show ?thesis
      using "3.prems"(1) by (intro exI [of _ "0xfffd"] exI [of _ "[]"] exI [of _ "b # s"]) auto
  qed
qed auto

text \<open>One step of the conversion on a string: what is read, and how much it counts.\<close>

lemma units_of_length: "length (units_of r) \<le> 2" "\<forall>m \<ge> 16. \<not> bit r m \<Longrightarrow> length (units_of r) = 1"
  "length (units_of 0xfffd) = 1"
proof -
  assume "\<forall>m \<ge> 16. \<not> bit r m"
  then have "r = take_bit 16 r"
    by (intro bit_word_eqI) (auto simp: bit_take_bit_iff not_le [symmetric])
  then have "unat r < 2 ^ 16"
    using take_bit_nat_less_exp [of 16 "unat r"] by (metis unsigned_take_bit_eq)
  then show "length (units_of r) = 1"
    by (simp add: units_of_def word_le_nat_alt)
qed (simp_all add: units_of_def)

lemma lead_bits:
  assumes "\<not> is_ext b" "UTF8_SEQ_LENGTH b \<noteq> 4"
  shows "\<forall>m \<ge> 16 - 6 * (UTF8_SEQ_LENGTH b - 1). \<not> bit (ucast (b AND leaderMask ! (UTF8_SEQ_LENGTH b - 1)) :: u32) m"
proof -
  have m: "0x1f = (mask 5 :: byte)" "0x0f = (mask 4 :: byte)"
    by (simp_all add: mask_eq_exp_minus_1)
  have "UTF8_SEQ_LENGTH b \<in> {1, 2, 3}"
    using assms(2) by (auto simp: byte_kind(1) split: if_splits)
  then show ?thesis
    by (auto simp: leaderMask_def m bit_simps)
qed

lemma decode_step:
  assumes "0 \<in> set (b # s)" "b \<noteq> 0" "e \<le> 0 \<or> \<not> is_ext b"
  shows "\<exists>r s' e'. getUtf32FromUtf8 (b # s) = Some (r, s') \<and> 0 \<in> set s' \<and> length s' < length (b # s) \<and>
    (e' \<le> 0 \<or> \<not> is_ext (hd s')) \<and> length (units_of r) + unit_count s' e' \<le> unit_count (b # s) e"
proof (cases "is_ext b")
  case True
  then show ?thesis
    using assms by (intro exI [of _ "0xfffd"] exI [of _ s] exI [of _ "e - 1"]) (auto simp: get_ext units_of_length)
next
  case False
  let ?n = "UTF8_SEQ_LENGTH b - 1" and ?r = "ucast (b AND leaderMask ! (UTF8_SEQ_LENGTH b - 1)) :: u32"
  define k where "k = (if UTF8_SEQ_LENGTH b = 4 then 32 else 16 - 6 * ?n)"
  have s: "0 \<in> set s" and k: "\<forall>m \<ge> k. \<not> bit ?r m"
    using assms(1,2) lead_bits [OF False] by (auto simp: k_def dest: bit_imp_le_length)
  obtain r ext s' where g: "getUtf32_loop ?n ?r s = Some (r, s')" "s = ext @ s'" "\<forall>b \<in> set ext. is_ext b"
    "0 \<in> set s'" "length ext \<le> ?n"
    "length ext = ?n \<and> (\<forall>m \<ge> k + 6 * ?n. \<not> bit r m) \<or> r = 0xfffd \<and> \<not> is_ext (hd s')"
    using getUtf32_loop_run [OF s k] by blast
  have n: "int (UTF8_SEQ_LENGTH b) - 1 = int ?n" "6 * ?n \<le> 18"
    by (simp_all add: byte_kind(1))
  have u: "length (units_of r) \<le> (if UTF8_SEQ_LENGTH b = 4 then 2 else 1)"
    using g(6) units_of_length(1,2) [of r] units_of_length(3) n(2) by (auto simp: k_def split: if_splits)
  have "unit_count (b # s) e = (if UTF8_SEQ_LENGTH b = 4 then 2 else 1) + unit_count s' (int ?n - int (length ext))"
    using False assms(2) unit_count_ext [OF g(3), of "int ?n" s'] g(5) unfolding g(2)
    by (simp only: unit_count.simps n(1) if_False of_nat_le_iff)
  then show ?thesis
    using get_lead [OF False assms(2), of s] g(1,2,4,6) u
    by (intro exI [of _ r] exI [of _ s'] exI [of _ "int ?n - int (length ext)"]) auto
qed

lemma strcpy_count:
  assumes "0 \<in> set s" "e \<le> 0 \<or> \<not> is_ext (hd s)"
  shows "\<exists>us. length us \<le> unit_count s e \<and> (\<forall>cap \<ge> length us. strcpy8to16 cap s = Some us)"
  using assms
proof (induction "length s" arbitrary: s e rule: less_induct)
  case less
  obtain b t where s: "s = b # t"
    using less.prems(1) by (cases s) auto
  show ?case
  proof (cases "b = 0")
    case True
    then show ?thesis
      by (intro exI [of _ "[]"]) (simp add: s strcpy_zero)
  next
    case False
    have "e \<le> 0 \<or> \<not> is_ext b"
      using less.prems(2) s by simp
    from decode_step [OF less.prems(1) [unfolded s] False this] obtain r s' e' where
      d: "getUtf32FromUtf8 (b # t) = Some (r, s')" "0 \<in> set s'" "length s' < length s"
      "e' \<le> 0 \<or> \<not> is_ext (hd s')" "length (units_of r) + unit_count s' e' \<le> unit_count s e"
      unfolding s by blast
    from less.hyps [OF d(3,2,4)] obtain us where
      us: "length us \<le> unit_count s' e'" "\<And>cap. cap \<ge> length us \<Longrightarrow> strcpy8to16 cap s' = Some us"
      by blast
    then show ?thesis
      using d(5) strcpy_step [OF False d(1)] by (intro exI [of _ "units_of r @ us"]) (simp add: s)
  qed
qed

text \<open>
  C26: On every zero-terminated string of at most \<open>2\<^sup>3\<^sup>1\<close> bytes, malformed or not, \<^verbatim>\<open>strdup8to16\<close> ends,
  returns a result when its allocation succeeds, and writes no more units than \<^verbatim>\<open>strlen8to16\<close>
  counted for the buffer.
\<close>

theorem strdup8to16_in_bounds:
  assumes "0 \<in> set s" "c_length s \<le> 2 ^ 31" "0 < av"
  shows "\<exists>len us. strlen8to16 s = Some len \<and> strdup8to16 (Some s) av = Some (Some us) \<and> length us \<le> unat len"
proof -
  let ?n = "unit_count s 0"
  have n: "?n < 2 ^ 62" "unat (of_nat ?n :: u64) = ?n"
    using unit_count_le [of s 0] assms(2) by (simp_all add: unsigned_of_nat take_bit_nat_eq_self)
  have l: "strlen8to16 s = Some (of_nat ?n)"
    using strlen_count [OF assms(1), of 0 0] assms(2) by (simp add: strlen8to16_def)
  obtain us where us: "length us \<le> ?n" "strcpy8to16 ?n s = Some us"
    using strcpy_count [OF assms(1), of 0] by blast
  then have "strdup8to16 (Some s) av = Some (Some us)"
    using assms(3) l n half_max [OF n(1)] by (simp add: strdup8to16_def)
  then show ?thesis
    using l us(1) n(2) by auto
qed

theorem strdup8to16_in_bounds_witness:
  "\<exists>len us. strlen8to16 [0xf1, 0x80, 0x41, 0x80, 0xc3, 0] = Some len \<and>
    strdup8to16 (Some [0xf1, 0x80, 0x41, 0x80, 0xc3, 0]) 1 = Some (Some us) \<and> length us \<le> unat len"
  using strdup8to16_in_bounds [of "[0xf1, 0x80, 0x41, 0x80, 0xc3, 0]" 1] by simp

text \<open>With one more extension byte than that at the start, the counter overflows.\<close>

lemma strlen_ext_overflow:
  assumes "is_ext b" "- (2 ^ 31) \<le> e" "e + 2 ^ 31 < int n"
  shows "strlen_loop (replicate n b @ s) e len = None"
  using assms(2,3)
proof (induction n arbitrary: e len)
  case (Suc n)
  then show ?case using assms(1) ext_nonzero(1) [OF assms(1)] by auto
qed simp

theorem strlen8to16_overflow:
  assumes "is_ext b"
  shows "strlen8to16 (replicate (2 ^ 31 + 1) b @ s) = None"
  using strlen_ext_overflow [OF assms, of 0 "2 ^ 31 + 1"] by (simp add: strlen8to16_def del: replicate_Suc)

section \<open>Text with an explicit length\<close>

lemma units_of_nonempty: "0 < length (units_of r)"
  by (simp add: units_of_def)

lemma getUtf32_loop_used:
  "getUtf32_loop n ret s = Some (r, s') \<Longrightarrow> \<exists>ext. s = ext @ s' \<and> 0 \<notin> set ext \<and> (\<forall>b \<in> set ext. is_ext b)"
proof (induction n ret s rule: getUtf32_loop.induct)
  case (3 n ret b s)
  show ?case
  proof (cases "b = 0 \<or> \<not> is_ext b")
    case False
    then obtain ext where "s = ext @ s'" "0 \<notin> set ext" "\<forall>b \<in> set ext. is_ext b"
      using 3 by auto
    then show ?thesis
      using False by (intro exI [of _ "b # ext"]) auto
  qed (use 3 in auto)
qed auto

lemma getUtf32_used:
  assumes "getUtf32FromUtf8 (b # s) = Some (r, s')" "b \<noteq> 0"
  shows "\<exists>ext. s = ext @ s' \<and> 0 \<notin> set ext \<and> (\<forall>b \<in> set ext. is_ext b)"
proof (cases "is_ext b")
  case True
  then show ?thesis
    using assms(1) by (auto simp: get_ext)
next
  case False
  then show ?thesis
    using assms getUtf32_loop_used get_lead by metis
qed

text \<open>
  C37: When the text given to \<^verbatim>\<open>strcpylen8to16\<close> contains a zero byte in front of its end, the function does not
  return: it stays at that byte and writes zero units until it leaves the target, whatever its
  size.
\<close>

theorem strcpylen8to16_zero_byte:
  assumes "0 < n" "0 \<in> set (take (nat n) s)"
  shows "strcpylen8to16 cap s n = None"
  using assms
proof (induction cap arbitrary: s n rule: less_induct)
  case (less cap)
  obtain b t where s: "s = b # t"
    using less.prems(2) by (cases s) auto
  have "strcpylen8to16 (cap - length (units_of r)) s' (n - (int (length s) - int (length s'))) = None"
    if g: "getUtf32FromUtf8 s = Some (r, s')" and c: "length (units_of r) \<le> cap" for r s'
  proof (rule less.IH)
    show "cap - length (units_of r) < cap"
      using c units_of_nonempty [of r] by linarith
    have "0 < n - (int (length s) - int (length s')) \<and> 0 \<in> set (take (nat (n - (int (length s) - int (length s')))) s')"
    proof (cases "b = 0")
      case True
      then show ?thesis
        using g less.prems by (auto simp: s get_zero)
    next
      case False
      obtain ext where e: "t = ext @ s'" "0 \<notin> set ext"
        using getUtf32_used [OF g [unfolded s] False] by blast
      then have z: "0 \<in> set (take (nat n - Suc (length ext)) s')"
        using less.prems(2) False by (auto simp: s take_Cons' split: if_splits dest: in_set_takeD)
      then have "0 < n - (int (length s) - int (length s'))"
        by (cases "nat n - Suc (length ext)") (auto simp: s e)
      moreover have "nat (n - (int (length s) - int (length s'))) = nat n - Suc (length ext)"
        by (simp add: s e nat_diff_distrib')
      ultimately show ?thesis
        using z by simp
    qed
    then show "0 < n - (int (length s) - int (length s'))"
      "0 \<in> set (take (nat (n - (int (length s) - int (length s')))) s')"
      by blast+
  qed
  then show ?case
    using less.prems(1) by (subst strcpylen8to16.simps) (cases "getUtf32FromUtf8 s"; auto)
qed

theorem strcpylen8to16_zero_byte_witness: "strcpylen8to16 1000 [0x41, 0, 0x42, 0] 3 = None"
  using strcpylen8to16_zero_byte [of 3 "[0x41, 0, 0x42, 0]" 1000] by (simp add: numeral_3_eq_3)

text \<open>Without memory the unchecked allocation is written to.\<close>

lemma strdup8to16_unchecked:
  assumes "b \<noteq> 0" "strlen8to16 (b # s) = Some len" "\<not> (len \<noteq> 0 \<and> (- 1) div len < 2)"
  shows "strdup8to16 (Some (b # s)) 0 = None"
proof -
  have "strcpy8to16 0 (b # s) = None"
    using assms(1) units_of_nonempty by (subst strcpy8to16.simps) (cases "getUtf32FromUtf8 (b # s)"; auto)
  then show ?thesis
    using assms(2,3) by (simp add: strdup8to16_def)
qed

end
