(* ===== verification/Unicode.thy ===== *)
theory Unicode
  imports Jstring
begin

text \<open>
  The conversions of libutils between UTF-8, UTF-16 and UTF-32 (\<^verbatim>\<open>Unicode.cpp\<close>).

  A source pointer is the list of the characters in memory from it on, with the number of those
  that belong to the text where the code has one: a read behind the memory is \<^term>\<open>None\<close>, as is a
  failed check \<^verbatim>\<open>LOG_ALWAYS_FATAL_IF\<close>.  The result of a conversion is the list of the characters
  written.  A null source is treated like an empty one.  Whether \<^verbatim>\<open>char\<close> is signed depends on the
  platform; it is the argument \<open>sg\<close> of the functions where it matters.
\<close>

section \<open>Code points\<close>

definition kByteMask :: u32 where "kByteMask = 0xBF"
definition kByteMark :: u32 where "kByteMark = 0x80"
definition kUnicodeSurrogateStart :: u32 where "kUnicodeSurrogateStart = 0xD800"
definition kUnicodeSurrogateEnd :: u32 where "kUnicodeSurrogateEnd = 0xDFFF"
definition kUnicodeMaxCodepoint :: u32 where "kUnicodeMaxCodepoint = 0x10FFFF"
definition kFirstByteMark :: "u32 list" where "kFirstByteMark = [0, 0, 0xC0, 0xE0, 0xF0]"

definition utf32_codepoint_utf8_length :: "u32 \<Rightarrow> nat" where
  "utf32_codepoint_utf8_length srcChar = (
     if srcChar < 0x80 then 1
     else if srcChar < 0x800 then 2
     else if srcChar < 0x10000 then
       (if srcChar < kUnicodeSurrogateStart \<or> srcChar > kUnicodeSurrogateEnd then 3 else 0)
     else if srcChar \<le> kUnicodeMaxCodepoint then 4
     else 0)"

text \<open>The cases of the switch that fall through: so many trailing bytes, from the last one backwards.\<close>

fun put_trail :: "nat \<Rightarrow> u32 \<Rightarrow> byte list \<Rightarrow> u32 \<times> byte list" where
  "put_trail 0 srcChar out = (srcChar, out)"
| "put_trail (Suc n) srcChar out =
     put_trail n (drop_bit 6 srcChar) (ucast ((srcChar OR kByteMark) AND kByteMask) # out)"

definition utf32_codepoint_to_utf8 :: "u32 \<Rightarrow> nat \<Rightarrow> byte list" where
  "utf32_codepoint_to_utf8 srcChar bytes = (if bytes = 0 \<or> bytes > 4 then []
     else case put_trail (bytes - 1) srcChar [] of (c, out) \<Rightarrow> ucast (c OR kFirstByteMark ! bytes) # out)"

section \<open>UTF-32\<close>

fun strlen32 :: "u32 list \<Rightarrow> nat option" where
  "strlen32 [] = None"
| "strlen32 (c # s) = (if c = 0 then Some 0 else map_option Suc (strlen32 s))"

fun strnlen32 :: "u32 list \<Rightarrow> nat \<Rightarrow> nat option" where
  "strnlen32 s 0 = Some 0"
| "strnlen32 [] (Suc maxlen) = None"
| "strnlen32 (c # s) (Suc maxlen) = (if c = 0 then Some 0 else map_option Suc (strnlen32 s maxlen))"

definition char_val :: "bool \<Rightarrow> byte \<Rightarrow> u32" where
  "char_val sg b = (if sg then scast b else ucast b)"

text \<open>The loop: the number of bytes, the mask, the bits to ignore, the value, and the bytes at the pointer.\<close>

fun at_loop :: "bool \<Rightarrow> u32 \<Rightarrow> nat \<Rightarrow> u32 \<Rightarrow> u32 \<Rightarrow> u32 \<Rightarrow> byte list \<Rightarrow> (nat \<times> u32 \<times> u32 \<times> u32) option" where
  "at_loop sg first num_to_read msk to_ignore_mask utf32 [] =
     (if first AND msk = 0 then Some (num_to_read, msk, to_ignore_mask, utf32) else None)"
| "at_loop sg first num_to_read msk to_ignore_mask utf32 (c # cur) =
     (if first AND msk = 0 then Some (num_to_read, msk, to_ignore_mask, utf32)
      else at_loop sg first (num_to_read + 1) (drop_bit 1 msk) (to_ignore_mask OR msk)
        (push_bit 6 utf32 + (char_val sg c AND 0x3F)) cur)"

text \<open>For the bytes \<open>0xFE\<close> and \<open>0xFF\<close> the shift is by more bits than the word has, which is undefined.\<close>

fun utf32_at_internal :: "bool \<Rightarrow> byte list \<Rightarrow> (u32 \<times> nat) option" where
  "utf32_at_internal sg [] = None"
| "utf32_at_internal sg (c # cur) = (let first_char = char_val sg c in
     if first_char AND 0x80 = 0 then Some (first_char, 1)
     else do {
       (num_to_read, msk, to_ignore_mask, utf32) \<leftarrow> at_loop sg first_char 1 0x40 0xFFFFFF80 first_char cur;
       let to_ignore_mask = to_ignore_mask OR msk;
       if 6 * (num_to_read - 1) \<ge> 32 then None
       else Some (utf32 AND NOT (push_bit (6 * (num_to_read - 1)) to_ignore_mask), num_to_read) })"

text \<open>The second result is the new index, when one is stored.\<close>

definition utf32_from_utf8_at :: "bool \<Rightarrow> byte list \<Rightarrow> nat \<Rightarrow> nat \<Rightarrow> (int \<times> nat option) option" where
  "utf32_from_utf8_at sg src src_len index = (if index \<ge> src_len then Some (- 1, None)
     else do {
       (ret, num_read) \<leftarrow> utf32_at_internal sg (drop index src);
       Some (sint ret, if sint ret \<ge> 0 then Some (index + num_read) else None) })"

definition utf32_to_utf8_length :: "u32 list \<Rightarrow> int" where
  "utf32_to_utf8_length src = (if src = [] then - 1
     else int (sum_list (map utf32_codepoint_utf8_length src)))"

fun utf32_to_utf8_loop :: "u32 list \<Rightarrow> nat \<Rightarrow> byte list option" where
  "utf32_to_utf8_loop [] dst_len = (if dst_len < 1 then None else Some [0])"
| "utf32_to_utf8_loop (c # cs) dst_len = (let len = utf32_codepoint_utf8_length c in
     if dst_len < len then None
     else do {
       bs \<leftarrow> utf32_to_utf8_loop cs (dst_len - len);
       Some (utf32_codepoint_to_utf8 c len @ bs) })"

definition utf32_to_utf8 :: "u32 list \<Rightarrow> nat \<Rightarrow> byte list option" where
  "utf32_to_utf8 src dst_len = (if src = [] then Some [] else utf32_to_utf8_loop src dst_len)"

section \<open>UTF-16\<close>

fun strcmp16 :: "u16 list \<Rightarrow> u16 list \<Rightarrow> int option" where
  "strcmp16 (ch # s1) (c2 # s2) = (let d = uint ch - uint c2 in
     if d \<noteq> 0 \<or> ch = 0 then Some d else strcmp16 s1 s2)"
| "strcmp16 _ _ = None"

fun strncmp16 :: "u16 list \<Rightarrow> u16 list \<Rightarrow> nat \<Rightarrow> int option" where
  "strncmp16 s1 s2 0 = Some 0"
| "strncmp16 (ch # s1) (c2 # s2) (Suc n) = (let d = uint ch - uint c2 in
     if d \<noteq> 0 \<or> ch = 0 then Some d else strncmp16 s1 s2 n)"
| "strncmp16 _ _ (Suc n) = None"

fun strcpy16 :: "u16 list \<Rightarrow> u16 list option" where
  "strcpy16 [] = None"
| "strcpy16 (ch # p) = (if ch = 0 then Some [ch] else map_option ((#) ch) (strcpy16 p))"

fun strlen16 :: "u16 list \<Rightarrow> nat option" where
  "strlen16 [] = None"
| "strlen16 (c # s) = (if c = 0 then Some 0 else map_option Suc (strlen16 s))"

text \<open>The unit just copied is kept in a \<^verbatim>\<open>char\<close>, which is tested for zero.\<close>

fun strncpy16 :: "u16 list \<Rightarrow> nat \<Rightarrow> u16 list option" where
  "strncpy16 p 0 = Some [0]"
| "strncpy16 [] (Suc n) = None"
| "strncpy16 (c # p) (Suc n) = (let ch = ucast c :: byte in
     if ch = 0 then Some [c, 0] else map_option ((#) c) (strncpy16 p n))"

fun strnlen16 :: "u16 list \<Rightarrow> nat \<Rightarrow> nat option" where
  "strnlen16 s 0 = Some 0"
| "strnlen16 [] (Suc maxlen) = None"
| "strnlen16 (c # s) (Suc maxlen) = (if c = 0 then Some 0 else map_option Suc (strnlen16 s maxlen))"

fun strzcmp16 :: "u16 list \<Rightarrow> nat \<Rightarrow> u16 list \<Rightarrow> nat \<Rightarrow> int option" where
  "strzcmp16 (c1 # s1) (Suc n1) (c2 # s2) (Suc n2) = (let d = uint c1 - uint c2 in
     if d \<noteq> 0 then Some d else strzcmp16 s1 n1 s2 n2)"
| "strzcmp16 s1 0 (c2 # s2) (Suc n2) = Some (0 - uint c2)"
| "strzcmp16 (c1 # s1) (Suc n1) s2 0 = Some (uint c1 - 0)"
| "strzcmp16 s1 0 s2 0 = Some 0"
| "strzcmp16 _ _ _ _ = None"

definition ntohs :: "u16 \<Rightarrow> u16" where
  "ntohs c = (push_bit 8 c AND 0xff00) OR (drop_bit 8 c AND 255)"

definition strzcmp16_h_n :: "u16 list \<Rightarrow> nat \<Rightarrow> u16 list \<Rightarrow> nat \<Rightarrow> int option" where
  "strzcmp16_h_n s1H n1 s2N n2 = strzcmp16 s1H n1 (map ntohs s2N) n2"

text \<open>One character and the rest: a pair of surrogates, or any single unit.\<close>

fun utf16_next :: "u16 list \<Rightarrow> u32 \<times> u16 list" where
  "utf16_next (a # b # s) = (if a AND 0xFC00 = 0xD800 \<and> b AND 0xFC00 = 0xDC00
     then ((push_bit 10 (ucast a - 0xD800) OR (ucast b - 0xDC00)) + 0x10000, s)
     else (ucast a, b # s))"
| "utf16_next [a] = (ucast a, [])"
| "utf16_next [] = (0, [])"

lemma utf16_next_less: "s \<noteq> [] \<Longrightarrow> length (snd (utf16_next s)) < length s"
  by (cases s rule: utf16_next.cases) auto

function utf16_to_utf8_loop :: "u16 list \<Rightarrow> nat \<Rightarrow> byte list option" where
  "utf16_to_utf8_loop src dst_len = (if src = [] then if dst_len < 1 then None else Some [0]
     else let (utf32, rest) = utf16_next src; len = utf32_codepoint_utf8_length utf32 in
       if dst_len < len then None
       else do {
         bs \<leftarrow> utf16_to_utf8_loop rest (dst_len - len);
         Some (utf32_codepoint_to_utf8 utf32 len @ bs) })"
  by pat_completeness auto

termination
proof (relation "measure (\<lambda>(s, n). length s)", goal_cases)
  case (2 src dst_len x utf32 rest len)
  then show ?case
    using utf16_next_less [of src] by (cases "utf16_next src") auto
qed simp

declare utf16_to_utf8_loop.simps [simp del]

definition utf16_to_utf8 :: "u16 list \<Rightarrow> nat \<Rightarrow> byte list option" where
  "utf16_to_utf8 src dst_len = (if src = [] then Some [] else utf16_to_utf8_loop src dst_len)"

fun utf16_len_loop :: "u16 list \<Rightarrow> nat" where
  "utf16_len_loop (a # b # s) = (if a AND 0xFC00 = 0xD800 \<and> b AND 0xFC00 = 0xDC00
     then 4 + utf16_len_loop s
     else utf32_codepoint_utf8_length (ucast a) + utf16_len_loop (b # s))"
| "utf16_len_loop [a] = utf32_codepoint_utf8_length (ucast a)"
| "utf16_len_loop [] = 0"

definition utf16_to_utf8_length :: "u16 list \<Rightarrow> int" where
  "utf16_to_utf8_length src = (if src = [] then - 1 else int (utf16_len_loop src))"

section \<open>UTF-8\<close>

text \<open>The loop over the trailing bytes; \<open>Some None\<close> is the result \<open>-1\<close> for a byte that is not one.\<close>

fun utf8_len_loop ::
  "bool \<Rightarrow> u32 \<Rightarrow> nat \<Rightarrow> u32 \<Rightarrow> u32 \<Rightarrow> u32 \<Rightarrow> byte list \<Rightarrow> (nat \<times> u32 \<times> u32 \<times> u32 \<times> byte list) option option" where
  "utf8_len_loop sg first num_to_read msk to_ignore_mask utf32 [] =
     (if num_to_read < 5 \<and> first AND msk \<noteq> 0 then None
      else Some (Some (num_to_read, msk, to_ignore_mask, utf32, [])))"
| "utf8_len_loop sg first num_to_read msk to_ignore_mask utf32 (c # cur) =
     (if num_to_read < 5 \<and> first AND msk \<noteq> 0 then
        if char_val sg c AND 0xC0 \<noteq> 0x80 then Some None
        else utf8_len_loop sg first (num_to_read + 1) (drop_bit 1 msk) (to_ignore_mask OR msk)
          (push_bit 6 utf32 + (char_val sg c AND 0x3F)) cur
      else Some (Some (num_to_read, msk, to_ignore_mask, utf32, c # cur)))"

partial_function (option) utf8_length_loop :: "bool \<Rightarrow> byte list \<Rightarrow> nat \<Rightarrow> int option" where
  "utf8_length_loop sg s ret = (case s of [] \<Rightarrow> None
     | c # cur \<Rightarrow> let first_char = char_val sg c in
         if c = 0 then Some (int ret)
         else if first_char AND 0x80 = 0 then utf8_length_loop sg cur (ret + 1)
         else if first_char AND 0x40 = 0 then Some (- 1)
         else do {
           r \<leftarrow> utf8_len_loop sg first_char 1 0x40 0x80 0 cur;
           (case r of None \<Rightarrow> Some (- 1)
            | Some (num_to_read, msk, to_ignore_mask, utf32, cur) \<Rightarrow>
                if num_to_read = 5 then Some (- 1)
                else let to_ignore_mask = to_ignore_mask OR msk;
                  utf32 = utf32 OR push_bit (6 * (num_to_read - 1)) (NOT to_ignore_mask AND first_char) in
                  if utf32 > kUnicodeMaxCodepoint then Some (- 1)
                  else utf8_length_loop sg cur (ret + num_to_read)) })"

declare utf8_length_loop.simps [code]

definition utf8_length :: "bool \<Rightarrow> byte list \<Rightarrow> int option" where
  "utf8_length sg src = utf8_length_loop sg src 0"

definition utf8_codepoint_len :: "byte \<Rightarrow> nat" where
  "utf8_codepoint_len ch = unat (drop_bit (unat (drop_bit 3 ch AND 0x1e)) (0xe5000000 :: u32) AND 3) + 1"

definition utf8_shift_and_mask :: "u32 \<Rightarrow> byte \<Rightarrow> u32" where
  "utf8_shift_and_mask codePoint b = push_bit 6 codePoint OR (0x3F AND ucast b)"

text \<open>The number of bytes to skip by the leading ones; the mask is the bit below \<open>i\<close>, or zero.\<close>

fun skip_loop :: "byte \<Rightarrow> nat \<Rightarrow> nat \<Rightarrow> nat" where
  "skip_loop first_char 0 num_to_skip = num_to_skip"
| "skip_loop first_char (Suc i) num_to_skip =
     (if bit first_char i then skip_loop first_char i (num_to_skip + 1) else num_to_skip)"

lemma skip_loop_ge: "k \<le> skip_loop c i k"
  by (induction c i k rule: skip_loop.induct) (auto intro: order_trans)

definition num_to_skip :: "byte \<Rightarrow> nat" where
  "num_to_skip c = (if c AND 0x80 = 0 then 1 else skip_loop c 7 1)"

fun utf8_to_utf32_length :: "byte list \<Rightarrow> nat" where
  "utf8_to_utf32_length [] = 0"
| "utf8_to_utf32_length (c # s) = Suc (utf8_to_utf32_length (drop (num_to_skip c - 1) s))"

partial_function (option) utf8_to_utf32_loop :: "bool \<Rightarrow> byte list \<Rightarrow> nat \<Rightarrow> u32 list option" where
  "utf8_to_utf32_loop sg cur n = (if n = 0 then Some [0]
     else do {
       (utf32, num_read) \<leftarrow> utf32_at_internal sg cur;
       us \<leftarrow> utf8_to_utf32_loop sg (drop num_read cur) (n - num_read);
       Some (utf32 # us) })"

declare utf8_to_utf32_loop.simps [code]

definition utf8_to_utf32 :: "bool \<Rightarrow> byte list \<Rightarrow> nat \<Rightarrow> u32 list option" where
  "utf8_to_utf32 sg src src_len = (if src_len = 0 then Some [] else utf8_to_utf32_loop sg src src_len)"

fun utf8_to_utf32_codepoint :: "byte list \<Rightarrow> nat \<Rightarrow> u32 option" where
  "utf8_to_utf32_codepoint (a # s) len = (
     if len = 1 then Some (ucast a)
     else if len = 2 then (case s of b # _ \<Rightarrow> Some (utf8_shift_and_mask (ucast a AND 0x1f) b) | _ \<Rightarrow> None)
     else if len = 3 then (case s of b # c # _ \<Rightarrow>
         Some (utf8_shift_and_mask (utf8_shift_and_mask (ucast a AND 0x0f) b) c) | _ \<Rightarrow> None)
     else if len = 4 then (case s of b # c # d # _ \<Rightarrow>
         Some (utf8_shift_and_mask (utf8_shift_and_mask (utf8_shift_and_mask (ucast a AND 0x07) b) c) d) | _ \<Rightarrow> None)
     else Some 0xffff)"
| "utf8_to_utf32_codepoint [] len = (if len \<in> {1, 2, 3, 4} then None else Some 0xffff)"

declare utf8_to_utf32_codepoint.simps [simp del]

lemma utf8_codepoint_len_ge: "1 \<le> utf8_codepoint_len c"
  by (simp add: utf8_codepoint_len_def)

text \<open>The bytes from the pointer on, and the number of them to the end, negative behind it.\<close>

function utf8_to_utf16_length_loop :: "byte list \<Rightarrow> int \<Rightarrow> nat \<Rightarrow> int option" where
  "utf8_to_utf16_length_loop cur n u16measuredLen = (
     if 0 < n then (case cur of [] \<Rightarrow> None
       | c # _ \<Rightarrow> do {
           let u8charLen = utf8_codepoint_len c;
           codepoint \<leftarrow> utf8_to_utf32_codepoint cur u8charLen;
           utf8_to_utf16_length_loop (drop u8charLen cur) (n - int u8charLen)
             (if codepoint > 0xFFFF then u16measuredLen + 2 else u16measuredLen + 1) })
     else if n \<noteq> 0 then Some (- 1)
     else Some (int u16measuredLen))"
  by pat_completeness auto

termination
proof (relation "measure (\<lambda>(cur, n, m). nat n)", goal_cases)
  case (2 cur n m c s l cp)
  then show ?case
    using utf8_codepoint_len_ge [of c] by auto
qed simp

declare utf8_to_utf16_length_loop.simps [simp del]

definition utf8_to_utf16_length :: "byte list \<Rightarrow> nat \<Rightarrow> int option" where
  "utf8_to_utf16_length u8str u8len = utf8_to_utf16_length_loop u8str (int u8len) 0"

text \<open>The units of a code point.\<close>

definition utf16_units :: "u32 \<Rightarrow> u16 list" where
  "utf16_units codepoint = (if codepoint \<le> 0xFFFF then [ucast codepoint]
     else let codepoint = codepoint - 0x10000 in
       [ucast (drop_bit 10 codepoint + 0xD800), ucast ((codepoint AND 0x3FF) + 0xDC00)])"

function utf8_to_utf16_no_null_terminator :: "byte list \<Rightarrow> nat \<Rightarrow> u16 list option" where
  "utf8_to_utf16_no_null_terminator cur n = (if n = 0 then Some []
     else (case cur of [] \<Rightarrow> None
       | c # _ \<Rightarrow> do {
           let u8len = utf8_codepoint_len c;
           codepoint \<leftarrow> utf8_to_utf32_codepoint cur u8len;
           us \<leftarrow> utf8_to_utf16_no_null_terminator (drop u8len cur) (n - u8len);
           Some (utf16_units codepoint @ us) }))"
  by pat_completeness auto

termination
proof (relation "measure (\<lambda>(cur, n). n)", goal_cases)
  case (2 cur n c s l cp)
  then show ?case
    using utf8_codepoint_len_ge [of c] by auto
qed simp

declare utf8_to_utf16_no_null_terminator.simps [simp del]

definition utf8_to_utf16 :: "byte list \<Rightarrow> nat \<Rightarrow> u16 list option" where
  "utf8_to_utf16 u8str u8len = do { us \<leftarrow> utf8_to_utf16_no_null_terminator u8str u8len; Some (us @ [0]) }"

text \<open>
  The first result is what was written, the second how many of these units the returned pointer is
  behind the start: the first half of a pair that does not fit is written and not counted.
\<close>

function utf8_to_utf16_n :: "byte list \<Rightarrow> nat \<Rightarrow> nat \<Rightarrow> (u16 list \<times> nat) option" where
  "utf8_to_utf16_n cur n dstLen = (if n = 0 \<or> dstLen = 0 then Some ([], 0)
     else (case cur of [] \<Rightarrow> None
       | c # _ \<Rightarrow> do {
           let u8len = utf8_codepoint_len c;
           codepoint \<leftarrow> utf8_to_utf32_codepoint cur u8len;
           let units = utf16_units codepoint;
           if length units > dstLen then Some (take dstLen units, 0)
           else do {
             (us, k) \<leftarrow> utf8_to_utf16_n (drop u8len cur) (n - u8len) (dstLen - length units);
             Some (units @ us, length units + k) } }))"
  by pat_completeness auto

termination
proof (relation "measure (\<lambda>(cur, n, d). n)", goal_cases)
  case (2 cur n d c s l cp us)
  then show ?case
    using utf8_codepoint_len_ge [of c] by auto
qed simp

declare utf8_to_utf16_n.simps [simp del]

end
