(* ===== verification/Unicode_Conv.thy ===== *)
theory Unicode_Conv
  imports Unicode
begin

text \<open>
  The conversions of \<^verbatim>\<open>Unicode\<close> are inverse to each other on valid text, stay inside the targets their length
  functions announce, and what the validating functions accept.
\<close>

section \<open>The encoding of a code point\<close>

definition valid_codepoint :: "u32 \<Rightarrow> bool" where
  "valid_codepoint c \<longleftrightarrow> c \<le> kUnicodeMaxCodepoint \<and> \<not> (kUnicodeSurrogateStart \<le> c \<and> c \<le> kUnicodeSurrogateEnd)"

definition utf8_enc :: "u32 \<Rightarrow> byte list" where
  "utf8_enc c = utf32_codepoint_to_utf8 c (utf32_codepoint_utf8_length c)"

lemmas unicode_consts = kByteMask_def kByteMark_def kUnicodeSurrogateStart_def kUnicodeSurrogateEnd_def
  kUnicodeMaxCodepoint_def kFirstByteMark_def

definition trail :: "u32 \<Rightarrow> byte" where
  "trail c = ucast ((c OR 0x80) AND 0xBF)"

lemma put_trails:
  "put_trail 1 c out = (drop_bit 6 c, trail c # out)"
  "put_trail 2 c out = (drop_bit 12 c, trail (drop_bit 6 c) # trail c # out)"
  "put_trail 3 c out = (drop_bit 18 c, trail (drop_bit 12 c) # trail (drop_bit 6 c) # trail c # out)"
  by (simp_all add: numeral_2_eq_2 numeral_3_eq_3 trail_def kByteMark_def kByteMask_def)

lemma to_utf8_bytes:
  "utf32_codepoint_to_utf8 c 1 = [ucast c]"
  "utf32_codepoint_to_utf8 c 2 = [ucast (drop_bit 6 c OR 0xC0), trail c]"
  "utf32_codepoint_to_utf8 c 3 = [ucast (drop_bit 12 c OR 0xE0), trail (drop_bit 6 c), trail c]"
  "utf32_codepoint_to_utf8 c 4 =
    [ucast (drop_bit 18 c OR 0xF0), trail (drop_bit 12 c), trail (drop_bit 6 c), trail c]"
  by (simp_all add: utf32_codepoint_to_utf8_def put_trails put_trails(1) [simplified] kFirstByteMark_def)

lemma utf8_length_cases:
  assumes "valid_codepoint c"
  obtains "c < 2 ^ 7" "utf32_codepoint_utf8_length c = 1"
  | "c < 2 ^ 11" "utf32_codepoint_utf8_length c = 2"
  | "c < 2 ^ 16" "utf32_codepoint_utf8_length c = 3"
  | "2 ^ 16 \<le> c" "c < 2 ^ 21" "utf32_codepoint_utf8_length c = 4"
proof -
  consider "c < 2 ^ 7" | "2 ^ 7 \<le> c" "c < 2 ^ 11" | "2 ^ 11 \<le> c" "c < 2 ^ 16" | "2 ^ 16 \<le> c"
    by (meson not_le)
  then show thesis
    using assms that unfolding utf32_codepoint_utf8_length_def valid_codepoint_def unicode_consts
    by cases (auto simp: word_less_nat_alt word_le_nat_alt)
qed

lemma utf8_enc_cases:
  assumes "valid_codepoint c"
  obtains "c < 2 ^ 7" "utf8_enc c = [ucast c]"
  | "c < 2 ^ 11" "utf8_enc c = [ucast (drop_bit 6 c OR 0xC0), trail c]"
  | "c < 2 ^ 16" "utf8_enc c = [ucast (drop_bit 12 c OR 0xE0), trail (drop_bit 6 c), trail c]"
  | "2 ^ 16 \<le> c" "c < 2 ^ 21"
    "utf8_enc c = [ucast (drop_bit 18 c OR 0xF0), trail (drop_bit 12 c), trail (drop_bit 6 c), trail c]"
  using assms
proof (cases rule: utf8_length_cases)
  case 1
  then show thesis
    using that(1) by (simp add: utf8_enc_def to_utf8_bytes(1) [simplified])
next
  case 2
  then show thesis
    using that(2) by (simp add: utf8_enc_def to_utf8_bytes(2))
next
  case 3
  then show thesis
    using that(3) by (simp add: utf8_enc_def to_utf8_bytes(3))
next
  case 4
  then show thesis
    using that(4) by (simp add: utf8_enc_def to_utf8_bytes(4))
qed

lemma small_bits: "c < 2 ^ k \<Longrightarrow> k \<in> {7, 11, 16, 21} \<Longrightarrow> k \<le> n \<Longrightarrow> \<not> bit (c :: u32) n"
proof -
  assume a: "c < 2 ^ k" "k \<in> {7, 11, 16, 21}" "k \<le> n"
  then have "unat c < 2 ^ k"
    by (auto simp: word_less_nat_alt)
  also have "2 ^ k \<le> (2 ^ n :: nat)"
    using a(3) by simp
  finally have "\<not> bit (unat c) n"
    by (simp add: bit_iff_odd)
  then show ?thesis
    by (simp add: bit_unsigned_iff)
qed

lemma bits_below: "c < 2 ^ k \<Longrightarrow> k \<in> {7, 11, 16, 21} \<Longrightarrow> bit (c :: u32) n \<Longrightarrow> n < k"
  using small_bits by (meson not_le)

lemma bit_trail: "bit (trail c) n \<longleftrightarrow> n < 6 \<and> bit c n \<or> n = 7"
proof (cases "n < 8")
  case True
  then have "n \<in> {0, 1, 2, 3, 4, 5, 6, 7}"
    by auto
  then show ?thesis
    by (auto simp: trail_def bit_simps)
qed simp

lemma codepoint_len_lead:
  fixes c :: u32
  shows "c < 2 ^ 7 \<Longrightarrow> utf8_codepoint_len (ucast c) = 1"
  "c < 2 ^ 11 \<Longrightarrow> utf8_codepoint_len (ucast (drop_bit 6 c OR 0xC0)) = 2"
  "c < 2 ^ 16 \<Longrightarrow> utf8_codepoint_len (ucast (drop_bit 12 c OR 0xE0)) = 3"
  "c < 2 ^ 21 \<Longrightarrow> utf8_codepoint_len (ucast (drop_bit 18 c OR 0xF0)) = 4"
proof -
  have len: "utf8_codepoint_len b = UTF8_SEQ_LENGTH b" for b
    by (simp add: utf8_codepoint_len_def UTF8_SEQ_LENGTH_def)
  show "utf8_codepoint_len (ucast c) = 1" if "c < 2 ^ 7"
  proof -
    have "drop_bit 7 (ucast c :: byte) = 0"
      using small_bits [OF that] by (intro byte_bitsI) (auto simp: bit_simps)
    then have "unat (drop_bit 4 (ucast c :: byte)) div 8 = 0"
      by (simp add: drop_bit_eq_div unat_div_distrib word_unat_eq_iff div_mult2_eq [symmetric])
    then have "unat (drop_bit 4 (ucast c :: byte)) < 12"
      by simp
    then show ?thesis
      by (simp add: len seq_length_nibble Let_def)
  qed
  show "utf8_codepoint_len (ucast (drop_bit 6 c OR 0xC0)) = 2" if "c < 2 ^ 11"
  proof -
    have "drop_bit 5 (ucast (drop_bit 6 c OR 0xC0) :: byte) = 6"
      using small_bits [OF that] by (intro byte_bitsI) (auto simp: bit_simps)
    then have "nib (ucast (drop_bit 6 c OR 0xC0)) div 2 = 6"
      using drop_nib(2) [of "ucast (drop_bit 6 c OR 0xC0)"] by simp
    then show ?thesis
      by (simp add: len kinds(2))
  qed
  show "utf8_codepoint_len (ucast (drop_bit 12 c OR 0xE0)) = 3" if "c < 2 ^ 16"
  proof -
    have "drop_bit 4 (ucast (drop_bit 12 c OR 0xE0) :: byte) = 14"
      using small_bits [OF that] by (intro byte_bitsI) (auto simp: bit_simps)
    then show ?thesis
      by (simp add: len seq_length_nibble)
  qed
  show "utf8_codepoint_len (ucast (drop_bit 18 c OR 0xF0)) = 4" if "c < 2 ^ 21"
  proof -
    have "drop_bit 4 (ucast (drop_bit 18 c OR 0xF0) :: byte) = 15"
      using small_bits [OF that] by (intro byte_bitsI) (auto simp: bit_simps)
    then show ?thesis
      by (simp add: len seq_length_nibble)
  qed
qed

lemma shift_trail: "utf8_shift_and_mask x (trail c) = push_bit 6 x OR (c AND mask 6)"
proof (rule bit_word_eqI)
  fix n
  assume "n < LENGTH(32)"
  moreover have "bit (0x3F :: u32) n \<longleftrightarrow> n < 6"
    using bit_mask_iff [of 6 n, where ?'a = u32] calculation by (simp add: mask_eq_exp_minus_1)
  ultimately show "bit (utf8_shift_and_mask x (trail c)) n = bit (push_bit 6 x OR (c AND mask 6)) n"
    by (auto simp: utf8_shift_and_mask_def bit_simps bit_trail)
qed

lemma lead_mask:
  fixes c :: u32
  shows "c < 2 ^ 7 \<Longrightarrow> ucast (ucast c :: byte) = c"
    "c < 2 ^ 11 \<Longrightarrow> ucast (ucast (drop_bit 6 c OR 0xC0) :: byte) AND 0x1f = drop_bit 6 c"
    "c < 2 ^ 16 \<Longrightarrow> ucast (ucast (drop_bit 12 c OR 0xE0) :: byte) AND 0x0f = drop_bit 12 c"
    "c < 2 ^ 21 \<Longrightarrow> ucast (ucast (drop_bit 18 c OR 0xF0) :: byte) AND 0x07 = drop_bit 18 c"
proof -
  have m: "0x1f = (mask 5 :: u32)" "0x0f = (mask 4 :: u32)" "0x07 = (mask 3 :: u32)"
    by (simp_all add: mask_eq_exp_minus_1)
  show "ucast (ucast c :: byte) = c" if "c < 2 ^ 7"
    using bits_below [OF that] by (intro bit_word_eqI) (fastforce simp: bit_simps)
  show "ucast (ucast (drop_bit 6 c OR 0xC0) :: byte) AND 0x1f = drop_bit 6 c" if "c < 2 ^ 11"
  proof (rule bit_word_eqI)
    fix n :: nat
    have "n \<in> {0, 1, 2, 3, 4}" if "n < 5"
      using that by auto
    then show "bit ((ucast (ucast (drop_bit 6 c OR 0xC0) :: byte) :: u32) AND 0x1f) n = bit (drop_bit 6 c) n"
      unfolding m using bits_below [OF that, of "6 + n"] by (cases "n < 5") (auto simp: bit_simps)
  qed
  show "ucast (ucast (drop_bit 12 c OR 0xE0) :: byte) AND 0x0f = drop_bit 12 c" if "c < 2 ^ 16"
  proof (rule bit_word_eqI)
    fix n :: nat
    have "n \<in> {0, 1, 2, 3}" if "n < 4"
      using that by auto
    then show "bit ((ucast (ucast (drop_bit 12 c OR 0xE0) :: byte) :: u32) AND 0x0f) n = bit (drop_bit 12 c) n"
      unfolding m using bits_below [OF that, of "12 + n"] by (cases "n < 4") (auto simp: bit_simps)
  qed
  show "ucast (ucast (drop_bit 18 c OR 0xF0) :: byte) AND 0x07 = drop_bit 18 c" if "c < 2 ^ 21"
  proof (rule bit_word_eqI)
    fix n :: nat
    have "n \<in> {0, 1, 2}" if "n < 3"
      using that by auto
    then show "bit ((ucast (ucast (drop_bit 18 c OR 0xF0) :: byte) :: u32) AND 0x07) n = bit (drop_bit 18 c) n"
      unfolding m using bits_below [OF that, of "18 + n"] by (cases "n < 3") (auto simp: bit_simps)
  qed
qed

lemma join_six: "push_bit 6 (drop_bit (n + 6) c) OR (drop_bit n c AND mask 6) = (drop_bit n c :: u32)"
  by (rule bit_word_eqI) (auto simp: bit_simps not_less)

lemmas join_sixes = join_six [of 0] join_six [of 6] join_six [of 12]

lemma decode_codepoint:
  assumes "valid_codepoint c"
  shows "utf8_to_utf32_codepoint (utf8_enc c @ r) (utf8_codepoint_len (hd (utf8_enc c))) = Some c"
    "utf8_codepoint_len (hd (utf8_enc c)) = length (utf8_enc c)" "utf8_enc c \<noteq> []"
  using assms by (cases rule: utf8_enc_cases;
      simp add: utf8_to_utf32_codepoint.simps codepoint_len_lead lead_mask shift_trail join_sixes [simplified] codepoint_len_lead(1) [simplified])+

section \<open>Surrogates\<close>

lemma and_upper: "a AND 0xFC00 = push_bit 10 (drop_bit 10 a)" "a AND 0xF800 = push_bit 11 (drop_bit 11 (a :: u16))"
proof -
  have n: "0xFC00 = NOT (mask 10 :: u16)" "0xF800 = NOT (mask 11 :: u16)"
    by (simp_all add: mask_eq_exp_minus_1)
  show "a AND 0xFC00 = push_bit 10 (drop_bit 10 a)" "a AND 0xF800 = push_bit 11 (drop_bit 11 a)"
    unfolding n by (rule bit_word_eqI; auto simp: bit_simps)+
qed

lemma unat_upper:
  "unat (a AND 0xFC00) = 1024 * (unat (a :: u16) div 1024)" "unat (a AND 0xF800) = 2048 * (unat a div 2048)"
proof -
  have "unat a < 65536"
    using unsigned_less [of a, where ?'a = nat] by simp
  then have "1024 * (unat a div 1024) < 65536" "2048 * (unat a div 2048) < 65536"
    using le_less_trans [OF times_div_less_eq_dividend] by blast+
  then show "unat (a AND 0xFC00) = 1024 * (unat a div 1024)" "unat (a AND 0xF800) = 2048 * (unat a div 2048)"
    by (simp_all add: and_upper push_bit_eq_mult drop_bit_eq_div unat_word_ariths unat_div_distrib)
qed

lemma upper_word:
  "a AND 0xFC00 = 0xD800 \<longleftrightarrow> unat (a :: u16) div 1024 = 54"
  "a AND 0xFC00 = 0xDC00 \<longleftrightarrow> unat a div 1024 = 55"
  "a AND 0xF800 = 0xD800 \<longleftrightarrow> unat a div 2048 = 27"
  by (simp_all add: word_unat_eq_iff unat_upper)

lemma unit_codepoint:
  assumes "a AND 0xF800 \<noteq> 0xD800"
  shows "valid_codepoint (ucast a)" "utf16_units (ucast a) = [a]"
proof -
  have "unat (ucast a :: u32) = unat a" "unat a < 65536"
    using unsigned_less [of a, where ?'a = nat] by (simp_all add: unsigned_ucast_eq take_bit_nat_eq_self)
  then show "valid_codepoint (ucast a)"
    using assms by (auto simp: valid_codepoint_def unicode_consts word_le_nat_alt upper_word)
  have "ucast a \<le> (0xFFFF :: u32)"
    using \<open>unat (ucast a :: u32) = unat a\<close> \<open>unat a < 65536\<close> by (simp add: word_le_nat_alt)
  moreover have "ucast (ucast a :: u32) = a"
    by (rule bit_word_eqI) (auto simp: bit_simps)
  ultimately show "utf16_units (ucast a) = [a]"
    by (simp add: utf16_units_def)
qed

lemma join_ten:
  assumes "q < 1024"
  shows "push_bit 10 (of_nat r) OR of_nat q = (of_nat (1024 * r + q) :: u32)"
proof -
  have "take_bit 10 q = q"
    using assms by (simp add: take_bit_nat_eq_self)
  then have "push_bit 10 r AND q = 0"
    by (metis bit_and_iff bit_eqI bit_push_bit_iff bit_take_bit_iff bit_0_eq bot_apply bot_bool_def not_less)
  then have "push_bit 10 r OR q = push_bit 10 r + q"
    by (simp add: disjunctive_add_eq_or)
  then have "push_bit 10 r OR q = 1024 * r + q"
    by (simp add: push_bit_eq_mult)
  then show ?thesis
    by (metis of_nat_or_eq push_bit_of_nat)
qed

lemma ucast_of_nat: "ucast (a :: u16) = (of_nat (unat a) :: u32)"
  by (simp add: word_unat_eq_iff unsigned_ucast_eq unsigned_of_nat)

lemma pair_codepoint:
  assumes "a AND 0xFC00 = 0xD800" "b AND 0xFC00 = 0xDC00"
  defines "c \<equiv> (push_bit 10 (ucast a - 0xD800) OR (ucast b - 0xDC00)) + 0x10000 :: u32"
  shows "valid_codepoint c" "utf16_units c = [a, b]" "2 ^ 16 \<le> c"
proof -
  define r q where rq: "r = unat a mod 1024" "q = unat b mod 1024"
  have r: "unat a = 55296 + r" "r < 1024" and q: "unat b = 56320 + q" "q < 1024"
    using assms(1,2) div_mult_mod_eq [of "unat a" 1024] div_mult_mod_eq [of "unat b" 1024] by (simp_all add: upper_word rq)
  have "ucast a - 0xD800 = (of_nat r :: u32)" "ucast b - 0xDC00 = (of_nat q :: u32)"
    using ucast_of_nat [of a] ucast_of_nat [of b] by (simp_all add: r q)
  then have c: "c = of_nat (1024 * r + q) + 0x10000"
    using join_ten [OF q(2)] by (simp only: c_def)
  define v where "v = (of_nat (1024 * r + q) :: u32)"
  have v: "unat v = 1024 * r + q"
    unfolding v_def unsigned_of_nat using r(2) q(2) by (simp add: take_bit_nat_eq_self)
  have "unat c = 1024 * r + q + 65536"
    using r(2) q(2) v unfolding c v_def [symmetric] by (simp add: unat_word_ariths)
  then show "valid_codepoint c" "2 ^ 16 \<le> c"
    using r q by (auto simp: valid_codepoint_def unicode_consts word_le_nat_alt)
  then have "\<not> c \<le> 0xFFFF"
    by (auto simp: word_le_nat_alt)
  moreover have "c - 0x10000 = v"
    by (simp add: c v_def)
  moreover have "ucast (drop_bit 10 v + 0xD800) = a"
    using r q by (simp add: word_unat_eq_iff unsigned_ucast_eq unat_word_ariths drop_bit_eq_div unat_div_distrib v take_bit_nat_eq_self)
  moreover have "ucast ((v AND 0x3FF) + 0xDC00) = b"
  proof -
    have "v AND 0x3FF = take_bit 10 v"
      by (simp add: take_bit_eq_mask mask_eq_exp_minus_1)
    then have "unat (v AND 0x3FF) = q"
      using q(2) by (simp add: take_bit_eq_mod unat_mod_distrib v)
    then show ?thesis
      using q by (simp add: word_unat_eq_iff unsigned_ucast_eq unat_word_ariths take_bit_nat_eq_self)
  qed
  ultimately show "utf16_units c = [a, b]"
    by (simp add: utf16_units_def)
qed

section \<open>From UTF-16 to UTF-8 and back\<close>

text \<open>Text without unpaired surrogates.\<close>

fun well_paired :: "u16 list \<Rightarrow> bool" where
  "well_paired (a # b # s) = (if a AND 0xFC00 = 0xD800 \<and> b AND 0xFC00 = 0xDC00 then well_paired s
     else a AND 0xF800 \<noteq> 0xD800 \<and> well_paired (b # s))"
| "well_paired [a] = (a AND 0xF800 \<noteq> 0xD800)"
| "well_paired [] = True"

lemma length_utf8_enc: "valid_codepoint c \<Longrightarrow> length (utf8_enc c) = utf32_codepoint_utf8_length c"
  by (rule utf8_length_cases) (auto simp: utf8_enc_def to_utf8_bytes to_utf8_bytes(1) [simplified])

lemma utf16_next_run:
  assumes "well_paired s" "s \<noteq> []"
  obtains c r where "utf16_next s = (c, r)" "valid_codepoint c" "s = utf16_units c @ r" "well_paired r"
    "utf16_len_loop s = length (utf8_enc c) + utf16_len_loop r" "length r < length s"
  using assms
proof (cases s rule: utf16_next.cases)
  case (1 a b s')
  show thesis
  proof (cases "a AND 0xFC00 = 0xD800 \<and> b AND 0xFC00 = 0xDC00")
    case True
    define c :: u32 where "c = (push_bit 10 (ucast a - 0xD800) OR (ucast b - 0xDC00)) + 0x10000"
    note c = pair_codepoint [OF conjunct1 [OF True] conjunct2 [OF True], folded c_def]
    have "utf32_codepoint_utf8_length c = 4"
      using c(1,3) by (auto simp: utf32_codepoint_utf8_length_def valid_codepoint_def unicode_consts word_less_nat_alt word_le_nat_alt)
    then show thesis
      using that [of c s'] 1 True assms(1) c by (simp add: length_utf8_enc c_def [symmetric])
  next
    case False
    then have "a AND 0xF800 \<noteq> 0xD800" "well_paired (b # s')"
      using 1 assms(1) by auto
    then show thesis
      using that [of "ucast a" "b # s'"] 1 False unit_codepoint [of a] by (auto simp: length_utf8_enc)
  qed
next
  case (2 a)
  then show thesis
    using that [of "ucast a" "[]"] assms(1) unit_codepoint [of a] by (simp add: length_utf8_enc)
qed simp

text \<open>The code points of a text.\<close>

lemma well_paired_codes:
  assumes "well_paired s"
  obtains cs where "\<forall>c \<in> set cs. valid_codepoint c" "s = concat (map utf16_units cs)"
    "utf16_len_loop s = length (concat (map utf8_enc cs))"
    "\<And>d. length (concat (map utf8_enc cs)) < d \<Longrightarrow> utf16_to_utf8_loop s d = Some (concat (map utf8_enc cs) @ [0])"
  using assms
proof (induction "length s" arbitrary: s thesis rule: less_induct)
  case less
  show ?case
  proof (cases "s = []")
    case True
    then show ?thesis
      using less.prems(1) [of "[]"] by (simp add: utf16_to_utf8_loop.simps)
  next
    case False
    obtain c r where n: "utf16_next s = (c, r)" "valid_codepoint c" "s = utf16_units c @ r" "well_paired r"
      "utf16_len_loop s = length (utf8_enc c) + utf16_len_loop r" "length r < length s"
      using utf16_next_run [OF less.prems(2) False] by blast
    obtain cs where cs: "\<forall>c \<in> set cs. valid_codepoint c" "r = concat (map utf16_units cs)"
      "utf16_len_loop r = length (concat (map utf8_enc cs))"
      "\<And>d. length (concat (map utf8_enc cs)) < d \<Longrightarrow> utf16_to_utf8_loop r d = Some (concat (map utf8_enc cs) @ [0])"
      using less.hyps [OF n(6) _ n(4)] by blast
    have "utf16_to_utf8_loop s d = Some (concat (map utf8_enc (c # cs)) @ [0])"
      if "length (concat (map utf8_enc (c # cs))) < d" for d
      using that cs(4) [of "d - length (utf8_enc c)"] False n(1) length_utf8_enc [OF n(2)]
      by (subst utf16_to_utf8_loop.simps) (simp add: utf8_enc_def)
    then show ?thesis
      using less.prems(1) [of "c # cs"] n cs by simp
  qed
qed

lemma length_utf16_units: "length (utf16_units c) = (if c > 0xFFFF then 2 else 1)"
  by (auto simp: utf16_units_def Let_def)

lemma codepoint_step:
  assumes "valid_codepoint c"
  shows "utf8_to_utf16_no_null_terminator (utf8_enc c @ r) (length (utf8_enc c) + n) =
      do { us \<leftarrow> utf8_to_utf16_no_null_terminator r n; Some (utf16_units c @ us) }"
    "utf8_to_utf16_length_loop (utf8_enc c @ r) (int (length (utf8_enc c)) + int n) m =
      utf8_to_utf16_length_loop r (int n) (m + length (utf16_units c))"
proof -
  obtain b bs where e: "utf8_enc c = b # bs"
    using decode_codepoint(3) [OF assms] by (cases "utf8_enc c") auto
  have d: "utf8_to_utf32_codepoint (b # bs @ r) (utf8_codepoint_len b) = Some c" "utf8_codepoint_len b = Suc (length bs)"
    using decode_codepoint(1) [OF assms, of r] decode_codepoint(2) [OF assms] by (simp_all add: e)
  show "utf8_to_utf16_no_null_terminator (utf8_enc c @ r) (length (utf8_enc c) + n) =
      do { us \<leftarrow> utf8_to_utf16_no_null_terminator r n; Some (utf16_units c @ us) }"
    using d by (subst utf8_to_utf16_no_null_terminator.simps) (simp add: e)
  show "utf8_to_utf16_length_loop (utf8_enc c @ r) (int (length (utf8_enc c)) + int n) m =
      utf8_to_utf16_length_loop r (int n) (m + length (utf16_units c))"
    using d by (subst utf8_to_utf16_length_loop.simps) (simp add: e length_utf16_units)
qed

lemma decode_all:
  assumes "\<forall>c \<in> set cs. valid_codepoint c"
  shows "utf8_to_utf16_no_null_terminator (concat (map utf8_enc cs) @ r) (length (concat (map utf8_enc cs))) =
      Some (concat (map utf16_units cs))"
    "utf8_to_utf16_length_loop (concat (map utf8_enc cs) @ r) (int (length (concat (map utf8_enc cs)))) m =
      Some (int (m + length (concat (map utf16_units cs))))"
proof -
  show "utf8_to_utf16_no_null_terminator (concat (map utf8_enc cs) @ r) (length (concat (map utf8_enc cs))) =
      Some (concat (map utf16_units cs))"
    using assms by (induction cs) (simp_all add: utf8_to_utf16_no_null_terminator.simps [of _ 0] codepoint_step(1))
  show "utf8_to_utf16_length_loop (concat (map utf8_enc cs) @ r) (int (length (concat (map utf8_enc cs)))) m =
      Some (int (m + length (concat (map utf16_units cs))))"
    using assms by (induction cs arbitrary: m) (simp_all add: utf8_to_utf16_length_loop.simps [of _ 0] codepoint_step(2))
qed

text \<open>
  C13: A UTF-16 text without unpaired surrogates survives the conversion to UTF-8 and back.  The length
  functions announce exactly the number of bytes and of units, so a target of this size and one for
  the terminating zero is large enough.
\<close>

theorem utf16_to_utf8_to_utf16:
  assumes "well_paired us" "us \<noteq> []"
  shows "\<exists>bs. utf16_to_utf8_length us = int (length bs) \<and>
    utf16_to_utf8 us (length bs + 1) = Some (bs @ [0]) \<and>
    utf8_to_utf16_length (bs @ [0]) (length bs) = Some (int (length us)) \<and>
    utf8_to_utf16 (bs @ [0]) (length bs) = Some (us @ [0])"
proof -
  obtain cs where cs: "\<forall>c \<in> set cs. valid_codepoint c" "us = concat (map utf16_units cs)"
    "utf16_len_loop us = length (concat (map utf8_enc cs))"
    "\<And>d. length (concat (map utf8_enc cs)) < d \<Longrightarrow> utf16_to_utf8_loop us d = Some (concat (map utf8_enc cs) @ [0])"
    using well_paired_codes [OF assms(1)] by blast
  show ?thesis
    using assms(2) cs(2-4) decode_all [OF cs(1), of "[0]"]
    by (intro exI [of _ "concat (map utf8_enc cs)"])
      (simp add: utf16_to_utf8_length_def utf16_to_utf8_def utf8_to_utf16_length_def utf8_to_utf16_def)
qed

theorem utf16_to_utf8_to_utf16_witness:
  "\<exists>bs. utf16_to_utf8 [0x41, 0xD83D, 0xDE00] (length bs + 1) = Some (bs @ [0]) \<and>
    utf8_to_utf16 (bs @ [0]) (length bs) = Some [0x41, 0xD83D, 0xDE00, 0]"
  using utf16_to_utf8_to_utf16 [of "[0x41, 0xD83D, 0xDE00]"] by auto

lemma utf16_n_prefix:
  assumes "utf8_to_utf16_no_null_terminator mem n = Some us"
  shows "\<exists>ws j. utf8_to_utf16_n mem n dstLen = Some (ws, j) \<and> length ws \<le> dstLen \<and> j \<le> length ws \<and>
    take j ws = take j us \<and> (length us \<le> dstLen \<longrightarrow> ws = us \<and> j = length us)"
  using assms
proof (induction n arbitrary: mem us dstLen rule: less_induct)
  case (less n)
  show ?case
  proof (cases "n = 0 \<or> dstLen = 0")
    case True
    then show ?thesis
      using less.prems by (auto simp: utf8_to_utf16_n.simps [of mem] utf8_to_utf16_no_null_terminator.simps [of mem 0])
  next
    case False
    then obtain c s cp us' where m: "mem = c # s" "utf8_to_utf32_codepoint mem (utf8_codepoint_len c) = Some cp"
      "utf8_to_utf16_no_null_terminator (drop (utf8_codepoint_len c) mem) (n - utf8_codepoint_len c) = Some us'"
      "us = utf16_units cp @ us'"
      using less.prems unfolding utf8_to_utf16_no_null_terminator.simps [of mem n]
      by (auto simp: Let_def split: list.splits bind_splits)
    have "n - utf8_codepoint_len c < n"
      using False utf8_codepoint_len_ge [of c] by simp
    then obtain ws j where w: "utf8_to_utf16_n (drop (utf8_codepoint_len c) mem) (n - utf8_codepoint_len c)
        (dstLen - length (utf16_units cp)) = Some (ws, j)"
      "length ws \<le> dstLen - length (utf16_units cp)" "j \<le> length ws" "take j ws = take j us'"
      "length us' \<le> dstLen - length (utf16_units cp) \<longrightarrow> ws = us' \<and> j = length us'"
      using less.IH [OF _ m(3)] by blast
    have "utf8_to_utf16_n mem n dstLen = Some (if length (utf16_units cp) > dstLen then (take dstLen (utf16_units cp), 0)
        else (utf16_units cp @ ws, length (utf16_units cp) + j))"
      using False m(1,2) w(1) by (subst utf8_to_utf16_n.simps) (simp add: Let_def)
    then show ?thesis
      using w(2-5) by (cases "length (utf16_units cp) > dstLen") (auto simp: m(4))
  qed
qed

lemma utf16_length_run:
  assumes "utf8_to_utf16_length_loop mem (int n) m = Some (int k)"
  shows "\<exists>us. utf8_to_utf16_no_null_terminator mem n = Some us \<and> k = m + length us"
  using assms
proof (induction n arbitrary: mem m rule: less_induct)
  case (less n)
  show ?case
  proof (cases "n = 0")
    case True
    then show ?thesis
      using less.prems by (simp add: utf8_to_utf16_length_loop.simps [of mem 0] utf8_to_utf16_no_null_terminator.simps [of mem 0])
  next
    case False
    then obtain c s cp where m: "mem = c # s" "utf8_to_utf32_codepoint mem (utf8_codepoint_len c) = Some cp"
      "utf8_to_utf16_length_loop (drop (utf8_codepoint_len c) mem) (int n - int (utf8_codepoint_len c))
        (m + length (utf16_units cp)) = Some (int k)"
      using less.prems unfolding utf8_to_utf16_length_loop.simps [of mem "int n"]
      by (cases mem) (auto simp: length_utf16_units Let_def split: bind_splits if_splits)
    have le: "utf8_codepoint_len c \<le> n"
      using m(3) by (rule contrapos_pp) (simp add: utf8_to_utf16_length_loop.simps)
    then have "n - utf8_codepoint_len c < n" "int n - int (utf8_codepoint_len c) = int (n - utf8_codepoint_len c)"
      using utf8_codepoint_len_ge [of c] by simp_all
    then obtain us where "utf8_to_utf16_no_null_terminator (drop (utf8_codepoint_len c) mem) (n - utf8_codepoint_len c) = Some us"
      "k = m + length (utf16_units cp) + length us"
      using less.IH m(3) by metis
    then show ?thesis
      using False m(1,2) by (subst utf8_to_utf16_no_null_terminator.simps) simp
  qed
qed

text \<open>
  C27: On any bytes, well-formed or not, whose length \<^verbatim>\<open>utf8_to_utf16_length\<close> accepts, the conversion to
  UTF-16 writes exactly the announced number of units.  With a limit given it writes at most that
  many, and the units it reports are a prefix of the whole conversion.
\<close>

theorem utf8_to_utf16_in_bounds:
  assumes "utf8_to_utf16_length mem n = Some (int k)"
  shows "\<exists>us. utf8_to_utf16_no_null_terminator mem n = Some us \<and> length us = k \<and>
    (\<forall>dstLen. \<exists>ws j. utf8_to_utf16_n mem n dstLen = Some (ws, j) \<and> length ws \<le> dstLen \<and> j \<le> length ws \<and>
      take j ws = take j us \<and> (k \<le> dstLen \<longrightarrow> ws = us \<and> j = k))"
proof -
  obtain us where "utf8_to_utf16_no_null_terminator mem n = Some us" "k = length us"
    using utf16_length_run [of mem n 0 k] assms by (auto simp: utf8_to_utf16_length_def)
  then show ?thesis
    using utf16_n_prefix by simp
qed

theorem utf8_to_utf16_in_bounds_witness:
  "\<exists>us. utf8_to_utf16_no_null_terminator [0x41, 0xC3, 0xA9] 3 = Some us \<and> length us = 2"
proof -
  have "utf8_to_utf16_length [0x41, 0xC3, 0xA9] 3 = Some (int 2)"
    by code_simp
  then show ?thesis
    using utf8_to_utf16_in_bounds by blast
qed

section \<open>From UTF-32 to UTF-8 and back\<close>

lemma bit_char_val: "n < 8 \<Longrightarrow> bit (char_val sg b) n = bit b n"
  by (cases "n = 7") (auto simp: char_val_def bit_signed_iff bit_unsigned_iff min_def)

lemma char_val_trail: "char_val sg (trail c) AND 0x3F = c AND mask 6"
proof (rule bit_word_eqI)
  fix n
  assume n: "n < LENGTH(32)"
  have "bit (0x3F :: u32) n \<longleftrightarrow> n < 6"
    using bit_mask_iff [of 6 n, where ?'a = u32] n by (simp add: mask_eq_exp_minus_1)
  then show "bit (char_val sg (trail c) AND 0x3F) n = bit (c AND mask 6) n"
    using n by (cases "n < 6") (simp_all add: bit_and_iff bit_mask_iff bit_char_val bit_trail)
qed

lemma and_bits:
  fixes x :: u32
  shows "x AND 0x80 = 0 \<longleftrightarrow> \<not> bit x 7" "x AND 0x40 = 0 \<longleftrightarrow> \<not> bit x 6" "x AND 0x20 = 0 \<longleftrightarrow> \<not> bit x 5"
    "x AND 0x10 = 0 \<longleftrightarrow> \<not> bit x 4" "x AND 8 = 0 \<longleftrightarrow> \<not> bit x 3"
  using and_exp_eq_0_iff_not_bit [of x 7] and_exp_eq_0_iff_not_bit [of x 6] and_exp_eq_0_iff_not_bit [of x 5]
    and_exp_eq_0_iff_not_bit [of x 4] and_exp_eq_0_iff_not_bit [of x 3] by simp_all

lemma lead_bits_set:
  fixes c :: u32
  shows "c < 2 ^ 11 \<Longrightarrow> f = ucast (drop_bit 6 c OR 0xC0) \<Longrightarrow> bit (f :: byte) 7 \<and> bit f 6 \<and> \<not> bit f 5"
    "c < 2 ^ 16 \<Longrightarrow> f = ucast (drop_bit 12 c OR 0xE0) \<Longrightarrow> bit (f :: byte) 7 \<and> bit f 6 \<and> bit f 5 \<and> \<not> bit f 4"
    "c < 2 ^ 21 \<Longrightarrow> f = ucast (drop_bit 18 c OR 0xF0) \<Longrightarrow>
      bit (f :: byte) 7 \<and> bit f 6 \<and> bit f 5 \<and> bit f 4 \<and> \<not> bit f 3"
  using small_bits [of c 11 11] small_bits [of c 16 16] small_bits [of c 21 21] by (simp_all add: bit_simps)

lemma char_val_mask: "j \<le> 8 \<Longrightarrow> char_val sg b AND mask j = ucast b AND mask j"
  by (rule bit_word_eqI) (auto simp: bit_and_iff bit_mask_iff bit_char_val bit_unsigned_iff)

lemma low_masks: "(0x1f :: u32) = mask 5" "(0x0f :: u32) = mask 4" "(0x07 :: u32) = mask 3"
  by (simp_all add: mask_eq_exp_minus_1)

lemma lead_value:
  fixes c :: u32
  shows "c < 2 ^ 11 \<Longrightarrow> char_val sg (ucast (drop_bit 6 c OR 0xC0)) AND mask 5 = drop_bit 6 c"
    "c < 2 ^ 16 \<Longrightarrow> char_val sg (ucast (drop_bit 12 c OR 0xE0)) AND mask 4 = drop_bit 12 c"
    "c < 2 ^ 21 \<Longrightarrow> char_val sg (ucast (drop_bit 18 c OR 0xF0)) AND mask 3 = drop_bit 18 c"
  using lead_mask(2-4) [of c, unfolded low_masks] by (simp_all add: char_val_mask)

lemma join_add: "push_bit 6 x + (y AND mask 6) = push_bit 6 x OR (y AND mask 6 :: u32)"
proof -
  have "push_bit 6 x AND (y AND mask 6) = 0"
    by (rule bit_word_eqI) (auto simp: bit_simps)
  then show ?thesis
    by (rule disjunctive_add_eq_or)
qed

lemma mask_outs:
  "(push_bit 6 x OR (y AND mask 6)) AND NOT (push_bit 6 (NOT (mask j))) = push_bit 6 (x AND mask j) OR (y AND mask 6 :: u32)"
  "(push_bit 6 x OR (y AND mask 6)) AND NOT (push_bit 12 (NOT (mask j))) =
    push_bit 6 (x AND NOT (push_bit 6 (NOT (mask j)))) OR (y AND mask 6 :: u32)"
  "(push_bit 6 x OR (y AND mask 6)) AND NOT (push_bit 18 (NOT (mask j))) =
    push_bit 6 (x AND NOT (push_bit 12 (NOT (mask j)))) OR (y AND mask 6 :: u32)"
  by (rule bit_word_eqI; auto simp: bit_simps)+

lemma at_value:
  fixes c x :: u32
  shows "x AND mask 5 = drop_bit 6 c \<Longrightarrow>
      (push_bit 6 x OR (c AND mask 6)) AND NOT (push_bit 6 (NOT (mask 5))) = c"
    "x AND mask 4 = drop_bit 12 c \<Longrightarrow>
      (push_bit 6 (push_bit 6 x OR (drop_bit 6 c AND mask 6)) OR (c AND mask 6)) AND NOT (push_bit 12 (NOT (mask 4))) = c"
    "x AND mask 3 = drop_bit 18 c \<Longrightarrow>
      (push_bit 6 (push_bit 6 (push_bit 6 x OR (drop_bit 12 c AND mask 6)) OR (drop_bit 6 c AND mask 6)) OR
        (c AND mask 6)) AND NOT (push_bit 18 (NOT (mask 3))) = c"
  using join_sixes by (simp_all only: mask_outs) simp_all

lemma at_loop_stop: "first AND m = 0 \<Longrightarrow> at_loop sg first k m ig u cur = Some (k, m, ig, u)"
  by (cases cur) simp_all

lemma at_internal_run:
  assumes "at_loop sg (char_val sg f) 1 0x40 0xFFFFFF80 (char_val sg f) cur = Some (k, m, ig, u)" "bit f 7" "k < 7"
  shows "utf32_at_internal sg (f # cur) = Some (u AND NOT (push_bit (6 * (k - 1)) (ig OR m)), k)"
  using assms by (simp add: and_bits bit_char_val Let_def)

lemma few_bytes: "Suc (Suc 0) < 7" "Suc (Suc (Suc 0)) < 7" "Suc (Suc (Suc (Suc 0))) < 7"
  by simp_all

lemma ignored:
  "0xFFFFFFC0 OR 0x20 = NOT (mask 5 :: u32)" "0xFFFFFFE0 OR 0x10 = NOT (mask 4 :: u32)"
  "0xFFFFFFF0 OR 8 = NOT (mask 3 :: u32)"
  by (simp_all add: mask_eq_exp_minus_1)

lemma at_enc:
  assumes "valid_codepoint c"
  shows "utf32_at_internal sg (utf8_enc c @ r) = Some (c, length (utf8_enc c))"
  using assms
proof (cases rule: utf8_enc_cases)
  case 1
  have n: "\<not> bit c 7"
    using small_bits [OF 1(1)] by simp
  then have "char_val sg (ucast c) = c"
    using lead_mask(1) [OF 1(1)] scast_ucast_low [of "ucast c"] by (simp add: char_val_def bit_unsigned_iff)
  then show ?thesis
    using n by (simp add: 1 and_bits)
next
  case 2
  let ?x = "char_val sg (ucast (drop_bit 6 c OR 0xC0))"
  note b = lead_bits_set(1) [OF 2(1) refl]
  have "at_loop sg ?x 1 0x40 0xFFFFFF80 ?x (trail c # r) =
      Some (Suc (Suc 0), 0x20, 0xFFFFFFC0, push_bit 6 ?x OR (c AND mask 6))"
    using b by (simp add: and_bits bit_char_val char_val_trail join_add at_loop_stop del: push_bit_or push_bit_and)
  from at_internal_run [OF this conjunct1 [OF b] few_bytes(1), unfolded ignored] show ?thesis
    using at_value(1) [OF lead_value(1) [OF 2(1)]] by (simp only: 2(2)) simp
next
  case 3
  let ?x = "char_val sg (ucast (drop_bit 12 c OR 0xE0))"
  note b = lead_bits_set(2) [OF 3(1) refl]
  have "at_loop sg ?x 1 0x40 0xFFFFFF80 ?x (trail (drop_bit 6 c) # trail c # r) =
      Some (Suc (Suc (Suc 0)), 0x10, 0xFFFFFFE0,
        push_bit 6 (push_bit 6 ?x OR (drop_bit 6 c AND mask 6)) OR (c AND mask 6))"
    using b by (simp add: and_bits bit_char_val char_val_trail join_add at_loop_stop del: push_bit_or push_bit_and)
  from at_internal_run [OF this conjunct1 [OF b] few_bytes(2), unfolded ignored] show ?thesis
    using at_value(2) [OF lead_value(2) [OF 3(1)]] by (simp only: 3(2)) simp
next
  case 4
  let ?x = "char_val sg (ucast (drop_bit 18 c OR 0xF0))"
  note b = lead_bits_set(3) [OF 4(2) refl]
  have "at_loop sg ?x 1 0x40 0xFFFFFF80 ?x (trail (drop_bit 12 c) # trail (drop_bit 6 c) # trail c # r) =
      Some (Suc (Suc (Suc (Suc 0))), 8, 0xFFFFFFF0,
        push_bit 6 (push_bit 6 (push_bit 6 ?x OR (drop_bit 12 c AND mask 6)) OR (drop_bit 6 c AND mask 6)) OR (c AND mask 6))"
    using b by (simp add: and_bits bit_char_val char_val_trail join_add at_loop_stop del: push_bit_or push_bit_and)
  from at_internal_run [OF this conjunct1 [OF b] few_bytes(3), unfolded ignored] show ?thesis
    using at_value(3) [OF lead_value(3) [OF 4(2)]] by (simp only: 4(3)) simp
qed

lemma skip_enc:
  assumes "valid_codepoint c"
  shows "num_to_skip (hd (utf8_enc c)) = length (utf8_enc c)"
proof -
  have b: "x AND 0x80 = 0 \<longleftrightarrow> \<not> bit x 7" for x :: byte
    using and_exp_eq_0_iff_not_bit [of x 7] by simp
  show ?thesis
    using assms
  proof (cases rule: utf8_enc_cases)
    case 1
    then show ?thesis
      using small_bits [OF 1(1)] by (simp add: num_to_skip_def b bit_unsigned_iff)
  next
    case 2
    then show ?thesis
      using lead_bits_set(1) [OF 2(1) refl] by (simp add: num_to_skip_def b eval_nat_numeral)
  next
    case 3
    then show ?thesis
      using lead_bits_set(2) [OF 3(1) refl] by (simp add: num_to_skip_def b eval_nat_numeral)
  next
    case 4
    then show ?thesis
      using lead_bits_set(3) [OF 4(2) refl] by (simp add: num_to_skip_def b eval_nat_numeral)
  qed
qed

lemma utf8_to_utf32_all:
  assumes "\<forall>c \<in> set cs. valid_codepoint c"
  shows "utf8_to_utf32_loop sg (concat (map utf8_enc cs) @ r) (length (concat (map utf8_enc cs))) = Some (cs @ [0])"
    "utf8_to_utf32_length (concat (map utf8_enc cs)) = length cs"
    "length (concat (map utf8_enc cs)) < d \<Longrightarrow> utf32_to_utf8_loop cs d = Some (concat (map utf8_enc cs) @ [0])"
    "sum_list (map utf32_codepoint_utf8_length cs) = length (concat (map utf8_enc cs))"
proof -
  show "utf8_to_utf32_loop sg (concat (map utf8_enc cs) @ r) (length (concat (map utf8_enc cs))) = Some (cs @ [0])"
    using assms
  proof (induction cs)
    case (Cons c cs)
    then show ?case
      using decode_codepoint(3) [of c] by (subst utf8_to_utf32_loop.simps) (simp add: at_enc)
  qed (simp add: utf8_to_utf32_loop.simps)
  show "utf8_to_utf32_length (concat (map utf8_enc cs)) = length cs"
    using assms
  proof (induction cs)
    case (Cons c cs)
    then show ?case
      using decode_codepoint(3) [of c] skip_enc [of c] by (cases "utf8_enc c") simp_all
  qed simp
  show "utf32_to_utf8_loop cs d = Some (concat (map utf8_enc cs) @ [0])" if "length (concat (map utf8_enc cs)) < d"
    using assms that by (induction cs arbitrary: d) (auto simp: Let_def length_utf8_enc simp flip: utf8_enc_def)
  show "sum_list (map utf32_codepoint_utf8_length cs) = length (concat (map utf8_enc cs))"
    using assms by (induction cs) (simp_all add: length_utf8_enc)
qed

text \<open>
  A text of valid code points survives the conversion to UTF-8 and back, whether \<^verbatim>\<open>char\<close> is signed or
  not, and the length functions announce exactly the number of bytes and of code points.
\<close>

theorem utf32_to_utf8_to_utf32:
  assumes "\<forall>c \<in> set cs. valid_codepoint c" "cs \<noteq> []"
  shows "\<exists>bs. utf32_to_utf8_length cs = int (length bs) \<and>
    utf32_to_utf8 cs (length bs + 1) = Some (bs @ [0]) \<and>
    utf8_to_utf32_length bs = length cs \<and>
    utf8_to_utf32 sg (bs @ [0]) (length bs) = Some (cs @ [0])"
proof -
  have "concat (map utf8_enc cs) \<noteq> []"
    using assms decode_codepoint(3) by (cases cs) auto
  then show ?thesis
    using assms(2) utf8_to_utf32_all [OF assms(1)]
    by (intro exI [of _ "concat (map utf8_enc cs)"])
      (simp add: utf32_to_utf8_length_def utf32_to_utf8_def utf8_to_utf32_def)
qed

theorem utf32_to_utf8_to_utf32_witness:
  "\<exists>bs. utf32_to_utf8 [0x41, 0x20AC, 0x1F600] (length bs + 1) = Some (bs @ [0]) \<and>
    utf8_to_utf32 True (bs @ [0]) (length bs) = Some [0x41, 0x20AC, 0x1F600, 0]"
  using utf32_to_utf8_to_utf32 [of "[0x41, 0x20AC, 0x1F600]" True]
  by (auto simp: valid_codepoint_def unicode_consts)

section \<open>Validation\<close>

text \<open>One character of a valid text: its bytes are read, and the value recovered is the code point, if \<^verbatim>\<open>char\<close> is unsigned.\<close>

lemma len_loop_stop: "first AND m = 0 \<Longrightarrow> utf8_len_loop sg first k m ig u cur = Some (Some (k, m, ig, u, cur))"
  by (cases cur) simp_all

lemma char_val_ext: "char_val sg (trail c) AND 0xC0 = 0x80"
proof -
  have "trail c AND 0xC0 = 0x80"
    by (rule byte_bitsI) (auto simp: bit_and_iff bit_trail)
  then have "(ucast (trail c) :: u32) AND ucast (0xC0 :: byte) = ucast (0x80 :: byte)"
    by (metis unsigned_and_eq)
  moreover have "char_val sg (trail c) AND 0xC0 = (char_val sg (trail c) AND mask 8) AND 0xC0"
    by (simp add: and.assoc mask_eq_exp_minus_1)
  moreover have "(ucast (trail c) :: u32) AND mask 8 = ucast (trail c)"
    by (rule bit_word_eqI) (auto simp: bit_simps dest: bit_imp_le_length)
  ultimately show ?thesis
    by (simp add: char_val_mask)
qed

lemma unsigned_low:
  "NOT 0xE0 AND char_val False b = char_val False b AND mask 5"
  "NOT 0xF0 AND char_val False b = char_val False b AND mask 4"
  "NOT 0xF8 AND char_val False b = char_val False b AND mask 3"
proof -
  have x: "char_val False b = ucast b AND mask 8"
    by (rule bit_word_eqI) (auto simp: char_val_def bit_simps dest: bit_imp_le_length)
  have m: "NOT 0xE0 AND mask 8 = (mask 5 :: u32)" "NOT 0xF0 AND mask 8 = (mask 4 :: u32)" "NOT 0xF8 AND mask 8 = (mask 3 :: u32)"
    "mask 8 AND mask 5 = (mask 5 :: u32)" "mask 8 AND mask 4 = (mask 4 :: u32)" "mask 8 AND mask 3 = (mask 3 :: u32)"
    by (simp_all add: mask_eq_exp_minus_1)
  show "NOT 0xE0 AND char_val False b = char_val False b AND mask 5"
    "NOT 0xF0 AND char_val False b = char_val False b AND mask 4"
    "NOT 0xF8 AND char_val False b = char_val False b AND mask 3"
    unfolding x by (simp_all only: and.left_commute [of "NOT _"] and.assoc m)
qed

lemma signed_big:
  assumes "bit b 7" "k \<in> {6, 12, 18}" "ig \<in> {0xE0, 0xF0, 0xF8}"
  shows "kUnicodeMaxCodepoint < u OR push_bit k (NOT ig AND char_val True b)"
proof -
  have "bit (char_val True b) (31 - k)" "\<not> bit ig (31 - k)" "k \<le> 31"
    using assms by (auto simp: char_val_def bit_signed_iff min_def)
  then have "bit (u OR push_bit k (NOT ig AND char_val True b)) 31"
    using assms(2) by (auto simp: bit_simps)
  then have "\<not> (u OR push_bit k (NOT ig AND char_val True b)) < 2 ^ 21"
    using small_bits [of _ 21 31] by auto
  then show ?thesis
    by (simp add: unicode_consts word_less_nat_alt)
qed

lemma utf8_length_lead:
  assumes "bit f 7" "bit f 6" "utf8_len_loop sg (char_val sg f) 1 0x40 0x80 0 cur = Some (Some (n, m, ig, u, cur'))" "n < 5"
  shows "utf8_length_loop sg (f # cur) k =
    (if u OR push_bit (6 * (n - 1)) (NOT (ig OR m) AND char_val sg f) > kUnicodeMaxCodepoint then Some (- 1)
     else utf8_length_loop sg cur' (k + n))"
proof -
  have "f \<noteq> 0"
    using assms(1) by auto
  then show ?thesis
    using assms by (subst utf8_length_loop.simps) (simp add: and_bits bit_char_val Let_def)
qed

lemma utf8_len_loop_enc:
  fixes c :: u32
  shows "c < 2 ^ 11 \<Longrightarrow> utf8_len_loop sg (char_val sg (ucast (drop_bit 6 c OR 0xC0))) 1 0x40 0x80 0 (trail c # r) =
      Some (Some (Suc (Suc 0), 0x20, 0xC0, c AND mask 6, r))"
    "c < 2 ^ 16 \<Longrightarrow> utf8_len_loop sg (char_val sg (ucast (drop_bit 12 c OR 0xE0))) 1 0x40 0x80 0
        (trail (drop_bit 6 c) # trail c # r) =
      Some (Some (Suc (Suc (Suc 0)), 0x10, 0xE0, push_bit 6 (drop_bit 6 c AND mask 6) OR (c AND mask 6), r))"
    "c < 2 ^ 21 \<Longrightarrow> utf8_len_loop sg (char_val sg (ucast (drop_bit 18 c OR 0xF0))) 1 0x40 0x80 0
        (trail (drop_bit 12 c) # trail (drop_bit 6 c) # trail c # r) =
      Some (Some (Suc (Suc (Suc (Suc 0))), 8, 0xF0,
        push_bit 6 (push_bit 6 (drop_bit 12 c AND mask 6) OR (drop_bit 6 c AND mask 6)) OR (c AND mask 6), r))"
  using lead_bits_set [of c]
  by (simp_all add: and_bits bit_char_val char_val_ext char_val_trail join_add len_loop_stop del: push_bit_or push_bit_and)

lemma recombine:
  fixes c :: u32
  shows "(c AND mask 6) OR push_bit 6 (drop_bit 6 c) = c"
    "(push_bit 6 (drop_bit 6 c AND mask 6) OR (c AND mask 6)) OR push_bit 12 (drop_bit 12 c) = c"
    "(push_bit 6 (push_bit 6 (drop_bit 12 c AND mask 6) OR (drop_bit 6 c AND mask 6)) OR (c AND mask 6)) OR
      push_bit 18 (drop_bit 18 c) = c"
proof -
  show "(c AND mask 6) OR push_bit 6 (drop_bit 6 c) = c"
    using join_sixes(1) [of c] by (simp add: or.commute)
  show "(push_bit 6 (drop_bit 6 c AND mask 6) OR (c AND mask 6)) OR push_bit 12 (drop_bit 12 c) = c"
  proof (rule bit_word_eqI)
    fix n
    assume n: "n < LENGTH(32)"
    consider "n < 6" | "6 \<le> n" "n < 12" | "12 \<le> n"
      by linarith
    then show "bit ((push_bit 6 (drop_bit 6 c AND mask 6) OR (c AND mask 6)) OR push_bit 12 (drop_bit 12 c)) n = bit c n"
      using n by cases (auto simp: bit_simps)
  qed
  show "(push_bit 6 (push_bit 6 (drop_bit 12 c AND mask 6) OR (drop_bit 6 c AND mask 6)) OR (c AND mask 6)) OR
      push_bit 18 (drop_bit 18 c) = c"
  proof (rule bit_word_eqI)
    fix n
    assume n: "n < LENGTH(32)"
    consider "n < 6" | "6 \<le> n" "n < 12" | "12 \<le> n" "n < 18" | "18 \<le> n"
      by linarith
    then show "bit ((push_bit 6 (push_bit 6 (drop_bit 12 c AND mask 6) OR (drop_bit 6 c AND mask 6)) OR (c AND mask 6)) OR
      push_bit 18 (drop_bit 18 c)) n = bit c n"
      using n by cases (auto simp: bit_simps)
  qed
qed

lemma utf8_masks: "0xC0 OR 0x20 = (0xE0 :: u32)" "0xE0 OR 0x10 = (0xF0 :: u32)" "0xF0 OR 8 = (0xF8 :: u32)"
  by simp_all

lemma utf8_length_step:
  assumes "valid_codepoint c" "c \<noteq> 0"
  shows "utf8_length_loop False (utf8_enc c @ r) k = utf8_length_loop False r (k + length (utf8_enc c))"
proof -
  have le: "\<not> kUnicodeMaxCodepoint < c"
    using assms(1) by (simp add: valid_codepoint_def not_less)
  show "utf8_length_loop False (utf8_enc c @ r) k = utf8_length_loop False r (k + length (utf8_enc c))"
    using assms(1)
  proof (cases rule: utf8_enc_cases)
    case 1
    then have "ucast c \<noteq> (0 :: byte)" "\<not> bit (ucast c :: byte) 7"
      using assms(2) lead_mask(1) [OF 1(1)] small_bits [OF 1(1)] by (auto simp: bit_unsigned_iff)
    then show ?thesis
      by (simp add: 1(2)) (subst utf8_length_loop.simps, simp add: and_bits bit_char_val)
  next
    case 2
    show ?thesis
      using utf8_length_lead [OF _ _ utf8_len_loop_enc(1) [OF 2(1)], where sg = False and k = k]
        lead_bits_set(1) [OF 2(1) refl] le lead_value(1) [OF 2(1)] recombine(1) [of c]
      by (simp only: utf8_masks unsigned_low 2(2)) simp
  next
    case 3
    show ?thesis
      using utf8_length_lead [OF _ _ utf8_len_loop_enc(2) [OF 3(1)], where sg = False and k = k]
        lead_bits_set(2) [OF 3(1) refl] le lead_value(2) [OF 3(1)] recombine(2) [of c]
      by (simp only: utf8_masks unsigned_low 3(2)) simp
  next
    case 4
    show ?thesis
      using utf8_length_lead [OF _ _ utf8_len_loop_enc(3) [OF 4(2)], where sg = False and k = k]
        lead_bits_set(3) [OF 4(2) refl] le lead_value(3) [OF 4(2)] recombine(3) [of c]
      by (simp only: utf8_masks unsigned_low 4(3)) simp
  qed
qed

lemma utf8_length_signed:
  assumes "valid_codepoint c" "c \<noteq> 0"
  shows "utf8_length_loop True (utf8_enc c @ r) k = (if c < 0x80 then utf8_length_loop True r (k + 1) else Some (- 1))"
  using assms(1)
proof (cases rule: utf8_length_cases)
  case 1
  then have "ucast c \<noteq> (0 :: byte)" "\<not> bit (ucast c :: byte) 7" "utf8_enc c = [ucast c]"
    using assms(2) lead_mask(1) [OF 1(1)] small_bits [OF 1(1)] to_utf8_bytes(1) [of c] by (auto simp: bit_unsigned_iff utf8_enc_def)
  then show ?thesis
    using 1(1) by (simp) (subst utf8_length_loop.simps, simp add: and_bits bit_char_val)
next
  case 2
  then have e: "utf8_enc c = [ucast (drop_bit 6 c OR 0xC0), trail c]" "\<not> c < 0x80"
    using to_utf8_bytes(2) [of c] by (auto simp: utf8_enc_def utf32_codepoint_utf8_length_def split: if_splits)
  note b = lead_bits_set(1) [OF 2(1) refl]
  then show ?thesis
    using utf8_length_lead [OF _ _ utf8_len_loop_enc(1) [OF 2(1)], where sg = True and k = k] e
      signed_big [where b = "ucast (drop_bit 6 c OR 0xC0)" and k = 6 and ig = "0xE0" and u = "c AND mask 6"] by (simp only: utf8_masks) simp
next
  case 3
  then have e: "utf8_enc c = [ucast (drop_bit 12 c OR 0xE0), trail (drop_bit 6 c), trail c]" "\<not> c < 0x80"
    using to_utf8_bytes(3) [of c] by (auto simp: utf8_enc_def utf32_codepoint_utf8_length_def split: if_splits)
  note b = lead_bits_set(2) [OF 3(1) refl]
  then show ?thesis
    using utf8_length_lead [OF _ _ utf8_len_loop_enc(2) [OF 3(1)], where sg = True and k = k] e
      signed_big [where b = "ucast (drop_bit 12 c OR 0xE0)" and k = 12 and ig = "0xF0"
        and u = "push_bit 6 (drop_bit 6 c AND mask 6) OR (c AND mask 6)"] by (simp only: utf8_masks) simp
next
  case 4
  then have e: "utf8_enc c = [ucast (drop_bit 18 c OR 0xF0), trail (drop_bit 12 c), trail (drop_bit 6 c), trail c]"
    "\<not> c < 0x80"
    using to_utf8_bytes(4) [of c] by (auto simp: utf8_enc_def utf32_codepoint_utf8_length_def split: if_splits)
  note b = lead_bits_set(3) [OF 4(2) refl]
  then show ?thesis
    using utf8_length_lead [OF _ _ utf8_len_loop_enc(3) [OF 4(2)], where sg = True and k = k] e
      signed_big [where b = "ucast (drop_bit 18 c OR 0xF0)" and k = 18 and ig = "0xF8"
        and u = "push_bit 6 (push_bit 6 (drop_bit 12 c AND mask 6) OR (drop_bit 6 c AND mask 6)) OR (c AND mask 6)"]
    by (simp only: utf8_masks) simp
qed

text \<open>
  C39: With an unsigned \<^verbatim>\<open>char\<close>, \<^verbatim>\<open>utf8_length\<close> accepts every encoded text and returns its number of bytes; with
  a signed one, as on x86, it refuses every text with a character outside ASCII, because the lead byte
  is extended by ones that are not masked out.
\<close>

theorem utf8_length_by_platform:
  assumes "\<forall>c \<in> set cs. valid_codepoint c \<and> c \<noteq> 0"
  shows "utf8_length False (concat (map utf8_enc cs) @ [0]) = Some (int (length (concat (map utf8_enc cs)))) \<and>
    utf8_length True (concat (map utf8_enc cs) @ [0]) =
      Some (if \<forall>c \<in> set cs. c < 0x80 then int (length cs) else - 1)"
proof
  show "utf8_length False (concat (map utf8_enc cs) @ [0]) = Some (int (length (concat (map utf8_enc cs))))"
  proof -
    have "utf8_length_loop False (concat (map utf8_enc cs) @ [0]) k = Some (int (k + length (concat (map utf8_enc cs))))" for k
      using assms by (induction cs arbitrary: k) (simp_all add: utf8_length_loop.simps [of _ "[0]"] utf8_length_step)
    then show ?thesis
      by (simp add: utf8_length_def)
  qed
  show "utf8_length True (concat (map utf8_enc cs) @ [0]) =
      Some (if \<forall>c \<in> set cs. c < 0x80 then int (length cs) else - 1)"
  proof -
    have "utf8_length_loop True (concat (map utf8_enc cs) @ [0]) k =
        Some (if \<forall>c \<in> set cs. c < 0x80 then int (k + length cs) else - 1)" for k
      using assms by (induction cs arbitrary: k) (auto simp: utf8_length_loop.simps [of _ "[0]"] utf8_length_signed)
    then show ?thesis
      by (simp add: utf8_length_def)
  qed
qed

theorem utf8_length_by_platform_witness:
  "utf8_length False [0x41, 0xC3, 0xA9, 0] = Some 3 \<and> utf8_length True [0x41, 0xC3, 0xA9, 0] = Some (- 1)"
proof -
  have "utf8_enc 0x41 = [0x41]" "utf8_enc 0xE9 = [0xC3, 0xA9]"
    by code_simp+
  then show ?thesis
    using utf8_length_by_platform [of "[0x41, 0xE9]"] by (simp add: valid_codepoint_def unicode_consts)
qed

section \<open>Strings of units\<close>

text \<open>
  \<^verbatim>\<open>strncpy16\<close> stops at the first unit whose low byte is zero, such as U+0100, although more units follow,
  because it keeps the unit it tests in a \<^verbatim>\<open>char\<close>; and it always writes one unit more than it copied.
\<close>

theorem strncpy16_stops:
  assumes "\<forall>u \<in> set us. (ucast u :: byte) \<noteq> 0" "ucast u = (0 :: byte)" "length us < n"
  shows "strncpy16 (us @ u # r) n = Some (us @ [u, 0])"
  using assms
proof (induction us arbitrary: n)
  case Nil
  then show ?case
    by (cases n) simp_all
next
  case (Cons v us)
  then show ?case
    by (cases n) simp_all
qed

theorem strncpy16_stops_witness: "strncpy16 [0x41, 0x100, 0x42, 0] 4 = Some [0x41, 0x100, 0]"
  using strncpy16_stops [of "[0x41]" "0x100" 4 "[0x42, 0]"] by simp

end
