(* ===== verification/Shared_Buffer.thy ===== *)
theory Shared_Buffer
  imports Prelude
begin

text \<open>
  The storage of the containers of libutils: \<^verbatim>\<open>SharedBuffer.cpp\<close>, reference-counted blocks
  of memory that several vectors may share, and the loops of \<^verbatim>\<open>TypeHelpers.h\<close> that
  construct, copy, move and destroy items in them.

  A block is seen as the array of items of the vector that owns it: \<^verbatim>\<open>slots\<close> has one entry
  per item that fits, \<^term>\<open>None\<close> where no object lives.  An address that \<^verbatim>\<open>bufs\<close> does not
  define is not allocated (any more), so that a use after free is the result \<^term>\<open>None\<close>; so is
  reading or destroying an object that does not exist, and constructing an object over a
  live one whose destructor is not trivial, which would never be destroyed.  The list \<^verbatim>\<open>av\<close>
  holds the outcomes of the allocations to come (all succeed when it is exhausted), and a
  successful \<^verbatim>\<open>malloc\<close> or \<^verbatim>\<open>realloc\<close> returns an address that was never used before.
  \<^verbatim>\<open>size_t\<close> has 64 bits.
\<close>

section \<open>Blocks, the heap and the allocator\<close>

record 'a shared_buffer =
  mRefs :: u32
  mSize :: u64
  slots :: "'a option list"

record 'a vheap =
  bufs :: "nat \<Rightarrow> 'a shared_buffer option"
  fresh :: nat
  av :: "bool list"

definition sizeof_SharedBuffer :: u64 where
  "sizeof_SharedBuffer = 24"

definition malloc_ok :: "'a vheap \<Rightarrow> bool" where
  "malloc_ok h = (case av h of [] \<Rightarrow> True | r # _ \<Rightarrow> r)"

definition malloc_next :: "'a vheap \<Rightarrow> 'a vheap" where
  "malloc_next h = h\<lparr>av := tl (av h)\<rparr>"

definition put_buf :: "nat \<Rightarrow> 'a shared_buffer \<Rightarrow> 'a vheap \<Rightarrow> 'a vheap" where
  "put_buf a b h = h\<lparr>bufs := (bufs h)(a \<mapsto> b)\<rparr>"

definition free_buf :: "nat \<Rightarrow> 'a vheap \<Rightarrow> 'a vheap" where
  "free_buf a h = h\<lparr>bufs := (bufs h)(a := None)\<rparr>"

definition new_buf :: "'a shared_buffer \<Rightarrow> 'a vheap \<Rightarrow> 'a vheap \<times> nat" where
  "new_buf b h = (h\<lparr>bufs := (bufs h)(fresh h \<mapsto> b), fresh := Suc (fresh h)\<rparr>, fresh h)"

section \<open>SharedBuffer\<close>

definition sb_alloc :: "u64 \<Rightarrow> u64 \<Rightarrow> 'a vheap \<Rightarrow> ('a vheap \<times> nat option) option" where
  "sb_alloc isz sz h =
     (if - 1 - sizeof_SharedBuffer \<le> sz then None
      else if \<not> malloc_ok h then Some (malloc_next h, None)
      else let (h', a) = new_buf
                 \<lparr>mRefs = 1, mSize = sz, slots = replicate (unat sz div unat isz) None\<rparr>
                 (malloc_next h)
           in Some (h', Some a))"

definition sb_dealloc :: "nat \<Rightarrow> 'a vheap \<Rightarrow> ('a vheap \<times> int) option" where
  "sb_dealloc a h = do {
     b \<leftarrow> bufs h a;
     Some (if mRefs b \<noteq> 0 then (h, - 1) else (free_buf a h, 0)) }"

definition onlyOwner :: "'a shared_buffer \<Rightarrow> bool" where
  "onlyOwner b \<longleftrightarrow> mRefs b = 1"

definition sb_acquire :: "nat \<Rightarrow> 'a vheap \<Rightarrow> 'a vheap option" where
  "sb_acquire a h = do {
     b \<leftarrow> bufs h a;
     Some (put_buf a (b\<lparr>mRefs := mRefs b + 1\<rparr>) h) }"

definition sb_release :: "nat \<Rightarrow> bool \<Rightarrow> 'a vheap \<Rightarrow> ('a vheap \<times> u32) option" where
  "sb_release a eKeepStorage h = do {
     b \<leftarrow> bufs h a;
     let (prev, refs) = (if onlyOwner b then (1, mRefs b) else (mRefs b, mRefs b - 1));
     Some (if prev = 1
       then (if eKeepStorage then put_buf a (b\<lparr>mRefs := 0\<rparr>) h else free_buf a h, prev)
       else (put_buf a (b\<lparr>mRefs := refs\<rparr>) h, prev)) }"

definition sb_attemptEdit :: "nat \<Rightarrow> 'a vheap \<Rightarrow> nat option option" where
  "sb_attemptEdit a h = do {
     b \<leftarrow> bufs h a;
     Some (if onlyOwner b then Some a else None) }"

definition sb_edit :: "u64 \<Rightarrow> nat \<Rightarrow> 'a vheap \<Rightarrow> ('a vheap \<times> nat option) option" where
  "sb_edit isz a h = do {
     b \<leftarrow> bufs h a;
     if onlyOwner b then Some (h, Some a)
     else do {
       (h, r) \<leftarrow> sb_alloc isz (mSize b) h;
       case r of None \<Rightarrow> Some (h, None)
       | Some a' \<Rightarrow> do {
           b' \<leftarrow> bufs h a';
           (h, _) \<leftarrow> sb_release a False (put_buf a' (b'\<lparr>slots := slots b\<rparr>) h);
           Some (h, Some a') } } }"

definition resized :: "u64 \<Rightarrow> u64 \<Rightarrow> 'a shared_buffer \<Rightarrow> 'a option list" where
  "resized isz newSize b =
     take (unat newSize div unat isz) (slots b) @
     replicate (unat newSize div unat isz - length (slots b)) None"

definition sb_editResize :: "u64 \<Rightarrow> u64 \<Rightarrow> nat \<Rightarrow> 'a vheap \<Rightarrow> ('a vheap \<times> nat option) option" where
  "sb_editResize isz newSize a h = do {
     b \<leftarrow> bufs h a;
     if onlyOwner b \<and> mSize b = newSize then Some (h, Some a)
     else if onlyOwner b \<and> - 1 - sizeof_SharedBuffer \<le> newSize then None
     else if onlyOwner b \<and> malloc_ok h then
       (let (h, a') = new_buf (b\<lparr>mSize := newSize, slots := resized isz newSize b\<rparr>)
              (free_buf a (malloc_next h))
        in Some (h, Some a'))
     else do {
       (h, r) \<leftarrow> sb_alloc isz newSize (if onlyOwner b then malloc_next h else h);
       case r of None \<Rightarrow> Some (h, None)
       | Some a' \<Rightarrow> do {
           b' \<leftarrow> bufs h a';
           (h, _) \<leftarrow> sb_release a False (put_buf a' (b'\<lparr>slots := resized isz newSize b\<rparr>) h);
           Some (h, Some a') } } }"

definition sb_reset :: "u64 \<Rightarrow> u64 \<Rightarrow> nat \<Rightarrow> 'a vheap \<Rightarrow> ('a vheap \<times> nat option) option" where
  "sb_reset isz new_size a h = do {
     (h, r) \<leftarrow> sb_alloc isz new_size h;
     case r of None \<Rightarrow> Some (h, None)
     | Some a' \<Rightarrow> do { (h, _) \<leftarrow> sb_release a False h; Some (h, Some a') } }"

section \<open>Items\<close>

text \<open>
  What the templates know of the item type: the traits, its size and what its default
  constructor makes.  Copying an item copies its value; the constructors, destructors and
  comparisons of the items do not touch the vectors.
\<close>

record 'a item_type =
  has_trivial_ctor :: bool
  has_trivial_dtor :: bool
  has_trivial_copy :: bool
  has_trivial_move :: bool
  sizeof :: u64
  dflt :: 'a

text \<open>
  A pointer to items: into an array that no vector owns (its items are given), or to the
  item at an index of the block with an address; \<^term>\<open>Slot None i\<close> is the null pointer.
\<close>

datatype 'a ptr = Ext "'a list" | Slot "nat option" nat

fun ptr_add :: "'a ptr \<Rightarrow> nat \<Rightarrow> 'a ptr" where
  "ptr_add (Ext xs) n = Ext (drop n xs)"
| "ptr_add (Slot a i) n = Slot a (i + n)"

fun read_slots :: "'a vheap \<Rightarrow> 'a ptr \<Rightarrow> nat \<Rightarrow> 'a option list option" where
  "read_slots h (Ext xs) n = (if n \<le> length xs then Some (map Some (take n xs)) else None)"
| "read_slots h (Slot None i) n = (if n = 0 then Some [] else None)"
| "read_slots h (Slot (Some a) i) n = do {
     b \<leftarrow> bufs h a;
     if i + n \<le> length (slots b) then Some (take n (drop i (slots b))) else None }"

definition read_item :: "'a vheap \<Rightarrow> 'a ptr \<Rightarrow> 'a option" where
  "read_item h p = do { ss \<leftarrow> read_slots h p 1; hd ss }"

definition set_slots :: "nat \<Rightarrow> 'a option list \<Rightarrow> 'a vheap \<Rightarrow> 'a vheap" where
  "set_slots a ss h = (case bufs h a of None \<Rightarrow> h | Some b \<Rightarrow> put_buf a (b\<lparr>slots := ss\<rparr>) h)"

definition construct_at :: "'a item_type \<Rightarrow> nat \<Rightarrow> nat \<Rightarrow> 'a \<Rightarrow> 'a vheap \<Rightarrow> 'a vheap option" where
  "construct_at t a d x h = do {
     b \<leftarrow> bufs h a;
     if d < length (slots b) \<and> (has_trivial_dtor t \<or> slots b ! d = None)
     then Some (set_slots a ((slots b)[d := Some x]) h) else None }"

definition assign_at :: "nat \<Rightarrow> nat \<Rightarrow> 'a \<Rightarrow> 'a vheap \<Rightarrow> 'a vheap option" where
  "assign_at a d x h = do {
     b \<leftarrow> bufs h a;
     if d < length (slots b) then Some (set_slots a ((slots b)[d := Some x]) h) else None }"

definition destroy_at :: "nat \<Rightarrow> nat \<Rightarrow> 'a vheap \<Rightarrow> 'a vheap option" where
  "destroy_at a d h = do {
     b \<leftarrow> bufs h a;
     if d < length (slots b) \<and> slots b ! d \<noteq> None
     then Some (set_slots a ((slots b)[d := None]) h) else None }"

text \<open>\<^verbatim>\<open>memcpy\<close> is undefined on overlapping ranges; \<^verbatim>\<open>memmove\<close> is not.\<close>

fun overlaps :: "nat \<Rightarrow> nat \<Rightarrow> 'a ptr \<Rightarrow> nat \<Rightarrow> bool" where
  "overlaps a d (Slot (Some a') s) n \<longleftrightarrow> a = a' \<and> s < d + n \<and> d < s + n"
| "overlaps a d _ n \<longleftrightarrow> False"

definition blit :: "nat \<Rightarrow> 'a list \<Rightarrow> 'a list \<Rightarrow> 'a list" where
  "blit d ss xs = take d xs @ ss @ drop (d + length ss) xs"

definition memcpy_items :: "nat \<Rightarrow> nat \<Rightarrow> 'a ptr \<Rightarrow> nat \<Rightarrow> 'a vheap \<Rightarrow> 'a vheap option" where
  "memcpy_items a d p n h = do {
     ss \<leftarrow> read_slots h p n;
     b \<leftarrow> bufs h a;
     if d + n \<le> length (slots b) \<and> \<not> overlaps a d p n
     then Some (set_slots a (blit d ss (slots b)) h) else None }"

text \<open>
  \<^verbatim>\<open>memmove\<close> of items relocates them: the objects live at the destination afterwards, and the
  places they left are raw memory (of types with a trivial destructor, old bits remain).
\<close>

definition vacate :: "nat \<Rightarrow> nat \<Rightarrow> nat \<Rightarrow> 'a option list \<Rightarrow> 'a option list" where
  "vacate d s n xs =
     map (\<lambda>i. if s \<le> i \<and> i < s + n \<and> \<not> (d \<le> i \<and> i < d + n) then None else xs ! i) [0..<length xs]"

definition memmove_items :: "'a item_type \<Rightarrow> nat \<Rightarrow> nat \<Rightarrow> nat \<Rightarrow> nat \<Rightarrow> 'a vheap \<Rightarrow> 'a vheap option" where
  "memmove_items t a d s n h = do {
     ss \<leftarrow> read_slots h (Slot (Some a) s) n;
     b \<leftarrow> bufs h a;
     if d + n \<le> length (slots b)
     then Some (set_slots a ((if has_trivial_dtor t then id else vacate d s n) (blit d ss (slots b))) h)
     else None }"

section \<open>The loops of TypeHelpers.h\<close>

definition strictly_order_type :: "('a \<Rightarrow> 'a \<Rightarrow> bool) \<Rightarrow> 'a \<Rightarrow> 'a \<Rightarrow> int" where
  "strictly_order_type lt lhs rhs = (if lt lhs rhs then 1 else 0)"

definition compare_type :: "('a \<Rightarrow> 'a \<Rightarrow> bool) \<Rightarrow> 'a \<Rightarrow> 'a \<Rightarrow> int" where
  "compare_type lt lhs rhs = strictly_order_type lt rhs lhs - strictly_order_type lt lhs rhs"

fun construct_loop :: "'a item_type \<Rightarrow> nat \<Rightarrow> nat \<Rightarrow> nat \<Rightarrow> 'a vheap \<Rightarrow> 'a vheap option" where
  "construct_loop t a p 0 h = Some h"
| "construct_loop t a p (Suc n) h = do {
     h \<leftarrow> construct_at t a p (dflt t) h;
     construct_loop t a (Suc p) n h }"

definition construct_type :: "'a item_type \<Rightarrow> nat \<Rightarrow> nat \<Rightarrow> nat \<Rightarrow> 'a vheap \<Rightarrow> 'a vheap option" where
  "construct_type t a p n h = (if \<not> has_trivial_ctor t then construct_loop t a p n h else Some h)"

fun destroy_loop :: "nat \<Rightarrow> nat \<Rightarrow> nat \<Rightarrow> 'a vheap \<Rightarrow> 'a vheap option" where
  "destroy_loop a p 0 h = Some h"
| "destroy_loop a p (Suc n) h = do {
     h \<leftarrow> destroy_at a p h;
     destroy_loop a (Suc p) n h }"

definition destroy_type :: "'a item_type \<Rightarrow> nat \<Rightarrow> nat \<Rightarrow> nat \<Rightarrow> 'a vheap \<Rightarrow> 'a vheap option" where
  "destroy_type t a p n h = (if \<not> has_trivial_dtor t then destroy_loop a p n h else Some h)"

fun copy_loop :: "'a item_type \<Rightarrow> nat \<Rightarrow> nat \<Rightarrow> 'a ptr \<Rightarrow> nat \<Rightarrow> 'a vheap \<Rightarrow> 'a vheap option" where
  "copy_loop t a d s 0 h = Some h"
| "copy_loop t a d s (Suc n) h = do {
     x \<leftarrow> read_item h s;
     h \<leftarrow> construct_at t a d x h;
     copy_loop t a (Suc d) (ptr_add s 1) n h }"

definition copy_type :: "'a item_type \<Rightarrow> nat \<Rightarrow> nat \<Rightarrow> 'a ptr \<Rightarrow> nat \<Rightarrow> 'a vheap \<Rightarrow> 'a vheap option" where
  "copy_type t a d s n h =
     (if \<not> has_trivial_copy t then copy_loop t a d s n h else memcpy_items a d s n h)"

fun splat_loop :: "'a item_type \<Rightarrow> nat \<Rightarrow> nat \<Rightarrow> 'a ptr \<Rightarrow> nat \<Rightarrow> 'a vheap \<Rightarrow> 'a vheap option" where
  "splat_loop t a w what 0 h = Some h"
| "splat_loop t a w what (Suc n) h = do {
     x \<leftarrow> read_item h what;
     h \<leftarrow> (if \<not> has_trivial_copy t then construct_at t a w x h else assign_at a w x h);
     splat_loop t a (Suc w) what n h }"

definition splat_type :: "'a item_type \<Rightarrow> nat \<Rightarrow> nat \<Rightarrow> 'a ptr \<Rightarrow> nat \<Rightarrow> 'a vheap \<Rightarrow> 'a vheap option" where
  "splat_type = splat_loop"

definition move_item :: "'a item_type \<Rightarrow> nat \<Rightarrow> nat \<Rightarrow> nat \<Rightarrow> 'a vheap \<Rightarrow> 'a vheap option" where
  "move_item t a d s h = do {
     x \<leftarrow> read_item h (Slot (Some a) s);
     h \<leftarrow> (if \<not> has_trivial_copy t then construct_at t a d x h else assign_at a d x h);
     if \<not> has_trivial_dtor t then destroy_at a s h else Some h }"

fun move_forward_loop :: "'a item_type \<Rightarrow> nat \<Rightarrow> nat \<Rightarrow> nat \<Rightarrow> nat \<Rightarrow> 'a vheap \<Rightarrow> 'a vheap option" where
  "move_forward_loop t a d s 0 h = Some h"
| "move_forward_loop t a d s (Suc n) h = do {
     h \<leftarrow> move_item t a (d + n) (s + n) h;
     move_forward_loop t a d s n h }"

definition moves_bits :: "'a item_type \<Rightarrow> bool" where
  "moves_bits t \<longleftrightarrow> (has_trivial_dtor t \<and> has_trivial_copy t) \<or> has_trivial_move t"

definition move_forward_type :: "'a item_type \<Rightarrow> nat \<Rightarrow> nat \<Rightarrow> nat \<Rightarrow> nat \<Rightarrow> 'a vheap \<Rightarrow> 'a vheap option" where
  "move_forward_type t a d s n h =
     (if moves_bits t then memmove_items t a d s n h else move_forward_loop t a d s n h)"

fun move_backward_loop :: "'a item_type \<Rightarrow> nat \<Rightarrow> nat \<Rightarrow> nat \<Rightarrow> nat \<Rightarrow> 'a vheap \<Rightarrow> 'a vheap option" where
  "move_backward_loop t a d s 0 h = Some h"
| "move_backward_loop t a d s (Suc n) h = do {
     h \<leftarrow> move_item t a d s h;
     move_backward_loop t a (Suc d) (Suc s) n h }"

definition move_backward_type :: "'a item_type \<Rightarrow> nat \<Rightarrow> nat \<Rightarrow> nat \<Rightarrow> nat \<Rightarrow> 'a vheap \<Rightarrow> 'a vheap option" where
  "move_backward_type t a d s n h =
     (if moves_bits t then memmove_items t a d s n h else move_backward_loop t a d s n h)"

section \<open>Lemmas on blocks\<close>

lemma bufs_set_slots [simp]:
  "bufs (set_slots a ss h) a' =
     (if a' = a then map_option (\<lambda>b. b\<lparr>slots := ss\<rparr>) (bufs h a) else bufs h a')"
  by (auto simp: set_slots_def put_buf_def split: option.split)

lemma set_slots_fields [simp]:
  "fresh (set_slots a ss h) = fresh h" "av (set_slots a ss h) = av h"
  by (auto simp: set_slots_def put_buf_def split: option.split)

lemma set_slots_twice [simp]: "set_slots a s2 (set_slots a s1 h) = set_slots a s2 h"
  by (auto simp: set_slots_def put_buf_def split: option.split)

lemma set_slots_same: "bufs h a = Some b \<Longrightarrow> set_slots a (slots b) h = h"
  by (simp add: set_slots_def put_buf_def fun_upd_idem)

lemma length_blit [simp]: "d + length ss \<le> length xs \<Longrightarrow> length (blit d ss xs) = length xs"
  by (simp add: blit_def)

lemma blit_Nil [simp]: "blit d [] xs = xs"
  by (simp add: blit_def)

lemma blit_Cons: "d < length xs \<Longrightarrow> blit (Suc d) ss (xs[d := x]) = blit d (x # ss) xs"
  by (simp add: blit_def take_Suc_conv_app_nth)

definition raw :: "'a item_type \<Rightarrow> 'a option list \<Rightarrow> bool" where
  "raw t ss \<longleftrightarrow> has_trivial_dtor t \<or> set ss \<subseteq> {None}"

lemma raw_simps [simp]:
  "raw t []" "raw t (x # xs) \<longleftrightarrow> (has_trivial_dtor t \<or> x = None) \<and> raw t xs"
  "raw t (xs @ ys) \<longleftrightarrow> raw t xs \<and> raw t ys" "raw t (replicate n None)"
  by (auto simp: raw_def)

lemma raw_take [intro]: "raw t xs \<Longrightarrow> raw t (take n xs)"
  by (meson raw_def set_take_subset subset_trans)

lemma raw_drop [intro]: "raw t xs \<Longrightarrow> raw t (drop n xs)"
  by (meson raw_def set_drop_subset subset_trans)

lemma raw_trivial: "has_trivial_dtor t \<Longrightarrow> raw t ss"
  by (simp add: raw_def)

lemma raw_replicate: "\<not> has_trivial_dtor t \<Longrightarrow> raw t ss \<Longrightarrow> ss = replicate (length ss) None"
  by (auto simp: raw_def intro!: replicate_eqI)

definition reads :: "'a vheap \<Rightarrow> 'a ptr \<Rightarrow> 'a list \<Rightarrow> bool" where
  "reads h p ys \<longleftrightarrow> read_slots h p (length ys) = Some (map Some ys)"

definition outside :: "nat \<Rightarrow> 'a ptr \<Rightarrow> bool" where
  "outside a p \<longleftrightarrow> (\<forall>i. p \<noteq> Slot (Some a) i)"

lemma outside_simps [simp]:
  "outside a (Ext xs)" "outside a (Slot None i)" "outside a (Slot (Some a') i) \<longleftrightarrow> a \<noteq> a'"
  by (auto simp: outside_def)

lemma outside_add [simp]: "outside a (ptr_add p n) = outside a p"
  by (cases "(p, n)" rule: ptr_add.cases) (auto simp: outside_def)

lemma reads_set_slots [simp]: "outside a p \<Longrightarrow> reads (set_slots a ss h) p ys = reads h p ys"
  by (cases "(h, p, length ys)" rule: read_slots.cases) (auto simp: reads_def)

lemma read_item_set_slots [simp]:
  "outside a p \<Longrightarrow> read_item (set_slots a ss h) p = read_item h p"
  by (cases "(h, p, 1 :: nat)" rule: read_slots.cases) (auto simp: read_item_def)

lemma reads_ConsD:
  assumes "reads h p (y # ys)"
  shows "read_item h p = Some y" "reads h (ptr_add p 1) ys"
proof -
  show "read_item h p = Some y"
  proof (cases "(h, p, 1 :: nat)" rule: read_slots.cases)
    case (1 h xs n)
    then show ?thesis using assms by (cases xs) (auto simp: read_item_def reads_def split: if_splits)
  qed (use assms in \<open>auto simp: read_item_def reads_def option_run take_Suc hd_drop_conv_nth split: if_splits\<close>)
  show "reads h (ptr_add p 1) ys"
  proof (cases "(h, p, 1 :: nat)" rule: read_slots.cases)
    case (1 h xs n)
    then show ?thesis using assms by (cases xs) (auto simp: reads_def split: if_splits)
  qed (use assms in \<open>auto simp: reads_def option_run take_Suc drop_Suc tl_drop split: if_splits\<close>)
qed

lemma reads_read_item: "reads h p [x] \<Longrightarrow> read_item h p = Some x"
  by (rule reads_ConsD)

lemma reads_outside_no_overlap: "outside a p \<Longrightarrow> \<not> overlaps a d p n"
  by (cases "(a, d, p, n)" rule: overlaps.cases) auto

subsection \<open>The loops in closed form\<close>

lemma construct_at_ok:
  "bufs h a = Some b \<Longrightarrow> d < length (slots b) \<Longrightarrow> has_trivial_dtor t \<or> slots b ! d = None \<Longrightarrow>
   construct_at t a d x h = Some (set_slots a ((slots b)[d := Some x]) h)"
  by (simp add: construct_at_def)

lemma copy_loop_ok:
  assumes "bufs h a = Some b" "reads h p ys" "outside a p"
    and "d + length ys \<le> length (slots b)" "raw t (take (length ys) (drop d (slots b)))"
  shows "copy_loop t a d p (length ys) h = Some (set_slots a (blit d (map Some ys) (slots b)) h)"
  using assms
proof (induction ys arbitrary: d p h b)
  case Nil
  then show ?case by (simp add: set_slots_same)
next
  case (Cons y ys)
  let ?h = "set_slots a ((slots b)[d := Some y]) h" and ?b = "b\<lparr>slots := (slots b)[d := Some y]\<rparr>"
  have d: "d < length (slots b)" using Cons.prems(4) by simp
  then have "raw t (slots b ! d # take (length ys) (drop (Suc d) (slots b)))"
    using Cons.prems(5) by (simp add: Cons_nth_drop_Suc [symmetric])
  then have "construct_at t a d y h = Some ?h"
    and r: "raw t (take (length ys) (drop (Suc d) (slots ?b)))"
    using Cons.prems(1) d by (auto simp: construct_at_ok)
  moreover have "copy_loop t a (Suc d) (ptr_add p 1) (length ys) ?h =
      Some (set_slots a (blit (Suc d) (map Some ys) (slots ?b)) ?h)"
    using Cons.prems reads_ConsD [OF Cons.prems(2)] r by (intro Cons.IH) auto
  ultimately show ?case
    using reads_ConsD [OF Cons.prems(2)] d by (simp add: blit_Cons)
qed

lemma memcpy_items_ok:
  assumes "bufs h a = Some b" "reads h p ys" "outside a p" "d + length ys \<le> length (slots b)"
  shows "memcpy_items a d p (length ys) h = Some (set_slots a (blit d (map Some ys) (slots b)) h)"
  using assms by (simp add: memcpy_items_def reads_def reads_outside_no_overlap)

lemma copy_type_ok:
  assumes "bufs h a = Some b" "reads h p ys" "outside a p"
    and "d + length ys \<le> length (slots b)" "raw t (take (length ys) (drop d (slots b)))"
  shows "copy_type t a d p (length ys) h = Some (set_slots a (blit d (map Some ys) (slots b)) h)"
  using assms by (simp add: copy_type_def copy_loop_ok memcpy_items_ok)

lemma splat_loop_ok:
  assumes "bufs h a = Some b" "read_item h p = Some x" "outside a p"
    and "d + n \<le> length (slots b)" "raw t (take n (drop d (slots b)))"
  shows "splat_loop t a d p n h = Some (set_slots a (blit d (replicate n (Some x)) (slots b)) h)"
  using assms
proof (induction n arbitrary: d h b)
  case 0
  then show ?case by (simp add: set_slots_same)
next
  case (Suc n)
  let ?h = "set_slots a ((slots b)[d := Some x]) h" and ?b = "b\<lparr>slots := (slots b)[d := Some x]\<rparr>"
  have d: "d < length (slots b)" using Suc.prems(4) by simp
  then have "raw t (slots b ! d # take n (drop (Suc d) (slots b)))"
    using Suc.prems(5) by (simp add: Cons_nth_drop_Suc [symmetric])
  then have "construct_at t a d x h = Some ?h" "assign_at a d x h = Some ?h"
    and r: "raw t (take n (drop (Suc d) (slots ?b)))"
    using Suc.prems(1) d by (auto simp: construct_at_ok assign_at_def)
  moreover have "splat_loop t a (Suc d) p n ?h =
      Some (set_slots a (blit (Suc d) (replicate n (Some x)) (slots ?b)) ?h)"
    using Suc.prems r by (intro Suc.IH) auto
  ultimately show ?case
    using Suc.prems d by (simp add: blit_Cons)
qed

lemma construct_loop_ok:
  assumes "bufs h a = Some b" "d + n \<le> length (slots b)" "raw t (take n (drop d (slots b)))"
  shows "construct_loop t a d n h =
    Some (set_slots a (blit d (replicate n (Some (dflt t))) (slots b)) h)"
  using assms
proof (induction n arbitrary: d h b)
  case 0
  then show ?case by (simp add: set_slots_same)
next
  case (Suc n)
  let ?x = "dflt t"
  let ?h = "set_slots a ((slots b)[d := Some ?x]) h" and ?b = "b\<lparr>slots := (slots b)[d := Some ?x]\<rparr>"
  have d: "d < length (slots b)" using Suc.prems(2) by simp
  then have "raw t (slots b ! d # take n (drop (Suc d) (slots b)))"
    using Suc.prems(3) by (simp add: Cons_nth_drop_Suc [symmetric])
  then have "construct_at t a d ?x h = Some ?h"
    and r: "raw t (take n (drop (Suc d) (slots ?b)))"
    using Suc.prems(1) d by (auto simp: construct_at_ok)
  moreover have "construct_loop t a (Suc d) n ?h =
      Some (set_slots a (blit (Suc d) (replicate n (Some ?x)) (slots ?b)) ?h)"
    using Suc.prems r by (intro Suc.IH) auto
  ultimately show ?case
    using d by (simp add: blit_Cons)
qed

lemma destroy_loop_ok:
  assumes "bufs h a = Some b" "d + length ys \<le> length (slots b)"
    and "take (length ys) (drop d (slots b)) = map Some ys"
  shows "destroy_loop a d (length ys) h =
    Some (set_slots a (blit d (replicate (length ys) None) (slots b)) h)"
  using assms
proof (induction ys arbitrary: d h b)
  case Nil
  then show ?case by (simp add: set_slots_same)
next
  case (Cons y ys)
  let ?h = "set_slots a ((slots b)[d := None]) h" and ?b = "b\<lparr>slots := (slots b)[d := None]\<rparr>"
  have d: "d < length (slots b)" using Cons.prems(2) by simp
  then have y: "slots b ! d = Some y" "take (length ys) (drop (Suc d) (slots ?b)) = map Some ys"
    using Cons.prems(3) by (auto simp: Cons_nth_drop_Suc [symmetric])
  then have "destroy_at a d h = Some ?h"
    using Cons.prems(1) d by (simp add: destroy_at_def)
  moreover have "destroy_loop a (Suc d) (length ys) ?h =
      Some (set_slots a (blit (Suc d) (replicate (length ys) None) (slots ?b)) ?h)"
    using Cons.prems y by (intro Cons.IH) auto
  ultimately show ?case
    using d by (simp add: blit_Cons)
qed

lemma destroy_type_ok:
  assumes "bufs h a = Some b" "d + length ys \<le> length (slots b)"
    and "take (length ys) (drop d (slots b)) = map Some ys"
  shows "\<exists>G. length G = length ys \<and> raw t G \<and>
    destroy_type t a d (length ys) h = Some (set_slots a (blit d G (slots b)) h)"
proof (cases "has_trivial_dtor t")
  case True
  have "blit d (map Some ys) (slots b) = slots b"
    using assms(3) by (metis append_take_drop_id blit_def drop_drop length_map add.commute)
  then show ?thesis
    using True assms(1) by (intro exI [of _ "map Some ys"])
      (simp add: destroy_type_def raw_trivial set_slots_same)
next
  case False
  then show ?thesis
    using destroy_loop_ok [OF assms]
    by (intro exI [of _ "replicate (length ys) None"]) (simp add: destroy_type_def)
qed

text \<open>
  Moving items up by \<^term>\<open>k\<close> places opens a gap of \<^term>\<open>k\<close> raw places where they were; moving
  them down closes one.
\<close>

lemma move_item_ok:
  assumes "bufs h a = Some b" "s < length (slots b)" "slots b ! s = Some x"
    and "d < length (slots b)" "d \<noteq> s" "has_trivial_dtor t \<or> slots b ! d = None"
  shows "\<exists>g. (has_trivial_dtor t \<or> g = None) \<and>
    move_item t a d s h = Some (set_slots a ((slots b)[d := Some x, s := g]) h)"
proof -
  let ?h = "set_slots a ((slots b)[d := Some x]) h"
  have "read_item h (Slot (Some a) s) = Some x"
    using assms by (simp add: read_item_def take_Suc hd_drop_conv_nth)
  moreover have "construct_at t a d x h = Some ?h" "assign_at a d x h = Some ?h"
    using assms by (auto simp: construct_at_ok assign_at_def)
  moreover have "destroy_at a s ?h = Some (set_slots a ((slots b)[d := Some x, s := None]) h)"
    using assms by (auto simp: destroy_at_def)
  moreover have "(slots b)[d := Some x, s := Some x] = (slots b)[d := Some x]"
    using assms by (metis list_update_id list_update_swap)
  ultimately show ?thesis
    by (cases "has_trivial_dtor t")
       (auto simp: move_item_def intro: exI [of _ "Some x"] exI [of _ None])
qed

lemma move_forward_loop_ok:
  assumes "bufs h a = Some b" "slots b = A @ map Some ys @ R"
    and "0 < k" "k \<le> length R" "raw t (take k R)"
  shows "\<exists>G. length G = k \<and> raw t G \<and> move_forward_loop t a (length A + k) (length A) (length ys) h =
    Some (set_slots a (A @ G @ map Some ys @ drop k R) h)"
  using assms
proof (induction ys arbitrary: R h b rule: rev_induct)
  case Nil
  then have "set_slots a (A @ take k R @ drop k R) h = h"
    by (metis append_Nil append_take_drop_id list.map(1) set_slots_same)
  with Nil show ?case
    by (intro exI [of _ "take k R"]) auto
next
  case (snoc y ys)
  let ?s = "length A + length ys"
  have ys: "slots b = (A @ map Some ys) @ Some y # R" using snoc.prems(2) by simp
  have d: "slots b ! (k + ?s) = R ! (k - 1)" "has_trivial_dtor t \<or> R ! (k - 1) = None"
  proof -
    show "slots b ! (k + ?s) = R ! (k - 1)"
      using \<open>0 < k\<close> unfolding ys by (simp add: nth_append nth_Cons')
    have "R ! (k - 1) \<in> set (take k R)"
      using snoc.prems(3,4) by (auto simp: in_set_conv_nth intro!: exI [of _ "k - 1"])
    then show "has_trivial_dtor t \<or> R ! (k - 1) = None"
      using snoc.prems(5) by (auto simp: raw_def)
  qed
  obtain g where g: "has_trivial_dtor t \<or> g = None"
    and m: "move_item t a (k + ?s) ?s h = Some (set_slots a ((slots b)[k + ?s := Some y, ?s := g]) h)"
    using move_item_ok [of h a b ?s y "k + ?s" t] snoc.prems d by (auto simp: nth_append)
  let ?R = "g # take (k - 1) R @ Some y # drop k R"
  have upd: "(slots b)[k + ?s := Some y, ?s := g] = A @ map Some ys @ ?R"
    using snoc.prems(3,4) unfolding ys
    by (cases k) (auto simp: list_update_append upd_conv_take_nth_drop)
  let ?h = "set_slots a (A @ map Some ys @ ?R) h"
  have "\<exists>G. length G = k \<and> raw t G \<and>
      move_forward_loop t a (length A + k) (length A) (length ys) ?h =
      Some (set_slots a (A @ G @ map Some ys @ drop k ?R) ?h)"
  proof (rule snoc.IH)
    show "bufs ?h a = Some (b\<lparr>slots := A @ map Some ys @ ?R\<rparr>)" using snoc.prems(1) by simp
    have "raw t (take (k - 1) R)"
      using raw_take [OF snoc.prems(5), of "k - 1"] by (simp add: min_def)
    then show "raw t (take k ?R)"
      using snoc.prems(3,4) g by (cases k) auto
  qed (use snoc.prems in auto)
  then obtain G where G: "length G = k" "raw t G"
    "move_forward_loop t a (length A + k) (length A) (length ys) ?h =
      Some (set_slots a (A @ G @ map Some ys @ drop k ?R) ?h)"
    by blast
  moreover have "drop k ?R = Some y # drop k R"
    using snoc.prems(3,4) by (cases k) auto
  ultimately show ?case
    using m unfolding upd by (intro exI [of _ G]) (simp add: add.commute add.left_commute)
qed

lemma memmove_items_eq:
  assumes "bufs h a = Some b" "s + n \<le> length (slots b)" "d + n \<le> length (slots b)"
    and "take n (drop s (slots b)) = ss"
  shows "memmove_items t a d s n h = Some (set_slots a
    ((if has_trivial_dtor t then id else vacate d s n) (blit d ss (slots b))) h)"
  using assms by (simp add: memmove_items_def)

lemma vacate_up:
  assumes "length G = k" "\<And>i. length ys \<le> i \<Longrightarrow> i < k \<Longrightarrow> G ! i = None"
  shows "vacate (length A + k) (length A) (length ys) (A @ G @ map Some ys @ R) =
    A @ replicate k None @ map Some ys @ R"
  unfolding vacate_def using assms by (intro nth_equalityI) (auto simp: nth_append)

lemma memmove_forward_ok:
  assumes "bufs h a = Some b" "slots b = A @ map Some ys @ R" "k \<le> length R" "raw t (take k R)"
  shows "\<exists>G. length G = k \<and> raw t G \<and> memmove_items t a (length A + k) (length A) (length ys) h =
    Some (set_slots a (A @ G @ map Some ys @ drop k R) h)"
proof -
  let ?G = "take k (map Some ys @ R)"
  have bl: "blit (length A + k) (map Some ys) (slots b) = A @ ?G @ map Some ys @ drop k R"
    using assms by (simp add: blit_def)
  have mv: "memmove_items t a (length A + k) (length A) (length ys) h = Some (set_slots a
      ((if has_trivial_dtor t then id else vacate (length A + k) (length A) (length ys))
        (A @ ?G @ map Some ys @ drop k R)) h)"
    using memmove_items_eq [OF assms(1), of "length A" "length ys" "length A + k" "map Some ys" t]
      assms(2,3) by (simp add: bl [simplified assms(2)])
  show ?thesis
  proof (cases "has_trivial_dtor t")
    case True
    then show ?thesis
      using assms(3) mv by (intro exI [of _ ?G]) (simp add: raw_trivial)
  next
    case False
    have "length (take (k - length ys) R) = k - length ys" "raw t (take (k - length ys) R)"
      using assms(3) raw_take [OF assms(4), of "k - length ys"] by (auto simp: min_absorb1)
    then have R: "take (k - length ys) R = replicate (k - length ys) None"
      using raw_replicate [OF False] by metis
    then have "?G ! i = None" if "length ys \<le> i" "i < k" for i
      using that assms(3) by (simp add: nth_append)
    moreover have "length ?G = k" using assms(3) by simp
    ultimately have v: "vacate (length A + k) (length A) (length ys) (A @ ?G @ map Some ys @ drop k R) =
        A @ replicate k None @ map Some ys @ drop k R"
      by (metis vacate_up)
    show ?thesis
      by (intro exI [of _ "replicate k None"])
         (simp only: mv v False if_False length_replicate raw_simps simp_thms)
  qed
qed

lemma move_forward_type_ok:
  assumes "bufs h a = Some b" "slots b = A @ map Some ys @ R"
    and "0 < k" "k \<le> length R" "raw t (take k R)"
  shows "\<exists>G. length G = k \<and> raw t G \<and> move_forward_type t a (length A + k) (length A) (length ys) h =
    Some (set_slots a (A @ G @ map Some ys @ drop k R) h)"
  using move_forward_loop_ok [OF assms] memmove_forward_ok [OF assms(1,2,4,5)]
  by (auto simp: move_forward_type_def)

lemma move_backward_loop_ok:
  assumes "bufs h a = Some b" "slots b = A @ G @ map Some ys @ R" "0 < length G" "raw t G"
  shows "\<exists>G'. length G' = length G \<and> raw t G' \<and>
    move_backward_loop t a (length A) (length A + length G) (length ys) h =
    Some (set_slots a (A @ map Some ys @ G' @ R) h)"
  using assms
proof (induction ys arbitrary: A G h b)
  case Nil
  then have "set_slots a (A @ G @ R) h = h"
    by (metis append_Nil list.map(1) set_slots_same)
  with Nil show ?case by (intro exI [of _ G]) auto
next
  case (Cons y ys)
  obtain g0 G0 where G: "G = g0 # G0" using Cons.prems(3) by (cases G) auto
  let ?s = "length A + length G"
  obtain g where g: "has_trivial_dtor t \<or> g = None"
    and m: "move_item t a (length A) ?s h = Some (set_slots a ((slots b)[length A := Some y, ?s := g]) h)"
    using move_item_ok [of h a b ?s y "length A" t] Cons.prems G by (auto simp: nth_append)
  have upd: "(slots b)[length A := Some y, ?s := g] = (A @ [Some y]) @ (G0 @ [g]) @ map Some ys @ R"
    using Cons.prems(2) by (simp add: G list_update_append)
  let ?h = "set_slots a ((A @ [Some y]) @ (G0 @ [g]) @ map Some ys @ R) h"
  have "\<exists>G'. length G' = length (G0 @ [g]) \<and> raw t G' \<and>
      move_backward_loop t a (length (A @ [Some y])) (length (A @ [Some y]) + length (G0 @ [g]))
        (length ys) ?h = Some (set_slots a ((A @ [Some y]) @ map Some ys @ G' @ R) ?h)"
    by (rule Cons.IH [of _ "b\<lparr>slots := (A @ [Some y]) @ (G0 @ [g]) @ map Some ys @ R\<rparr>"])
       (use Cons.prems g G in auto)
  then show ?case
    using m unfolding upd by (auto simp: G)
qed

lemma vacate_down:
  assumes "length G' = length G" "\<And>i. length ys + i < length G \<Longrightarrow> G' ! i = None"
  shows "vacate (length A) (length A + length G) (length ys) (A @ map Some ys @ G' @ R) =
    A @ map Some ys @ replicate (length G) None @ R"
  unfolding vacate_def using assms by (intro nth_equalityI) (auto simp: nth_append)

lemma memmove_backward_ok:
  assumes "bufs h a = Some b" "slots b = A @ G @ map Some ys @ R" "raw t G"
  shows "\<exists>G'. length G' = length G \<and> raw t G' \<and>
    memmove_items t a (length A) (length A + length G) (length ys) h =
    Some (set_slots a (A @ map Some ys @ G' @ R) h)"
proof -
  let ?G = "drop (length ys) (G @ map Some ys)"
  have bl: "blit (length A) (map Some ys) (slots b) = A @ map Some ys @ ?G @ R"
    using assms by (simp add: blit_def)
  have mv: "memmove_items t a (length A) (length A + length G) (length ys) h = Some (set_slots a
      ((if has_trivial_dtor t then id else vacate (length A) (length A + length G) (length ys))
        (A @ map Some ys @ ?G @ R)) h)"
    using memmove_items_eq [OF assms(1), of "length A + length G" "length ys" "length A" "map Some ys" t]
      assms(2) by (simp add: bl [simplified assms(2)])
  show ?thesis
  proof (cases "has_trivial_dtor t")
    case True
    then show ?thesis
      using mv by (intro exI [of _ ?G]) (simp add: raw_trivial)
  next
    case False
    have "length ?G = length G" by simp
    moreover have "?G ! i = None" if "length ys + i < length G" for i
    proof -
      have "G ! (length ys + i) \<in> {None}"
        using False assms(3) nth_mem [OF that] by (metis raw_def subsetD)
      then show ?thesis using that by (simp add: nth_append)
    qed
    ultimately have v: "vacate (length A) (length A + length G) (length ys) (A @ map Some ys @ ?G @ R) =
        A @ map Some ys @ replicate (length G) None @ R"
      by (rule vacate_down)
    show ?thesis
      by (intro exI [of _ "replicate (length G) None"])
         (simp only: mv v False if_False length_replicate raw_simps simp_thms)
  qed
qed

lemma move_backward_type_ok:
  assumes "bufs h a = Some b" "slots b = A @ G @ map Some ys @ R" "0 < length G" "raw t G"
  shows "\<exists>G'. length G' = length G \<and> raw t G' \<and>
    move_backward_type t a (length A) (length A + length G) (length ys) h =
    Some (set_slots a (A @ map Some ys @ G' @ R) h)"
  using move_backward_loop_ok [OF assms] memmove_backward_ok [OF assms(1,2,4)]
  by (auto simp: move_backward_type_def)

end
