(* ===== verification/Vector_Impl.thy ===== *)
theory Vector_Impl
  imports Shared_Buffer
begin

text \<open>
  \<^verbatim>\<open>VectorImpl\<close> (\<^verbatim>\<open>VectorImpl.cpp\<close>), the copy-on-write array behind \<^verbatim>\<open>Vector<TYPE>\<close>.  A vector
  object is the record \<^verbatim>\<open>vec\<close>; the heap of blocks is passed explicitly, so that vectors that
  share a block share its address.  The item type (\<^verbatim>\<open>'a item_type\<close>) stands for the virtual
  functions \<^verbatim>\<open>do_copy\<close>, \<^verbatim>\<open>do_destroy\<close>, ..., which call the loops of \<^verbatim>\<open>TypeHelpers.h\<close>.

  The checked arithmetic of the library \<^verbatim>\<open>safe_iop\<close> is the parameter \<^verbatim>\<open>I\<close>; its documented
  behaviour is \<^verbatim>\<open>safe_iop_ok\<close>.  \<^verbatim>\<open>LOG_ALWAYS_FATAL_IF\<close> aborts, which is \<^term>\<open>None\<close>; \<^verbatim>\<open>ALOG_ASSERT\<close>
  is empty in release builds.  Items are given by pointers (\<^verbatim>\<open>'a ptr\<close>), since they may point
  into the vector that is being changed.
\<close>

section \<open>Parameters and objects\<close>

record safe_iop =
  safe_add :: "u64 \<Rightarrow> u64 \<Rightarrow> u64 option"
  safe_sub :: "u64 \<Rightarrow> u64 \<Rightarrow> u64 option"
  safe_mul :: "u64 \<Rightarrow> u64 \<Rightarrow> u64 option"

definition safe_iop_ok :: "safe_iop \<Rightarrow> bool" where
  "safe_iop_ok I \<longleftrightarrow>
     (\<forall>a b. safe_add I a b = (if unat a + unat b < 2 ^ 64 then Some (a + b) else None)) \<and>
     (\<forall>a b. safe_sub I a b = (if b \<le> a then Some (a - b) else None)) \<and>
     (\<forall>a b. safe_mul I a b = (if unat a * unat b < 2 ^ 64 then Some (a * b) else None))"

abbreviation (input) NO_MEMORY :: int where "NO_MEMORY \<equiv> - ENOMEM"
abbreviation (input) BAD_VALUE :: int where "BAD_VALUE \<equiv> - EINVAL"
abbreviation (input) NAME_NOT_FOUND :: int where "NAME_NOT_FOUND \<equiv> - ENOENT"
abbreviation (input) BAD_INDEX :: int where "BAD_INDEX \<equiv> - 75"
abbreviation (input) NO_ERROR :: int where "NO_ERROR \<equiv> 0"

definition HAS_TRIVIAL_CTOR :: u32 where "HAS_TRIVIAL_CTOR = 1"
definition HAS_TRIVIAL_DTOR :: u32 where "HAS_TRIVIAL_DTOR = 2"
definition HAS_TRIVIAL_COPY :: u32 where "HAS_TRIVIAL_COPY = 4"

definition kMinVectorCapacity :: u64 where
  "kMinVectorCapacity = 4"

record vec =
  mStorage :: "nat option"
  mCount :: u64
  mFlags :: u32
  mItemSize :: u64

definition VectorImpl :: "u64 \<Rightarrow> u32 \<Rightarrow> vec" where
  "VectorImpl itemSize flags =
     \<lparr>mStorage = None, mCount = 0, mFlags = flags, mItemSize = itemSize\<rparr>"

definition type_flags :: "'a item_type \<Rightarrow> u32" where
  "type_flags t =
     (if has_trivial_ctor t then HAS_TRIVIAL_CTOR else 0) OR
     (if has_trivial_dtor t then HAS_TRIVIAL_DTOR else 0) OR
     (if has_trivial_copy t then HAS_TRIVIAL_COPY else 0)"

definition Vector :: "'a item_type \<Rightarrow> vec" where
  "Vector t = VectorImpl (sizeof t) (type_flags t)"

section \<open>Items in the storage\<close>

definition do_construct :: "'a item_type \<Rightarrow> vec \<Rightarrow> nat \<Rightarrow> nat \<Rightarrow> nat \<Rightarrow> 'a vheap \<Rightarrow> 'a vheap option" where
  "do_construct t v a p n h =
     (if mFlags v AND HAS_TRIVIAL_CTOR = 0 then construct_type t a p n h else Some h)"

definition do_destroy :: "'a item_type \<Rightarrow> vec \<Rightarrow> nat \<Rightarrow> nat \<Rightarrow> nat \<Rightarrow> 'a vheap \<Rightarrow> 'a vheap option" where
  "do_destroy t v a p n h =
     (if mFlags v AND HAS_TRIVIAL_DTOR = 0 then destroy_type t a p n h else Some h)"

definition do_copy :: "'a item_type \<Rightarrow> vec \<Rightarrow> nat \<Rightarrow> nat \<Rightarrow> 'a ptr \<Rightarrow> nat \<Rightarrow> 'a vheap \<Rightarrow> 'a vheap option" where
  "do_copy t v a d s n h =
     (if mFlags v AND HAS_TRIVIAL_COPY = 0 then copy_type t a d s n h else memcpy_items a d s n h)"

definition capacity :: "vec \<Rightarrow> 'a vheap \<Rightarrow> u64 option" where
  "capacity v h = (case mStorage v of None \<Rightarrow> Some 0
     | Some a \<Rightarrow> do { b \<leftarrow> bufs h a; Some (mSize b div mItemSize v) })"

definition release_storage :: "'a item_type \<Rightarrow> vec \<Rightarrow> 'a vheap \<Rightarrow> 'a vheap option" where
  "release_storage t v h = (case mStorage v of None \<Rightarrow> Some h
     | Some a \<Rightarrow> do {
         (h, prev) \<leftarrow> sb_release a True h;
         if prev = 1 then do {
           h \<leftarrow> do_destroy t v a 0 (unat (mCount v)) h;
           (h, _) \<leftarrow> sb_dealloc a h;
           Some h }
         else Some h })"

definition finish_vector :: "'a item_type \<Rightarrow> vec \<Rightarrow> 'a vheap \<Rightarrow> ('a vheap \<times> vec) option" where
  "finish_vector t v h = do {
     h \<leftarrow> release_storage t v h;
     Some (h, v\<lparr>mStorage := None, mCount := 0\<rparr>) }"

definition VectorImpl_copy :: "vec \<Rightarrow> 'a vheap \<Rightarrow> ('a vheap \<times> vec) option" where
  "VectorImpl_copy rhs h = (case mStorage rhs of None \<Rightarrow> Some (h, rhs)
     | Some a \<Rightarrow> do { h \<leftarrow> sb_acquire a h; Some (h, rhs) })"

text \<open>The argument \<^verbatim>\<open>self\<close> says that both sides of the assignment are the same object.\<close>

definition VectorImpl_assign ::
  "'a item_type \<Rightarrow> bool \<Rightarrow> vec \<Rightarrow> vec \<Rightarrow> 'a vheap \<Rightarrow> ('a vheap \<times> vec) option" where
  "VectorImpl_assign t self v rhs h =
     (if mItemSize v \<noteq> mItemSize rhs then None
      else if self then Some (h, v)
      else do {
        h \<leftarrow> release_storage t v h;
        if mCount rhs \<noteq> 0 then do {
          a \<leftarrow> mStorage rhs;
          h \<leftarrow> sb_acquire a h;
          Some (h, v\<lparr>mStorage := Some a, mCount := mCount rhs\<rparr>) }
        else Some (h, v\<lparr>mStorage := None, mCount := 0\<rparr>) })"

definition editArrayImpl :: "'a item_type \<Rightarrow> vec \<Rightarrow> 'a vheap \<Rightarrow> ('a vheap \<times> vec) option" where
  "editArrayImpl t v h = (case mStorage v of None \<Rightarrow> Some (h, v)
     | Some a \<Rightarrow> do {
         e \<leftarrow> sb_attemptEdit a h;
         case e of Some _ \<Rightarrow> Some (h, v)
         | None \<Rightarrow> do {
             b \<leftarrow> bufs h a;
             (h, r) \<leftarrow> sb_alloc (mItemSize v) (mSize b) h;
             a' \<leftarrow> r;
             h \<leftarrow> do_copy t v a' 0 (Slot (Some a) 0) (unat (mCount v)) h;
             h \<leftarrow> release_storage t v h;
             Some (h, v\<lparr>mStorage := Some a'\<rparr>) } })"

definition itemLocation :: "vec \<Rightarrow> u64 \<Rightarrow> 'a vheap \<Rightarrow> 'a ptr option option" where
  "itemLocation v index h = do {
     c \<leftarrow> capacity v h;
     Some (if index < c \<and> mStorage v \<noteq> None then Some (Slot (mStorage v) (unat index)) else None) }"

definition editItemLocation ::
  "'a item_type \<Rightarrow> vec \<Rightarrow> u64 \<Rightarrow> 'a vheap \<Rightarrow> ('a vheap \<times> vec \<times> nat option) option" where
  "editItemLocation t v index h = do {
     c \<leftarrow> capacity v h;
     if index < c then do {
       (h, v) \<leftarrow> editArrayImpl t v h;
       Some (h, v, mStorage v) }
     else Some (h, v, None) }"

section \<open>Growing and shrinking\<close>

definition grow_capacity :: "safe_iop \<Rightarrow> u64 \<Rightarrow> u64 option" where
  "grow_capacity I new_size = do {
     c \<leftarrow> safe_add I new_size (new_size div 2);
     c \<leftarrow> safe_add I c 1;
     Some (max kMinVectorCapacity c) }"

definition moves_block :: "vec \<Rightarrow> bool" where
  "moves_block v \<longleftrightarrow> mFlags v AND HAS_TRIVIAL_COPY \<noteq> 0 \<and> mFlags v AND HAS_TRIVIAL_DTOR \<noteq> 0"

definition copy_around ::
  "'a item_type \<Rightarrow> vec \<Rightarrow> nat \<Rightarrow> u64 \<Rightarrow> u64 \<Rightarrow> u64 \<Rightarrow> u64 \<Rightarrow> 'a vheap \<Rightarrow> 'a vheap option" where
  "copy_around t v a' where dest from n h = do {
     h \<leftarrow> (if where \<noteq> 0 then do_copy t v a' 0 (Slot (mStorage v) 0) (unat where) h else Some h);
     (if n \<noteq> 0 then do_copy t v a' (unat dest) (Slot (mStorage v) (unat from)) (unat n) h
      else Some h) }"

definition grow_storage ::
  "safe_iop \<Rightarrow> 'a item_type \<Rightarrow> vec \<Rightarrow> u64 \<Rightarrow> u64 \<Rightarrow> u64 \<Rightarrow> 'a vheap \<Rightarrow> ('a vheap \<times> vec option) option"
where
  "grow_storage I t v where amount new_size h = do {
     c \<leftarrow> capacity v h;
     if c < new_size then do {
       new_capacity \<leftarrow> grow_capacity I new_size;
       new_alloc_size \<leftarrow> safe_mul I new_capacity (mItemSize v);
       if mStorage v \<noteq> None \<and> mCount v = where \<and> moves_block v then do {
         a \<leftarrow> mStorage v;
         (h, r) \<leftarrow> sb_editResize (mItemSize v) new_alloc_size a h;
         Some (h, map_option (\<lambda>a'. v\<lparr>mStorage := Some a'\<rparr>) r) }
       else do {
         (h, r) \<leftarrow> sb_alloc (mItemSize v) new_alloc_size h;
         case r of None \<Rightarrow> Some (h, None)
         | Some a' \<Rightarrow> do {
             h \<leftarrow> copy_around t v a' where (where + amount) where (mCount v - where) h;
             h \<leftarrow> release_storage t v h;
             Some (h, Some (v\<lparr>mStorage := Some a'\<rparr>)) } } }
     else do {
       (h, v) \<leftarrow> editArrayImpl t v h;
       h \<leftarrow> (if where \<noteq> mCount v then do {
           a \<leftarrow> mStorage v;
           move_forward_type t a (unat (where + amount)) (unat where) (unat (mCount v - where)) h }
         else Some h);
       Some (h, Some v) } }"

definition grow ::
  "safe_iop \<Rightarrow> 'a item_type \<Rightarrow> vec \<Rightarrow> u64 \<Rightarrow> u64 \<Rightarrow> 'a vheap \<Rightarrow> ('a vheap \<times> vec \<times> 'a ptr option) option"
where
  "grow I t v where amount h = do {
     new_size \<leftarrow> safe_add I (mCount v) amount;
     (h, r) \<leftarrow> grow_storage I t v where amount new_size h;
     case r of None \<Rightarrow> Some (h, v, None)
     | Some v \<Rightarrow> do {
         let v = v\<lparr>mCount := new_size\<rparr>;
         free_space \<leftarrow> itemLocation v where h;
         Some (h, v, free_space) } }"

definition shrink ::
  "safe_iop \<Rightarrow> 'a item_type \<Rightarrow> vec \<Rightarrow> u64 \<Rightarrow> u64 \<Rightarrow> 'a vheap \<Rightarrow> ('a vheap \<times> vec) option" where
  "shrink I t v where amount h = (case mStorage v of None \<Rightarrow> Some (h, v)
     | Some a \<Rightarrow> do {
         new_size \<leftarrow> safe_sub I (mCount v) amount;
         c \<leftarrow> capacity v h;
         if new_size < c div 2 then do {
           let new_capacity = max kMinVectorCapacity (new_size * 2);
           if where = new_size \<and> moves_block v then do {
             (h, r) \<leftarrow> sb_editResize (mItemSize v) (new_capacity * mItemSize v) a h;
             case r of None \<Rightarrow> Some (h, v)
             | Some a' \<Rightarrow> Some (h, v\<lparr>mStorage := Some a', mCount := new_size\<rparr>) }
           else do {
             (h, r) \<leftarrow> sb_alloc (mItemSize v) (new_capacity * mItemSize v) h;
             case r of None \<Rightarrow> Some (h, v)
             | Some a' \<Rightarrow> do {
                 h \<leftarrow> copy_around t v a' where where (where + amount) (new_size - where) h;
                 h \<leftarrow> release_storage t v h;
                 Some (h, v\<lparr>mStorage := Some a', mCount := new_size\<rparr>) } } }
         else do {
           (h, v) \<leftarrow> editArrayImpl t v h;
           a \<leftarrow> mStorage v;
           h \<leftarrow> do_destroy t v a (unat where) (unat amount) h;
           h \<leftarrow> (if where \<noteq> new_size
             then move_backward_type t a (unat where) (unat (where + amount)) (unat (new_size - where)) h
             else Some h);
           Some (h, v\<lparr>mCount := new_size\<rparr>) } })"

definition setCapacity ::
  "safe_iop \<Rightarrow> 'a item_type \<Rightarrow> vec \<Rightarrow> u64 \<Rightarrow> 'a vheap \<Rightarrow> ('a vheap \<times> vec \<times> int) option" where
  "setCapacity I t v new_capacity h =
     (if new_capacity \<le> mCount v then do { c \<leftarrow> capacity v h; Some (h, v, sint c) }
      else do {
        new_allocation_size \<leftarrow> safe_mul I new_capacity (mItemSize v);
        (h, r) \<leftarrow> sb_alloc (mItemSize v) new_allocation_size h;
        case r of None \<Rightarrow> Some (h, v, NO_MEMORY)
        | Some a' \<Rightarrow> do {
            h \<leftarrow> do_copy t v a' 0 (Slot (mStorage v) 0) (unat (mCount v)) h;
            h \<leftarrow> release_storage t v h;
            Some (h, v\<lparr>mStorage := Some a'\<rparr>, sint new_capacity) } })"

section \<open>Insertion, replacement and removal\<close>

definition insertArrayAt ::
  "safe_iop \<Rightarrow> 'a item_type \<Rightarrow> vec \<Rightarrow> 'a ptr \<Rightarrow> u64 \<Rightarrow> u64 \<Rightarrow> 'a vheap \<Rightarrow> ('a vheap \<times> vec \<times> int) option"
where
  "insertArrayAt I t v array index len h =
     (if mCount v < index then Some (h, v, BAD_INDEX)
      else do {
        (h, v, w) \<leftarrow> grow I t v index len h;
        case w of Some (Slot (Some a) i) \<Rightarrow> do {
            h \<leftarrow> do_copy t v a i array (unat len) h;
            Some (h, v, sint index) }
        | _ \<Rightarrow> Some (h, v, NO_MEMORY) })"

definition insertAt ::
  "safe_iop \<Rightarrow> 'a item_type \<Rightarrow> vec \<Rightarrow> 'a ptr option \<Rightarrow> u64 \<Rightarrow> u64 \<Rightarrow> 'a vheap \<Rightarrow>
   ('a vheap \<times> vec \<times> int) option"
where
  "insertAt I t v item index numItems h =
     (if mCount v < index then Some (h, v, BAD_INDEX)
      else do {
        (h, v, w) \<leftarrow> grow I t v index numItems h;
        case w of Some (Slot (Some a) i) \<Rightarrow> do {
            h \<leftarrow> (case item of
                Some p \<Rightarrow> splat_type t a i p (unat numItems) h
              | None \<Rightarrow> do_construct t v a i (unat numItems) h);
            Some (h, v, sint index) }
        | _ \<Rightarrow> Some (h, v, NO_MEMORY) })"

definition insertVectorAt ::
  "safe_iop \<Rightarrow> 'a item_type \<Rightarrow> vec \<Rightarrow> vec \<Rightarrow> u64 \<Rightarrow> 'a vheap \<Rightarrow> ('a vheap \<times> vec \<times> int) option" where
  "insertVectorAt I t v vector index h =
     insertArrayAt I t v (Slot (mStorage vector) 0) index (mCount vector) h"

definition appendVector ::
  "safe_iop \<Rightarrow> 'a item_type \<Rightarrow> vec \<Rightarrow> vec \<Rightarrow> 'a vheap \<Rightarrow> ('a vheap \<times> vec \<times> int) option" where
  "appendVector I t v vector h = insertVectorAt I t v vector (mCount v) h"

definition appendArray ::
  "safe_iop \<Rightarrow> 'a item_type \<Rightarrow> vec \<Rightarrow> 'a ptr \<Rightarrow> u64 \<Rightarrow> 'a vheap \<Rightarrow> ('a vheap \<times> vec \<times> int) option" where
  "appendArray I t v array len h = insertArrayAt I t v array (mCount v) len h"

definition vec_add ::
  "safe_iop \<Rightarrow> 'a item_type \<Rightarrow> vec \<Rightarrow> 'a ptr option \<Rightarrow> 'a vheap \<Rightarrow> ('a vheap \<times> vec \<times> int) option" where
  "vec_add I t v item h = insertAt I t v item (mCount v) 1 h"

definition vec_push ::
  "safe_iop \<Rightarrow> 'a item_type \<Rightarrow> vec \<Rightarrow> 'a ptr option \<Rightarrow> 'a vheap \<Rightarrow> ('a vheap \<times> vec) option" where
  "vec_push I t v item h = do {
     (h, v, _) \<leftarrow> insertAt I t v item (mCount v) 1 h;
     Some (h, v) }"

definition replaceAt ::
  "'a item_type \<Rightarrow> vec \<Rightarrow> 'a ptr option \<Rightarrow> u64 \<Rightarrow> 'a vheap \<Rightarrow> ('a vheap \<times> vec \<times> int) option" where
  "replaceAt t v prototype index h =
     (if mCount v \<le> index then Some (h, v, BAD_INDEX)
      else do {
        (h, v, item) \<leftarrow> editItemLocation t v index h;
        case item of None \<Rightarrow> Some (h, v, if prototype = None then sint index else NO_MEMORY)
        | Some a \<Rightarrow>
            if prototype = Some (Slot (Some a) (unat index)) then Some (h, v, sint index)
            else do {
              h \<leftarrow> do_destroy t v a (unat index) 1 h;
              h \<leftarrow> (case prototype of
                  None \<Rightarrow> do_construct t v a (unat index) 1 h
                | Some p \<Rightarrow> do_copy t v a (unat index) p 1 h);
              Some (h, v, sint index) } })"

definition removeItemsAt ::
  "safe_iop \<Rightarrow> 'a item_type \<Rightarrow> vec \<Rightarrow> u64 \<Rightarrow> u64 \<Rightarrow> 'a vheap \<Rightarrow> ('a vheap \<times> vec \<times> int) option" where
  "removeItemsAt I t v index count h =
     (if mCount v < index + count then Some (h, v, BAD_VALUE)
      else do {
        (h, v) \<leftarrow> shrink I t v index count h;
        Some (h, v, sint index) })"

definition vec_pop :: "safe_iop \<Rightarrow> 'a item_type \<Rightarrow> vec \<Rightarrow> 'a vheap \<Rightarrow> ('a vheap \<times> vec) option" where
  "vec_pop I t v h =
     (if mCount v \<noteq> 0 then do {
        (h, v, _) \<leftarrow> removeItemsAt I t v (mCount v - 1) 1 h;
        Some (h, v) }
      else Some (h, v))"

definition vec_clear :: "safe_iop \<Rightarrow> 'a item_type \<Rightarrow> vec \<Rightarrow> 'a vheap \<Rightarrow> ('a vheap \<times> vec) option" where
  "vec_clear I t v h = shrink I t v 0 (mCount v) h"

definition vec_resize ::
  "safe_iop \<Rightarrow> 'a item_type \<Rightarrow> vec \<Rightarrow> u64 \<Rightarrow> 'a vheap \<Rightarrow> ('a vheap \<times> vec \<times> int) option" where
  "vec_resize I t v sz h = do {
     (h, v, result) \<leftarrow>
       (if mCount v < sz then insertAt I t v None (mCount v) (sz - mCount v) h
        else if sz < mCount v then removeItemsAt I t v sz (mCount v - sz) h
        else Some (h, v, NO_ERROR));
     Some (h, v, if result < 0 then result else sint sz) }"

section \<open>Sorting\<close>

fun shift_loop ::
  "'a item_type \<Rightarrow> ('a \<Rightarrow> 'a \<Rightarrow> int) \<Rightarrow> vec \<Rightarrow> nat \<Rightarrow> 'a \<Rightarrow> nat \<Rightarrow> 'a vheap \<Rightarrow> ('a vheap \<times> nat) option"
where
  "shift_loop t cmp v a temp 0 h = do {
     h \<leftarrow> do_destroy t v a 1 1 h;
     h \<leftarrow> do_copy t v a 1 (Slot (Some a) 0) 1 h;
     Some (h, 0) }"
| "shift_loop t cmp v a temp (Suc j) h = do {
     h \<leftarrow> do_destroy t v a (Suc (Suc j)) 1 h;
     h \<leftarrow> do_copy t v a (Suc (Suc j)) (Slot (Some a) (Suc j)) 1 h;
     curr \<leftarrow> read_item h (Slot (Some a) j);
     if cmp curr temp > 0 then shift_loop t cmp v a temp j h else Some (h, Suc j) }"

text \<open>
  One item that is smaller than its predecessor is put in its place.  The copy of an item in
  \<^verbatim>\<open>temp\<close> is the value \<^verbatim>\<open>temp\<close>, \<^term>\<open>None\<close> as long as the pointer is null; it stays null when
  memory runs out.
\<close>

definition sort_item ::
  "'a item_type \<Rightarrow> ('a \<Rightarrow> 'a \<Rightarrow> int) \<Rightarrow> nat \<Rightarrow> vec \<Rightarrow> 'a option \<Rightarrow> 'a vheap \<Rightarrow>
   ('a vheap \<times> vec \<times> 'a option) option"
where
  "sort_item t cmp i v temp h = do {
     (h, v) \<leftarrow> (if temp = None then editArrayImpl t v h else Some (h, v));
     if temp = None \<and> mStorage v = None then Some (h, v, None)
     else if temp = None \<and> \<not> malloc_ok h then Some (malloc_next h, v, None)
     else do {
       let h = (if temp = None then malloc_next h else h);
       a \<leftarrow> mStorage v;
       temp \<leftarrow> read_item h (Slot (Some a) i);
       (h, next) \<leftarrow> shift_loop t cmp v a temp (i - 1) h;
       h \<leftarrow> do_destroy t v a next 1 h;
       h \<leftarrow> do_copy t v a next (Ext [temp]) 1 h;
       Some (h, v, Some temp) } }"

text \<open>The argument \<^term>\<open>k\<close> counts the iterations that are left: \<^verbatim>\<open>count - i\<close>.\<close>

fun sort_loop ::
  "'a item_type \<Rightarrow> ('a \<Rightarrow> 'a \<Rightarrow> int) \<Rightarrow> nat \<Rightarrow> nat \<Rightarrow> vec \<Rightarrow> 'a option \<Rightarrow> 'a vheap \<Rightarrow>
   ('a vheap \<times> vec \<times> int) option"
where
  "sort_loop t cmp 0 i v temp h = Some (h, v, NO_ERROR)"
| "sort_loop t cmp (Suc k) i v temp h = do {
     item \<leftarrow> read_item h (Slot (mStorage v) i);
     curr \<leftarrow> read_item h (Slot (mStorage v) (i - 1));
     if cmp curr item > 0 then do {
       (h, v, temp) \<leftarrow> sort_item t cmp i v temp h;
       if temp = None then Some (h, v, NO_MEMORY) else sort_loop t cmp k (Suc i) v temp h }
     else sort_loop t cmp k (Suc i) v temp h }"

definition vec_sort ::
  "'a item_type \<Rightarrow> ('a \<Rightarrow> 'a \<Rightarrow> int) \<Rightarrow> vec \<Rightarrow> 'a vheap \<Rightarrow> ('a vheap \<times> vec \<times> int) option" where
  "vec_sort t cmp v h =
     (if 1 < sint (mCount v) then sort_loop t cmp (unat (mCount v) - 1) 1 v None h
      else Some (h, v, NO_ERROR))"

section \<open>Element access\<close>

definition itemAt :: "vec \<Rightarrow> u64 \<Rightarrow> 'a vheap \<Rightarrow> 'a option" where
  "itemAt v index h = read_item h (Slot (mStorage v) (unat index))"

definition vec_top :: "vec \<Rightarrow> 'a vheap \<Rightarrow> 'a option" where
  "vec_top v h = read_item h (Slot (mStorage v) (unat (mCount v - 1)))"

definition vec_isEmpty :: "vec \<Rightarrow> bool" where
  "vec_isEmpty v \<longleftrightarrow> mCount v = 0"

end
