(* ===== verification/Vector_Refine.thy ===== *)
theory Vector_Refine
  imports Vector_Impl
begin

text \<open>
  Vectors as lists of values: any number of vectors whose storage may be shared behave as
  independent lists.  The invariant \<^verbatim>\<open>heap_ok\<close> counts the references to every block; each
  operation on one vector is shown to keep it and to leave the items of all others alone.

  The operations are followed by the rule \<^verbatim>\<open>wp\<close>: an execution that ends satisfies the
  postcondition, and with the flag of the rule set it does end.  Operations that
  report every failed allocation have the rule with the flag; \<^verbatim>\<open>editArrayImpl\<close>, which aborts on
  one, has it when no allocation is needed or the next one succeeds.
\<close>

section \<open>The invariant\<close>

definition refcount :: "vec list \<Rightarrow> nat \<Rightarrow> nat" where
  "refcount vs a = count_list (map mStorage vs) (Some a)"

definition stores :: "'a item_type \<Rightarrow> 'a option list \<Rightarrow> 'a list \<Rightarrow> bool" where
  "stores t ss xs \<longleftrightarrow> (\<exists>R. ss = map Some xs @ R \<and> raw t R)"

definition vec_typed :: "'a item_type \<Rightarrow> vec \<Rightarrow> bool" where
  "vec_typed t v \<longleftrightarrow> mFlags v = type_flags t \<and> mItemSize v = sizeof t"

definition vec_ok :: "'a item_type \<Rightarrow> 'a vheap \<Rightarrow> vec \<Rightarrow> 'a list \<Rightarrow> bool" where
  "vec_ok t h v xs \<longleftrightarrow> vec_typed t v \<and> unat (mCount v) = length xs \<and>
     (case mStorage v of None \<Rightarrow> xs = []
      | Some a \<Rightarrow> \<exists>b. bufs h a = Some b \<and> stores t (slots b) xs)"

definition buf_ok :: "'a item_type \<Rightarrow> vec list \<Rightarrow> nat \<Rightarrow> 'a shared_buffer \<Rightarrow> bool" where
  "buf_ok t vs a b \<longleftrightarrow> mRefs b = of_nat (refcount vs a) \<and> 0 < refcount vs a \<and>
     unat (mSize b) = length (slots b) * unat (sizeof t) \<and>
     length (slots b) * unat (sizeof t) + 25 < 2 ^ 64"

definition heap_ok :: "'a item_type \<Rightarrow> 'a vheap \<Rightarrow> vec list \<Rightarrow> bool" where
  "heap_ok t h vs \<longleftrightarrow> 0 < sizeof t \<and> (\<forall>a \<ge> fresh h. bufs h a = None \<and> refcount vs a = 0) \<and>
     (\<forall>a b. bufs h a = Some b \<longrightarrow> buf_ok t vs a b)"

definition keeps :: "'a vheap \<Rightarrow> 'a vheap \<Rightarrow> vec list \<Rightarrow> bool" where
  "keeps h h' ws \<longleftrightarrow>
     (\<forall>a. 0 < refcount ws a \<longrightarrow> map_option slots (bufs h' a) = map_option slots (bufs h a))"

definition no_fail :: "'a vheap \<Rightarrow> bool" where
  "no_fail h \<longleftrightarrow> False \<notin> set (av h)"

definition live :: "'a item_type \<Rightarrow> bool \<Rightarrow> 'a vheap \<Rightarrow> vec list \<Rightarrow> vec \<Rightarrow> 'a vheap \<Rightarrow> bool" where
  "live t nf h0 ws v h \<longleftrightarrow> heap_ok t h (v # ws) \<and> keeps h0 h ws \<and> (nf \<longrightarrow> no_fail h) \<and>
     length ws + 2 < 2 ^ 32"

definition owned :: "vec list \<Rightarrow> vec \<Rightarrow> bool" where
  "owned ws v \<longleftrightarrow> (\<forall>a. mStorage v = Some a \<longrightarrow> refcount ws a = 0)"

definition wp :: "bool \<Rightarrow> 'r option \<Rightarrow> ('r \<Rightarrow> bool) \<Rightarrow> bool" where
  "wp tot res P \<longleftrightarrow> (case res of None \<Rightarrow> \<not> tot | Some r \<Rightarrow> P r)"

lemma wp_simps [simp]: "wp tot (Some r) P = P r" "wp tot None P = (\<not> tot)"
  by (simp_all add: wp_def)

lemma wp_bind: "wp tot m P \<Longrightarrow> (\<And>x. P x \<Longrightarrow> wp tot (f x) Q) \<Longrightarrow> wp tot (m \<bind> f) Q"
  by (cases m) auto

lemma wp_mono: "wp tot m P \<Longrightarrow> (\<And>x. P x \<Longrightarrow> Q x) \<Longrightarrow> wp tot m Q"
  by (cases m) auto

lemma wp_total: "wp True m P \<Longrightarrow> wp tot m P"
  by (cases m) auto

lemmas wp_total_bind = wp_bind [OF wp_total]

section \<open>Counting references\<close>

lemma refcount_simps [simp]:
  "refcount [] a = 0"
  "refcount (v # vs) a = (if mStorage v = Some a then Suc (refcount vs a) else refcount vs a)"
  by (auto simp: refcount_def)

lemma refcount_le: "refcount vs a \<le> length vs"
  by (simp add: refcount_def) (metis count_le_length length_map)

lemma refcount_pos: "v \<in> set vs \<Longrightarrow> mStorage v = Some a \<Longrightarrow> 0 < refcount vs a"
  by (induction vs) auto

lemma heap_okD:
  assumes "heap_ok t h vs" "bufs h a = Some b"
  shows "buf_ok t vs a b" "a < fresh h"
proof -
  show "buf_ok t vs a b" using assms by (simp add: heap_ok_def)
  show "a < fresh h" using assms unfolding heap_ok_def by (metis linorder_not_le option.distinct(1))
qed

lemma heap_ok_cong: "(\<And>a. refcount vs a = refcount ws a) \<Longrightarrow> heap_ok t h vs = heap_ok t h ws"
  by (simp add: heap_ok_def buf_ok_def)

lemma heap_ok_swap: "heap_ok t h (v # w # ws) = heap_ok t h (w # v # ws)"
  by (rule heap_ok_cong) simp

lemma keeps_refl [simp]: "keeps h h ws"
  by (simp add: keeps_def)

lemma keeps_trans: "keeps h h1 ws \<Longrightarrow> keeps h1 h2 ws \<Longrightarrow> keeps h h2 ws"
  by (simp add: keeps_def)

lemma keeps_set_slots: "refcount ws a = 0 \<Longrightarrow> keeps h (set_slots a ss h) ws"
  by (auto simp: keeps_def)

lemma keepsD:
  assumes "keeps h h' ws" "0 < refcount ws a" "bufs h a = Some b"
  shows "\<exists>b'. bufs h' a = Some b' \<and> slots b' = slots b"
proof -
  have "map_option slots (bufs h' a) = Some (slots b)" using assms by (simp add: keeps_def)
  then show ?thesis by auto
qed

lemma vec_ok_keeps:
  assumes "vec_ok t h w ys" "w \<in> set ws" "keeps h h' ws"
  shows "vec_ok t h' w ys"
  using assms keepsD [OF assms(3) refcount_pos [OF assms(2)]]
  by (fastforce simp: vec_ok_def split: option.splits)

lemma malloc_next_simps [simp]:
  "bufs (malloc_next h) = bufs h" "fresh (malloc_next h) = fresh h"
  "heap_ok t (malloc_next h) vs = heap_ok t h vs" "vec_ok t (malloc_next h) v xs = vec_ok t h v xs"
  "keeps h0 (malloc_next h) ws = keeps h0 h ws"
  by (simp_all add: malloc_next_def heap_ok_def vec_ok_def keeps_def split: option.split)

lemma no_fail_next [simp]: "no_fail h \<Longrightarrow> no_fail (malloc_next h)"
  by (cases "av h") (auto simp: no_fail_def malloc_next_def)

lemma no_fail_set_slots [simp]: "no_fail (set_slots a ss h) = no_fail h"
  by (simp add: no_fail_def)

lemma no_fail_malloc: "no_fail h \<Longrightarrow> malloc_ok h"
  by (auto simp: no_fail_def malloc_ok_def split: list.split)

lemma heap_ok_set_slots:
  assumes "heap_ok t h vs" "bufs h a = Some b" "length ss = length (slots b)"
  shows "heap_ok t (set_slots a ss h) vs"
  using assms by (auto simp: heap_ok_def buf_ok_def)

section \<open>Flags and sizes\<close>

lemma type_flags_simps [simp]:
  "type_flags t AND HAS_TRIVIAL_CTOR = 0 \<longleftrightarrow> \<not> has_trivial_ctor t"
  "type_flags t AND HAS_TRIVIAL_DTOR = 0 \<longleftrightarrow> \<not> has_trivial_dtor t"
  "type_flags t AND HAS_TRIVIAL_COPY = 0 \<longleftrightarrow> \<not> has_trivial_copy t"
  by (auto simp: type_flags_def HAS_TRIVIAL_CTOR_def HAS_TRIVIAL_DTOR_def HAS_TRIVIAL_COPY_def)

lemma do_typed [simp]:
  assumes "vec_typed t v"
  shows "do_construct t v a p n h = construct_type t a p n h"
    and "do_destroy t v a p n h = destroy_type t a p n h"
    and "do_copy t v a d s n h = copy_type t a d s n h"
    and "moves_block v \<longleftrightarrow> has_trivial_copy t \<and> has_trivial_dtor t"
  using assms
  by (auto simp: vec_typed_def do_construct_def do_destroy_def do_copy_def moves_block_def
      construct_type_def destroy_type_def copy_type_def)

lemma vec_typed_upd [simp]:
  "vec_typed t (v\<lparr>mStorage := s\<rparr>) = vec_typed t v" "vec_typed t (v\<lparr>mCount := c\<rparr>) = vec_typed t v"
  by (simp_all add: vec_typed_def)

lemma vec_ok_typed: "vec_ok t h v xs \<Longrightarrow> vec_typed t v"
  by (simp add: vec_ok_def)

lemma buf_capacity:
  assumes "heap_ok t h vs" "bufs h a = Some b"
  shows "unat (mSize b div sizeof t) = length (slots b)"
proof -
  have "0 < unat (sizeof t)"
    using assms(1) by (simp add: heap_ok_def unat_gt_0 word_neq_0_conv)
  then show ?thesis
    using heap_okD(1) [OF assms] by (simp add: unat_div buf_ok_def)
qed

section \<open>Blocks\<close>

lemma sb_alloc_fail: "unat sz + 25 < 2 ^ 64 \<Longrightarrow> \<not> malloc_ok h \<Longrightarrow> sb_alloc isz sz h = Some (malloc_next h, None)"
  by (simp add: sb_alloc_def sizeof_SharedBuffer_def word_le_nat_alt)

lemma sb_alloc_eq:
  assumes "unat sz + 25 < 2 ^ 64" "malloc_ok h"
  shows "sb_alloc isz sz h = (let (h', a) = new_buf
      \<lparr>mRefs = 1, mSize = sz, slots = replicate (unat sz div unat isz) None\<rparr> (malloc_next h)
    in Some (h', Some a))"
  using assms by (simp add: sb_alloc_def sizeof_SharedBuffer_def word_le_nat_alt)

lemma heap_ok_new:
  assumes "heap_ok t h vs" "unat sz = n * unat (sizeof t)" "unat sz + 25 < 2 ^ 64" "length ss = n"
    and "new_buf \<lparr>mRefs = 1, mSize = sz, slots = ss\<rparr> h = (h', a)" "mStorage v = Some a"
  shows "a = fresh h" "heap_ok t h' (v # vs)" "bufs h' = (bufs h)(a \<mapsto> \<lparr>mRefs = 1, mSize = sz, slots = ss\<rparr>)"
    "av h' = av h" "refcount vs a = 0" "keeps h h' vs"
proof -
  show a: "a = fresh h" and b: "bufs h' = (bufs h)(a \<mapsto> \<lparr>mRefs = 1, mSize = sz, slots = ss\<rparr>)"
    and "av h' = av h"
    using assms(5) by (auto simp: new_buf_def)
  show r: "refcount vs a = 0" using assms(1) by (simp add: a heap_ok_def)
  have "fresh h' = Suc (fresh h)" using assms(5) by (auto simp: new_buf_def)
  then show "heap_ok t h' (v # vs)"
    using assms r by (auto simp: heap_ok_def buf_ok_def b a)
  show "keeps h h' vs"
    using r by (auto simp: keeps_def b)
qed

lemma sb_alloc_wp:
  assumes "live t nf h0 ws v h" "unat sz = n * unat (sizeof t)" "unat sz + 25 < 2 ^ 64"
  shows "wp True (sb_alloc (sizeof t) sz h) (\<lambda>(h', r). case r of
      None \<Rightarrow> \<not> malloc_ok h \<and> h' = malloc_next h
    | Some a \<Rightarrow> heap_ok t h' (v\<lparr>mStorage := Some a\<rparr> # v # ws) \<and> keeps h h' (v # ws) \<and>
        (nf \<longrightarrow> no_fail h') \<and> refcount (v # ws) a = 0 \<and>
        (\<exists>b. bufs h' a = Some b \<and> slots b = replicate n None))"
proof (cases "malloc_ok h")
  case False
  then show ?thesis using sb_alloc_fail [OF assms(3) False] by simp
next
  case True
  let ?b = "\<lparr>mRefs = 1, mSize = sz, slots = replicate n None\<rparr> :: 'a shared_buffer"
  have t: "heap_ok t (malloc_next h) (v # ws)" "nf \<longrightarrow> no_fail (malloc_next h)" "0 < unat (sizeof t)"
    using assms(1) by (auto simp: live_def heap_ok_def unat_gt_0 word_neq_0_conv)
  obtain h' a where n: "new_buf ?b (malloc_next h) = (h', a)" by fastforce
  note new = heap_ok_new [OF t(1) assms(2,3) length_replicate n, of "v\<lparr>mStorage := Some a\<rparr>"]
  have "sb_alloc (sizeof t) sz h = Some (h', Some a)"
    using sb_alloc_eq [OF assms(3) True, of "sizeof t"] assms(2) n t(3) by simp
  moreover have "keeps h h' (v # ws)" "nf \<longrightarrow> no_fail h'"
    using new t(2) by (auto simp: keeps_def no_fail_def)
  ultimately show ?thesis
    using new by simp
qed

lemma of_nat_is_one:
  assumes "k < 2 ^ 32"
  shows "(of_nat k :: u32) = 1 \<longleftrightarrow> k = 1"
proof -
  have "unat (of_nat k :: u32) = k"
    using assms by (simp add: unat_of_nat take_bit_nat_eq_self)
  then show ?thesis by (metis of_nat_1 unat_1)
qed

lemma release_ok:
  assumes "heap_ok t h (v # ws)" "vec_ok t h v xs" "length ws + 1 < 2 ^ 32"
  shows "\<exists>h'. release_storage t v h = Some h' \<and> heap_ok t h' ws \<and> keeps h h' ws \<and> av h' = av h"
proof (cases "mStorage v")
  case None
  have "heap_ok t h ws" using assms(1) heap_ok_cong [of "v # ws" ws t h] by (simp add: None)
  then show ?thesis by (simp add: release_storage_def None)
next
  case (Some a)
  obtain b R where b: "bufs h a = Some b" "slots b = map Some xs @ R"
    and v: "vec_typed t v" "unat (mCount v) = length xs"
    using assms(2) by (auto simp: vec_ok_def stores_def Some)
  have r: "mRefs b = of_nat (Suc (refcount ws a))"
    using heap_okD(1) [OF assms(1) b(1)] by (simp add: buf_ok_def Some)
  have le: "Suc (refcount ws a) < 2 ^ 32" using refcount_le [of ws a] assms(3) by simp
  show ?thesis
  proof (cases "refcount ws a = 0")
    case True
    let ?h = "put_buf a (b\<lparr>mRefs := 0\<rparr>) h"
    have "sb_release a True h = Some (?h, 1)"
      using b r True by (simp add: sb_release_def onlyOwner_def)
    moreover obtain G where "destroy_type t a 0 (length xs) ?h = Some (set_slots a (blit 0 G (slots b)) ?h)"
      using destroy_type_ok [of ?h a "b\<lparr>mRefs := 0\<rparr>" 0 xs t] b by (auto simp: put_buf_def)
    ultimately have "release_storage t v h = Some (free_buf a (set_slots a (blit 0 G (slots b)) ?h))"
      using v by (simp add: release_storage_def Some sb_dealloc_def put_buf_def)
    moreover have "heap_ok t (free_buf a (set_slots a (blit 0 G (slots b)) ?h)) ws"
      using assms(1) True by (auto simp: heap_ok_def free_buf_def put_buf_def Some buf_ok_def split: if_splits)
    ultimately show ?thesis
      using True by (auto simp: keeps_def free_buf_def put_buf_def)
  next
    case False
    let ?h = "put_buf a (b\<lparr>mRefs := of_nat (refcount ws a)\<rparr>) h"
    have "mRefs b \<noteq> 1" using of_nat_is_one [OF le] False r by simp
    then have "release_storage t v h = Some ?h"
      using b r by (simp add: release_storage_def Some sb_release_def onlyOwner_def)
    moreover have "heap_ok t ?h ws"
      using assms(1) b(1) False by (auto simp: heap_ok_def put_buf_def Some buf_ok_def split: if_splits)
    ultimately show ?thesis
      using b by (auto simp: keeps_def put_buf_def)
  qed
qed

lemma sb_release_ok:
  assumes "heap_ok t h (v # ws)" "mStorage v = Some a" "bufs h a = Some b" "length ws + 1 < 2 ^ 32"
  shows "\<exists>h' p. sb_release a False h = Some (h', p) \<and> heap_ok t h' ws \<and> keeps h h' ws \<and> av h' = av h"
proof -
  have r: "mRefs b = of_nat (Suc (refcount ws a))"
    using heap_okD(1) [OF assms(1,3)] by (simp add: buf_ok_def assms(2))
  have le: "Suc (refcount ws a) < 2 ^ 32" using refcount_le [of ws a] assms(4) by simp
  show ?thesis
  proof (cases "refcount ws a = 0")
    case True
    then have "sb_release a False h = Some (free_buf a h, 1)"
      using assms(3) r by (simp add: sb_release_def onlyOwner_def)
    moreover have "heap_ok t (free_buf a h) ws"
      using assms(1,2) True by (auto simp: heap_ok_def free_buf_def buf_ok_def split: if_splits)
    ultimately show ?thesis
      using True by (auto simp: keeps_def free_buf_def)
  next
    case False
    let ?h = "put_buf a (b\<lparr>mRefs := of_nat (refcount ws a)\<rparr>) h"
    have "mRefs b \<noteq> 1" using of_nat_is_one [OF le] False r by simp
    then have "sb_release a False h = Some (?h, mRefs b)"
      using assms(3) r by (simp add: sb_release_def onlyOwner_def)
    moreover have "heap_ok t ?h ws"
      using assms(1-3) False by (auto simp: heap_ok_def put_buf_def buf_ok_def split: if_splits)
    ultimately show ?thesis
      using assms(3) by (auto simp: keeps_def put_buf_def)
  qed
qed

section \<open>Moving a vector to a new block\<close>

lemma vec_reads:
  assumes "vec_ok t h v (A @ B @ C)"
  shows "reads h (Slot (mStorage v) (length A)) B"
  using assms by (auto simp: vec_ok_def stores_def reads_def split: option.splits)

lemma rehouse:
  assumes "heap_ok t h' (v\<lparr>mStorage := Some a\<rparr> # v # ws)" "keeps h h' (v # ws)"
    and "bufs h' a = Some b" "refcount (v # ws) a = 0" "vec_ok t h v xs"
    and "keeps h0 h ws" "nf \<longrightarrow> no_fail h'" "length ws + 2 < 2 ^ 32" "length ss = length (slots b)"
  shows "\<exists>h''. release_storage t v (set_slots a ss h') = Some h'' \<and>
    live t nf h0 ws (v\<lparr>mStorage := Some a\<rparr>) h'' \<and> refcount ws a = 0 \<and>
    (\<exists>b. bufs h'' a = Some b \<and> slots b = ss)"
proof -
  let ?v = "v\<lparr>mStorage := Some a\<rparr>" and ?h = "set_slots a ss h'"
  have r: "refcount ws a = 0" "mStorage v \<noteq> Some a" using assms(4) by (auto split: if_splits)
  have "heap_ok t ?h (v # ?v # ws)"
    using heap_ok_set_slots [OF assms(1,3,9)] heap_ok_swap by metis
  moreover have "vec_ok t ?h v xs"
    using vec_ok_keeps [OF assms(5) _ keeps_trans [OF assms(2) keeps_set_slots [OF assms(4)]]] by simp
  ultimately obtain h'' where h: "release_storage t v ?h = Some h''" "heap_ok t h'' (?v # ws)"
    "keeps ?h h'' (?v # ws)" "av h'' = av ?h"
    using release_ok [of t ?h v "?v # ws" xs] assms(8) by auto
  moreover have "\<exists>b. bufs h'' a = Some b \<and> slots b = ss"
    using keepsD [OF h(3), of a "b\<lparr>slots := ss\<rparr>"] assms(3) by auto
  moreover have "keeps h0 h'' ws"
  proof -
    have "keeps ?h h'' ws" "keeps h h' ws" "keeps h' ?h ws"
      using h(3) assms(2) r by (auto simp: keeps_def)
    then show ?thesis using assms(6) keeps_trans by metis
  qed
  ultimately show ?thesis
    using r assms(7,8) by (auto simp: live_def no_fail_def)
qed

lemma copy_around_ok:
  assumes "vec_ok t h v (A @ M @ B)" "bufs h a = Some b" "slots b = replicate n None"
    and "mStorage v \<noteq> Some a" "unat w = length A" "unat d = dn" "unat f = length A + length M"
    and "unat m = length B" "length A \<le> dn" "dn + length B \<le> n"
  shows "copy_around t v a w d f m h = Some (set_slots a (map Some A @ replicate (dn - length A) None @
    map Some B @ replicate (n - dn - length B) None) h)"
proof -
  have t: "vec_typed t v" using assms(1) by (rule vec_ok_typed)
  let ?s1 = "blit 0 (map Some A) (slots b)" and ?h1 = "set_slots a (blit 0 (map Some A) (slots b)) h"
  have s1: "?s1 = map Some A @ replicate (n - length A) None"
    using assms(3,9,10) by (simp add: blit_def)
  have out: "outside a (Slot (mStorage v) i :: 'a ptr)" for i
    using assms(4) by (cases "mStorage v") auto
  have A: "reads h (Slot (mStorage v) 0) A"
    using vec_reads [of t h v "[]" A "M @ B"] assms(1) by simp
  have B: "reads h (Slot (mStorage v) (length A + length M)) B"
    using vec_reads [of t h v "A @ M" B "[]"] assms(1) by simp
  have "copy_type t a 0 (Slot (mStorage v) 0) (length A) h = Some ?h1"
    using copy_type_ok [OF assms(2) A out, of 0 t] assms(3,9,10) by simp
  then have 1: "(if w \<noteq> 0 then do_copy t v a 0 (Slot (mStorage v) 0) (unat w) h else Some h) = Some ?h1"
    using t assms(5) assms(2) by (cases "w = 0") (auto simp: set_slots_same)
  have "copy_type t a dn (Slot (mStorage v) (length A + length M)) (length B) ?h1 =
      Some (set_slots a (blit dn (map Some B) ?s1) ?h1)"
    using copy_type_ok [of ?h1 a "b\<lparr>slots := ?s1\<rparr>" "Slot (mStorage v) (length A + length M)" B dn t]
      assms(2,9,10) B out by (simp add: s1)
  then have 2: "(if m \<noteq> 0 then do_copy t v a (unat d) (Slot (mStorage v) (unat f)) (unat m) ?h1
      else Some ?h1) = Some (set_slots a (blit dn (map Some B) ?s1) ?h1)"
    using t assms(6-8) by (cases "m = 0") (auto simp: set_slots_same)
  have "blit dn (map Some B) ?s1 = map Some A @ replicate (dn - length A) None @
      map Some B @ replicate (n - dn - length B) None"
    unfolding s1 using assms(9,10) by (simp add: blit_def)
  then show ?thesis
    using 1 2 by (simp add: copy_around_def)
qed

lemma new_block_wp:
  assumes l: "live t nf h0 ws v h" and v: "vec_ok t h v xs"
    and sz: "unat sz = n * unat (sizeof t)" "unat sz + 25 < 2 ^ 64"
    and f: "\<And>h1 a b. vec_ok t h1 v xs \<Longrightarrow> bufs h1 a = Some b \<Longrightarrow> slots b = replicate n None \<Longrightarrow>
      mStorage v \<noteq> Some a \<Longrightarrow> f a h1 = Some (set_slots a ss h1)"
    and ss: "length ss = n"
    and e: "\<not> malloc_ok h \<Longrightarrow> wp tot (e (malloc_next h)) Q"
    and k: "\<And>a h2 b2. live t nf h0 ws (v\<lparr>mStorage := Some a\<rparr>) h2 \<Longrightarrow> refcount ws a = 0 \<Longrightarrow>
      bufs h2 a = Some b2 \<Longrightarrow> slots b2 = ss \<Longrightarrow> wp tot (k a h2) Q"
  shows "wp tot (sb_alloc (sizeof t) sz h \<bind> (\<lambda>(h, r). case r of None \<Rightarrow> e h
    | Some a \<Rightarrow> f a h \<bind> (\<lambda>h. release_storage t v h \<bind> k a))) Q"
proof (rule wp_total_bind [OF sb_alloc_wp [OF l sz]], goal_cases)
  case (1 x)
  obtain h1 r where x: "x = (h1, r)" by (cases x)
  show ?case
  proof (cases r)
    case None
    then show ?thesis using 1 e by (simp add: x)
  next
    case (Some a)
    obtain b where a: "heap_ok t h1 (v\<lparr>mStorage := Some a\<rparr> # v # ws)" "keeps h h1 (v # ws)"
      "nf \<longrightarrow> no_fail h1" "refcount (v # ws) a = 0" "bufs h1 a = Some b" "slots b = replicate n None"
      using 1 by (auto simp: x Some)
    have "vec_ok t h1 v xs" using vec_ok_keeps [OF v _ a(2)] by simp
    then have "f a h1 = Some (set_slots a ss h1)"
      using f a(4-6) by (simp split: if_splits)
    moreover obtain h2 b2 where "release_storage t v (set_slots a ss h1) = Some h2"
      "live t nf h0 ws (v\<lparr>mStorage := Some a\<rparr>) h2" "refcount ws a = 0" "bufs h2 a = Some b2" "slots b2 = ss"
      using rehouse [OF a(1,2,5,4) v _ a(3), of h0 ss] l ss a(6) by (auto simp: live_def)
    ultimately show ?thesis
      using k by (simp add: x Some)
  qed
qed

lemma edit_wp:
  assumes "live t nf h0 ws v h" "vec_ok t h v xs" "tot \<longrightarrow> malloc_ok h \<or> owned ws v"
  shows "wp tot (editArrayImpl t v h) (\<lambda>(h', v'). live t nf h0 ws v' h' \<and> vec_ok t h' v' xs \<and>
    owned ws v' \<and> (mStorage v' = None \<longleftrightarrow> mStorage v = None) \<and> mCount v' = mCount v \<and>
    (\<forall>a b. mStorage v = Some a \<longrightarrow> bufs h a = Some b \<longrightarrow>
       (\<exists>a' b'. mStorage v' = Some a' \<and> bufs h' a' = Some b' \<and> length (slots b') = length (slots b))))"
proof (cases "mStorage v")
  case None
  then show ?thesis using assms by (simp add: editArrayImpl_def owned_def)
next
  case (Some a)
  obtain b where b: "bufs h a = Some b"
    using assms(2) by (auto simp: vec_ok_def Some)
  have t: "vec_typed t v" "unat (mCount v) = length xs" "length xs \<le> length (slots b)"
    using assms(2) b by (auto simp: vec_ok_def Some stores_def)
  have hp: "heap_ok t h (v # ws)" "keeps h0 h ws" "length ws + 2 < 2 ^ 32"
    using assms(1) by (auto simp: live_def)
  note bok = heap_okD(1) [OF hp(1) b]
  show ?thesis
  proof (cases "mRefs b = 1")
    case True
    then have "refcount ws a = 0"
      using bok of_nat_is_one [of "Suc (refcount ws a)"] refcount_le [of ws a] hp(3)
      by (simp add: buf_ok_def Some)
    then show ?thesis
      using assms True b by (simp add: editArrayImpl_def sb_attemptEdit_def onlyOwner_def Some owned_def)
  next
    case False
    then have "\<not> owned ws v"
      using bok of_nat_is_one [of "Suc (refcount ws a)"] refcount_le [of ws a] hp(3)
      by (auto simp: buf_ok_def Some owned_def)
    then have tot: "\<not> malloc_ok h \<Longrightarrow> \<not> tot" using assms(3) by simp
    have e: "editArrayImpl t v h = do {
        (h, r) \<leftarrow> sb_alloc (sizeof t) (mSize b) h;
        case r of None \<Rightarrow> None
        | Some a' \<Rightarrow> do {
            h \<leftarrow> do_copy t v a' 0 (Slot (Some a) 0) (unat (mCount v)) h;
            h \<leftarrow> release_storage t v h;
            Some (h, v\<lparr>mStorage := Some a'\<rparr>) } }"
      using b False t
      by (auto simp: editArrayImpl_def Some sb_attemptEdit_def onlyOwner_def vec_typed_def
          intro!: Option.bind_cong split: option.split)
    show ?thesis
      unfolding e
    proof (rule new_block_wp [OF assms(1,2), where ss = "map Some xs @ replicate (length (slots b) - length xs) None"])
      fix h1 a' b'
      assume a: "vec_ok t h1 v xs" "bufs h1 a' = Some b'" "slots b' = replicate (length (slots b)) None"
        "mStorage v \<noteq> Some a'"
      then show "do_copy t v a' 0 (Slot (Some a) 0) (unat (mCount v)) h1 =
          Some (set_slots a' (map Some xs @ replicate (length (slots b) - length xs) None) h1)"
        using copy_type_ok [OF a(2), of "Slot (Some a) 0" xs 0 t] vec_reads [of t h1 v "[]" xs "[]"] t
        by (simp add: Some blit_def)
    qed (use bok t b tot in \<open>auto simp: buf_ok_def owned_def vec_ok_def stores_def Some\<close>)
  qed
qed

lemma live_mCount [simp]: "live t nf h0 ws (v\<lparr>mCount := c\<rparr>) h = live t nf h0 ws v h"
proof -
  have "heap_ok t h (v\<lparr>mCount := c\<rparr> # ws) = heap_ok t h (v # ws)" by (rule heap_ok_cong) simp
  then show ?thesis by (simp add: live_def)
qed

lemma live_malloc_next: "live t nf h0 ws v h \<Longrightarrow> live t nf h0 ws v (malloc_next h)"
  by (simp add: live_def)

lemma live_malloc:
  assumes "live t nf h0 ws v h"
  shows "nf \<longrightarrow> malloc_ok h" "nf \<longrightarrow> malloc_ok h \<or> owned ws v"
  using assms no_fail_malloc by (auto simp: live_def)

lemma owner_refcount:
  assumes "live t nf h0 ws v h" "mStorage v = Some a" "bufs h a = Some b"
  shows "onlyOwner b \<longleftrightarrow> refcount ws a = 0"
proof -
  have l: "heap_ok t h (v # ws)" "length ws + 2 < 2 ^ 32" using assms(1) by (auto simp: live_def)
  show ?thesis
    using heap_okD(1) [OF l(1) assms(3)] of_nat_is_one [of "Suc (refcount ws a)"]
      refcount_le [of ws a] l(2) by (simp add: buf_ok_def assms(2) onlyOwner_def)
qed

lemma realloc_ok:
  assumes "live t nf h0 ws v h" "mStorage v = Some a" "bufs h a = Some b" "refcount ws a = 0"
    and "unat sz = n * unat (sizeof t)" "unat sz + 25 < 2 ^ 64" "length ss = n" "malloc_ok h"
    and "new_buf (b\<lparr>mSize := sz, slots := ss\<rparr>) (free_buf a (malloc_next h)) = (h', a')"
  shows "live t nf h0 ws (v\<lparr>mStorage := Some a'\<rparr>) h'" "refcount ws a' = 0"
    "\<exists>b'. bufs h' a' = Some b' \<and> slots b' = ss"
proof -
  let ?h = "free_buf a (malloc_next h)"
  have l: "heap_ok t h (v # ws)" "keeps h0 h ws" "nf \<longrightarrow> no_fail h" "length ws + 2 < 2 ^ 32"
    using assms(1) by (auto simp: live_def)
  have f: "heap_ok t ?h ws"
    using l(1) assms(2,4) by (auto simp: heap_ok_def free_buf_def buf_ok_def split: if_splits)
  have "b\<lparr>mSize := sz, slots := ss\<rparr> = \<lparr>mRefs = 1, mSize = sz, slots = ss\<rparr>"
    using owner_refcount [OF assms(1-3)] assms(4) by (cases b) (simp add: onlyOwner_def)
  then have "new_buf \<lparr>mRefs = 1, mSize = sz, slots = ss\<rparr> ?h = (h', a')"
    using assms(9) by metis
  note new = heap_ok_new [OF f assms(5-7) this, of "v\<lparr>mStorage := Some a'\<rparr>"]
  have k: "keeps h ?h ws" "no_fail h' = no_fail (malloc_next h)"
    using assms(4) new(4) by (auto simp: keeps_def free_buf_def no_fail_def)
  have "keeps h0 h' ws" using keeps_trans [OF l(2) keeps_trans [OF k(1) new(6)]] by simp
  then show "live t nf h0 ws (v\<lparr>mStorage := Some a'\<rparr>) h'"
    using new(2) l k(2) by (simp add: live_def)
  show "refcount ws a' = 0" "\<exists>b'. bufs h' a' = Some b' \<and> slots b' = ss"
    using new by auto
qed

lemma editResize_alloc_wp:
  assumes "live t nf h0 ws v h" "mStorage v = Some a" "bufs h a = Some b"
    and "unat sz = n * unat (sizeof t)" "unat sz + 25 < 2 ^ 64" "length ss = n"
  shows "wp True (do {
       (h, r) \<leftarrow> sb_alloc (sizeof t) sz h;
       case r of None \<Rightarrow> Some (h, None)
       | Some a' \<Rightarrow> do {
           b' \<leftarrow> bufs h a';
           (h, _) \<leftarrow> sb_release a False (put_buf a' (b'\<lparr>slots := ss\<rparr>) h);
           Some (h, Some a') } }) (\<lambda>(h', r). case r of
      None \<Rightarrow> \<not> malloc_ok h \<and> h' = malloc_next h
    | Some a' \<Rightarrow> live t nf h0 ws (v\<lparr>mStorage := Some a'\<rparr>) h' \<and> refcount ws a' = 0 \<and>
        (\<exists>b'. bufs h' a' = Some b' \<and> slots b' = ss))"
proof (rule wp_bind [OF sb_alloc_wp [OF assms(1,4,5)]], goal_cases)
  case (1 x)
  obtain h1 r where x: "x = (h1, r)" by (cases x)
  have l: "keeps h0 h ws" "nf \<longrightarrow> no_fail h" "length ws + 2 < 2 ^ 32"
    using assms(1) by (auto simp: live_def)
  show ?case
  proof (cases r)
    case None
    then show ?thesis using 1 by (simp add: x)
  next
    case (Some a')
    let ?v = "v\<lparr>mStorage := Some a'\<rparr>"
    obtain b' where a: "heap_ok t h1 (?v # v # ws)" "keeps h h1 (v # ws)"
      "nf \<longrightarrow> no_fail h1" "refcount (v # ws) a' = 0" "bufs h1 a' = Some b'" "slots b' = replicate n None"
      using 1 by (auto simp: x Some)
    have r: "refcount ws a' = 0" "mStorage v \<noteq> Some a'" using a(4) by (auto split: if_splits)
    let ?h = "set_slots a' ss h1"
    have p: "put_buf a' (b'\<lparr>slots := ss\<rparr>) h1 = ?h" using a(5) by (simp add: set_slots_def)
    have k: "keeps h ?h (v # ws)" using keeps_trans [OF a(2) keeps_set_slots [OF a(4)]] .
    have "heap_ok t ?h (v # ?v # ws)"
      using heap_ok_set_slots [OF a(1,5)] a(6) assms(6) heap_ok_swap by (metis length_replicate)
    moreover obtain b1 where "bufs ?h a = Some b1"
      using keepsD [OF k _ assms(3)] assms(2) by auto
    ultimately obtain h' q where h': "sb_release a False ?h = Some (h', q)" "heap_ok t h' (?v # ws)"
      "keeps ?h h' (?v # ws)" "av h' = av ?h"
      using sb_release_ok [of t ?h v "?v # ws" a b1] assms(2) l(3) by auto
    moreover have "\<exists>b'. bufs h' a' = Some b' \<and> slots b' = ss"
      using keepsD [OF h'(3), of a' "b'\<lparr>slots := ss\<rparr>"] a(5) by auto
    moreover have "keeps h0 h' ws"
      using h'(3) k l(1) by (auto simp: keeps_def)
    ultimately show ?thesis
      using a(3,5) l(3) r by (simp add: x Some p live_def no_fail_def)
  qed
qed

lemma editResize_wp:
  assumes "live t nf h0 ws v h" "mStorage v = Some a" "bufs h a = Some b"
    and "unat sz = n * unat (sizeof t)" "unat sz + 25 < 2 ^ 64"
  shows "wp True (sb_editResize (sizeof t) sz a h) (\<lambda>(h', r). case r of
      None \<Rightarrow> \<not> malloc_ok h \<and> live t nf h0 ws v h' \<and> bufs h' = bufs h
    | Some a' \<Rightarrow> live t nf h0 ws (v\<lparr>mStorage := Some a'\<rparr>) h' \<and> refcount ws a' = 0 \<and>
        (\<exists>b'. bufs h' a' = Some b' \<and>
           slots b' = take n (slots b) @ replicate (n - length (slots b)) None))"
proof -
  let ?ss = "take n (slots b) @ replicate (n - length (slots b)) None"
  note owner = owner_refcount [OF assms(1-3)]
  have t: "0 < unat (sizeof t)" "buf_ok t (v # ws) a b"
    using assms(1,3) by (auto simp: live_def heap_ok_def unat_gt_0 word_neq_0_conv)
  have rs: "resized (sizeof t) sz b = ?ss" "length ?ss = n"
    using assms(4) t(1) by (auto simp: resized_def)
  have sz: "\<not> - 1 - sizeof_SharedBuffer \<le> sz"
    using assms(5) by (simp add: sizeof_SharedBuffer_def word_le_nat_alt)
  have lv: "live t nf h0 ws v (if onlyOwner b then malloc_next h else h)"
    using assms(1) live_malloc_next [OF assms(1)] by simp
  show ?thesis
  proof (cases "onlyOwner b \<and> mSize b = sz")
    case True
    then have "n = length (slots b)" using t assms(4) by (simp add: buf_ok_def)
    moreover have "v\<lparr>mStorage := Some a\<rparr> = v" using assms(2) by (cases v) simp
    ultimately show ?thesis
      using True assms(1,3) owner by (simp add: sb_editResize_def)
  next
    case no: False
    show ?thesis
    proof (cases "onlyOwner b \<and> malloc_ok h")
      case True
      obtain h' a' where n: "new_buf (b\<lparr>mSize := sz, slots := ?ss\<rparr>) (free_buf a (malloc_next h)) = (h', a')"
        by fastforce
      have "sb_editResize (sizeof t) sz a h = Some (h', Some a')"
        using True no sz assms(3) n by (auto simp: sb_editResize_def rs)
      then show ?thesis
        using realloc_ok [OF assms(1-3) _ assms(4,5) rs(2) _ n] True owner by simp
    next
      case False
      then have e: "sb_editResize (sizeof t) sz a h = do {
         (h, r) \<leftarrow> sb_alloc (sizeof t) sz (if onlyOwner b then malloc_next h else h);
         case r of None \<Rightarrow> Some (h, None)
         | Some a' \<Rightarrow> do {
             b' \<leftarrow> bufs h a';
             (h, _) \<leftarrow> sb_release a False (put_buf a' (b'\<lparr>slots := ?ss\<rparr>) h);
             Some (h, Some a') } }"
        using no sz assms(3) by (auto simp: sb_editResize_def rs)
      have "bufs (if onlyOwner b then malloc_next h else h) a = Some b" using assms(3) by simp
      note w = editResize_alloc_wp [OF lv assms(2) this assms(4,5) rs(2)]
      show ?thesis
        unfolding e by (rule wp_mono [OF w]) (use False live_malloc_next [OF lv] in \<open>auto split: option.splits if_splits\<close>)
    qed
  qed
qed

end
