(* ===== verification/Vector_Ops.thy ===== *)
theory Vector_Ops
  imports Vector_Refine
begin

text \<open>
  The operations of \<^verbatim>\<open>VectorImpl\<close> on the lists they stand for: growing opens a gap, shrinking
  closes one, and insertion, replacement, removal, assignment and sorting are the
  corresponding list operations, for every pattern of sharing between the vectors and every
  pattern of allocation failures.
\<close>

section \<open>Growing\<close>

definition room :: "'a item_type \<Rightarrow> nat \<Rightarrow> bool" where
  "room t n \<longleftrightarrow> (n + n div 2 + 5) * unat (sizeof t) + 25 < 2 ^ 64"

lemma room_mono:
  assumes "room t n" "m \<le> n"
  shows "room t m"
proof -
  have "m + m div 2 + 5 \<le> n + n div 2 + 5" using assms(2) by (simp add: add_mono div_le_mono)
  then have "(m + m div 2 + 5) * unat (sizeof t) \<le> (n + n div 2 + 5) * unat (sizeof t)"
    by (rule mult_le_mono1)
  then show ?thesis using assms(1) unfolding room_def by linarith
qed

lemma room_bound:
  assumes "room t n" "0 < sizeof t"
  shows "n + n div 2 + 30 < 2 ^ 64"
proof -
  have "1 \<le> unat (sizeof t)" using assms(2) by (simp add: word_less_nat_alt)
  then have "(n + n div 2 + 5) * 1 \<le> (n + n div 2 + 5) * unat (sizeof t)" by (rule mult_le_mono2)
  moreover have "x + 30 < 2 ^ 64" if "(x + 5) * 1 \<le> p" "p + 25 < 2 ^ 64" for x p :: nat
    using that by simp
  ultimately show ?thesis using assms(1) unfolding room_def by blast
qed

lemma safe_iopD:
  assumes "safe_iop_ok I"
  shows "unat a + unat b < 2 ^ 64 \<Longrightarrow> safe_add I a b = Some (a + b)"
    and "b \<le> a \<Longrightarrow> safe_sub I a b = Some (a - b)"
    and "unat a * unat b < 2 ^ 64 \<Longrightarrow> safe_mul I a b = Some (a * b)"
  using assms by (auto simp: safe_iop_ok_def)

lemma unat_add_small: "unat a + unat b < 2 ^ 64 \<Longrightarrow> unat (a + b :: u64) = unat a + unat b"
  by (simp add: unat_word_ariths)

lemma unat_mult_small: "unat a * unat b < 2 ^ 64 \<Longrightarrow> unat (a * b :: u64) = unat a * unat b"
  by (simp add: unat_word_ariths)

lemma unat_u64: "unat (a :: u64) < 2 ^ 64"
  using unsigned_less [of a] by simp

lemma sint_small_u64:
  assumes "unat (w :: u64) < 2 ^ 63"
  shows "sint w = int (unat w)"
proof -
  have "uint w < 2 ^ 63"
    using assms by (metis of_nat_less_iff of_nat_numeral of_nat_power uint_nat)
  then show ?thesis
    by (simp add: sint_uint signed_take_bit_int_eq_self order.trans [OF _ uint_ge_0])
qed

lemma unat_max: "unat (max a b) = max (unat a) (unat (b :: u64))"
  by (simp add: max_def word_le_nat_alt)

lemma grow_capacity_ok:
  assumes "safe_iop_ok I" "room t (unat s)" "0 < sizeof t"
  shows "\<exists>c. grow_capacity I s = Some c \<and> unat c = max 4 (unat s + unat s div 2 + 1) \<and>
    safe_mul I c (sizeof t) = Some (c * sizeof t) \<and> unat (c * sizeof t) = unat c * unat (sizeof t) \<and>
    unat (c * sizeof t) + 25 < 2 ^ 64"
proof -
  note b = room_bound [OF assms(2,3)]
  let ?d = "s + s div 2" and ?n = "unat s + unat s div 2"
  have d: "unat (s div 2) = unat s div 2" by (simp add: unat_div)
  have 1: "safe_add I s (s div 2) = Some ?d" "unat ?d = ?n"
    using safe_iopD(1) [OF assms(1)] unat_add_small [of s "s div 2"] b d by auto
  have 2: "safe_add I ?d 1 = Some (?d + 1)" "unat (?d + 1) = ?n + 1"
    using safe_iopD(1) [OF assms(1)] unat_add_small [of ?d 1] b 1(2) by auto
  let ?c = "max kMinVectorCapacity (?d + 1)"
  have c: "unat ?c = max 4 (?n + 1)" by (simp add: unat_max 2(2) kMinVectorCapacity_def)
  then have "unat ?c * unat (sizeof t) \<le> (?n + 5) * unat (sizeof t)" by (intro mult_le_mono1) simp
  then have m: "unat ?c * unat (sizeof t) + 25 < 2 ^ 64" using assms(2) unfolding room_def by linarith
  then show ?thesis
    using 1 2 c safe_iopD(3) [OF assms(1), of ?c "sizeof t"] unat_mult_small [of ?c "sizeof t"]
    by (simp add: grow_capacity_def)
qed

definition gapped :: "'a item_type \<Rightarrow> vec list \<Rightarrow> 'a vheap \<Rightarrow> vec \<Rightarrow> nat \<Rightarrow> 'a list \<Rightarrow> nat \<Rightarrow> 'a list \<Rightarrow> bool" where
  "gapped t ws h v a A k B \<longleftrightarrow> vec_typed t v \<and> mStorage v = Some a \<and> refcount ws a = 0 \<and>
     (\<exists>b G R. bufs h a = Some b \<and> slots b = map Some A @ G @ map Some B @ R \<and>
        length G = k \<and> raw t G \<and> raw t R)"

lemma gappedI:
  assumes "vec_typed t v" "mStorage v = Some a" "refcount ws a = 0" "bufs h a = Some b"
    and "slots b = map Some A @ G @ map Some B @ R" "length G = k" "raw t G" "raw t R"
  shows "gapped t ws h v a A k B"
  using assms by (auto simp: gapped_def)

text \<open>
  What an insertion needs of the memory.  It cannot abort when the block is too small, no other
  vector shares it, or the next allocation succeeds; it cannot be refused when the block is
  large enough or the next allocation succeeds.
\<close>

definition spare :: "'a vheap \<Rightarrow> vec \<Rightarrow> nat \<Rightarrow> bool" where
  "spare h v k \<longleftrightarrow> (\<exists>a b. mStorage v = Some a \<and> bufs h a = Some b \<and> unat (mCount v) + k \<le> length (slots b))"

definition mem_ok :: "bool \<Rightarrow> bool \<Rightarrow> vec list \<Rightarrow> 'a vheap \<Rightarrow> vec \<Rightarrow> nat \<Rightarrow> bool" where
  "mem_ok tot ok ws h v k \<longleftrightarrow> (tot \<longrightarrow> malloc_ok h \<or> owned ws v \<or> \<not> spare h v k) \<and>
     (ok \<longrightarrow> malloc_ok h \<or> spare h v k)"

lemma live_mem_ok: "live t nf h0 ws v h \<Longrightarrow> mem_ok nf nf ws h v k"
  by (drule live_malloc(1)) (simp add: mem_ok_def)

text \<open>The room that was made; without it, the flag \<^term>\<open>ok\<close> is not set and nothing has changed.\<close>

definition made_room ::
  "'a item_type \<Rightarrow> bool \<Rightarrow> bool \<Rightarrow> 'a vheap \<Rightarrow> vec list \<Rightarrow> vec \<Rightarrow> 'a list \<Rightarrow> nat \<Rightarrow> 'a list \<Rightarrow>
   'a vheap \<times> vec option \<Rightarrow> bool"
where
  "made_room t nf ok h0 ws v A k B = (\<lambda>(h', r). case r of
       None \<Rightarrow> \<not> ok \<and> live t nf h0 ws v h' \<and> vec_ok t h' v (A @ B)
     | Some v' \<Rightarrow> live t nf h0 ws v' h' \<and> mCount v' = mCount v \<and> (\<exists>a'. gapped t ws h' v' a' A k B))"

lemma capacity_ok:
  assumes "heap_ok t h vs" "vec_typed t v" "mStorage v = Some a" "bufs h a = Some b"
  shows "\<exists>c. capacity v h = Some c \<and> unat c = length (slots b)"
  using assms buf_capacity [OF assms(1,4)] by (auto simp: capacity_def vec_typed_def)

lemma itemLocation_ok:
  assumes "heap_ok t h vs" "vec_typed t v" "mStorage v = Some a" "bufs h a = Some b"
    and "unat i < length (slots b)"
  shows "itemLocation v i h = Some (Some (Slot (Some a) (unat i)))"
  using capacity_ok [OF assms(1-4)] assms(3,5) by (auto simp: itemLocation_def word_less_nat_alt)

text \<open>The three ways to make room: the block is resized, replaced, or large enough.\<close>

lemma vec_ok_bufs: "bufs h' = bufs h \<Longrightarrow> vec_ok t h' v xs = vec_ok t h v xs"
  by (simp add: vec_ok_def split: option.split)

lemma grow_resize_wp:
  assumes "live t nf h0 ws v h" "vec_ok t h v A" "mStorage v = Some a" "has_trivial_dtor t"
    and "unat sz = n * unat (sizeof t)" "unat sz + 25 < 2 ^ 64" "length A + k \<le> n"
    and "\<And>b. bufs h a = Some b \<Longrightarrow> length (slots b) \<le> n" "ok \<longrightarrow> malloc_ok h"
  shows "wp True (do {
           (h, r) \<leftarrow> sb_editResize (mItemSize v) sz a h;
           Some (h, map_option (\<lambda>a'. v\<lparr>mStorage := Some a'\<rparr>) r) }) (made_room t nf ok h0 ws v A k [])"
proof -
  obtain b R where b: "bufs h a = Some b" "slots b = map Some A @ R" and t: "vec_typed t v"
    using assms(2,3) by (auto simp: vec_ok_def stores_def)
  define R' where "R' = R @ replicate (n - length (slots b)) None"
  have ss: "take n (slots b) @ replicate (n - length (slots b)) None = map Some A @ R'"
    using assms(8) b by (auto simp: R'_def)
  have len: "k \<le> length R'" using assms(7,8) b by (auto simp: R'_def)
  have sz: "mItemSize v = sizeof t" using t by (simp add: vec_typed_def)
  note w = editResize_wp [OF assms(1,3) b(1) assms(5,6), unfolded ss]
  show ?thesis
    unfolding sz
  proof (rule wp_bind [OF w], goal_cases)
    case (1 x)
    obtain h1 r where x: "x = (h1, r)" by (cases x)
    show ?case
    proof (cases r)
      case None
      then show ?thesis using 1 assms(2,9) vec_ok_bufs [of h1 h] by (auto simp: x made_room_def)
    next
      case (Some a')
      obtain b' where r: "live t nf h0 ws (v\<lparr>mStorage := Some a'\<rparr>) h1" "refcount ws a' = 0"
        "bufs h1 a' = Some b'" "slots b' = map Some A @ R'"
        using 1 by (auto simp: x Some)
      have "gapped t ws h1 (v\<lparr>mStorage := Some a'\<rparr>) a' A k []"
        using r len t raw_trivial [OF assms(4)]
        by (intro gappedI [of _ _ _ _ _ b' _ "take k R'" _ "drop k R'"]) auto
      then show ?thesis using r by (auto simp: x Some made_room_def)
    qed
  qed
qed

lemma grow_copy_wp:
  assumes "live t nf h0 ws v h" "vec_ok t h v (A @ B)"
    and "unat sz = n * unat (sizeof t)" "unat sz + 25 < 2 ^ 64" "length A + k + length B \<le> n"
    and "unat w = length A" "unat d = length A + k" "unat m = length B" "ok \<longrightarrow> malloc_ok h"
  shows "wp True (do {
           (h, r) \<leftarrow> sb_alloc (mItemSize v) sz h;
           case r of None \<Rightarrow> Some (h, None)
           | Some a' \<Rightarrow> do {
               h \<leftarrow> copy_around t v a' w d w m h;
               h \<leftarrow> release_storage t v h;
               Some (h, Some (v\<lparr>mStorage := Some a'\<rparr>)) } }) (made_room t nf ok h0 ws v A k B)"
proof -
  have t: "vec_typed t v" "mItemSize v = sizeof t"
    using assms(2) by (auto simp: vec_ok_def vec_typed_def)
  let ?ss = "map Some A @ replicate k None @ map Some B @ replicate (n - (length A + k) - length B) None"
  show ?thesis
    unfolding t(2)
  proof (rule new_block_wp [OF assms(1,2,3,4), where ss = ?ss])
    fix h1 a b
    assume "vec_ok t h1 v (A @ B)" "bufs h1 a = Some b" "slots b = replicate n None" "mStorage v \<noteq> Some a"
    then show "copy_around t v a w d w m h1 = Some (set_slots a ?ss h1)"
      using copy_around_ok [of t h1 v A "[]" B a b n w d "length A + k" w m] assms(5-8) by simp
  next
    fix a h2 b2
    assume r: "live t nf h0 ws (v\<lparr>mStorage := Some a\<rparr>) h2" "refcount ws a = 0" "bufs h2 a = Some b2"
      "slots b2 = ?ss"
    then have "gapped t ws h2 (v\<lparr>mStorage := Some a\<rparr>) a A k B"
      using t(1) by (intro gappedI [of _ _ _ _ _ b2 _ "replicate k None"
          _ "replicate (n - (length A + k) - length B) None"]) auto
    then show "wp True (Some (h2, Some (v\<lparr>mStorage := Some a\<rparr>))) (made_room t nf ok h0 ws v A k B)"
      using r by (auto simp: made_room_def)
  qed (use assms live_malloc_next in \<open>auto simp: made_room_def\<close>)
qed

lemma grow_edit_wp:
  assumes "live t nf h0 ws v h" "vec_ok t h v (A @ B)" "mStorage v = Some a" "bufs h a = Some b"
    and "length A + k + length B \<le> length (slots b)" "0 < k"
    and "unat w = length A" "unat d = length A + k" "tot \<longrightarrow> malloc_ok h \<or> owned ws v"
  shows "wp tot (do {
         (h, v) \<leftarrow> editArrayImpl t v h;
         h \<leftarrow> (if w \<noteq> mCount v then do {
             a \<leftarrow> mStorage v;
             move_forward_type t a (unat d) (unat w) (unat (mCount v - w)) h }
           else Some h);
         Some (h, Some v) }) (made_room t nf ok h0 ws v A k B)"
proof (rule wp_bind [OF edit_wp [OF assms(1,2,9)]], goal_cases)
  case (1 x)
  obtain h1 v1 where x: "x = (h1, v1)" by (cases x)
  obtain a1 b1 where v1: "live t nf h0 ws v1 h1" "vec_ok t h1 v1 (A @ B)" "refcount ws a1 = 0"
    "mCount v1 = mCount v" "mStorage v1 = Some a1" "bufs h1 a1 = Some b1" "length (slots b1) = length (slots b)"
    using 1 assms(3,4) by (auto simp: x owned_def)
  obtain R where R: "slots b1 = map Some A @ map Some B @ R" "raw t R" and t: "vec_typed t v1"
    "unat (mCount v1) = length A + length B"
    using v1(2,5,6) by (auto simp: vec_ok_def stores_def)
  have k: "k \<le> length R" using assms(5) R(1) v1(7) by simp
  show ?case
  proof (cases "B = []")
    case True
    then have "w = mCount v1" using assms(7) t(2) by (simp add: word_unat_eq_iff)
    moreover have "gapped t ws h1 v1 a1 A k B"
      using True R k t raw_take raw_drop v1(3,5,6)
      by (intro gappedI [of _ _ _ _ _ b1 _ "take k R" _ "drop k R"]) auto
    ultimately show ?thesis using v1 by (auto simp: x made_room_def)
  next
    case False
    then have w: "w \<noteq> mCount v1" "unat (mCount v1 - w) = length B"
      using assms(7) t(2) by (auto simp: unat_sub word_le_nat_alt)
    obtain G where G: "length G = k" "raw t G"
      "move_forward_type t a1 (length A + k) (length A) (length B) h1 =
        Some (set_slots a1 (map Some A @ G @ map Some B @ drop k R) h1)"
      using move_forward_type_ok [OF v1(6) R(1) assms(6) k raw_take [OF R(2)]] by auto
    let ?h = "set_slots a1 (map Some A @ G @ map Some B @ drop k R) h1"
    have "heap_ok t ?h (v1 # ws)"
      using heap_ok_set_slots [OF _ v1(6)] v1(1) R(1) G(1) k by (auto simp: live_def)
    moreover have "keeps h0 ?h ws"
      using keeps_trans [OF _ keeps_set_slots [OF v1(3)]] v1(1) by (auto simp: live_def)
    ultimately have "live t nf h0 ws v1 ?h" using v1(1) by (simp add: live_def)
    moreover have "gapped t ws ?h v1 a1 A k B"
      using G t v1(3,5,6) raw_drop [OF R(2)] by (auto simp: gapped_def)
    ultimately show ?thesis
      using v1(4,5) w G(3) assms(7,8) by (auto simp: x made_room_def)
  qed
qed

lemma capacity_cases:
  assumes "heap_ok t h vs" "vec_ok t h v xs"
  obtains c where "capacity v h = Some c" "mStorage v = None" "c = 0"
  | c a b where "capacity v h = Some c" "mStorage v = Some a" "bufs h a = Some b" "unat c = length (slots b)"
proof (cases "mStorage v")
  case None
  then show ?thesis using that(1) by (simp add: capacity_def)
next
  case (Some a)
  then obtain b where b: "bufs h a = Some b" using assms(2) by (auto simp: vec_ok_def)
  then show ?thesis using that(2) capacity_ok [OF assms(1) vec_ok_typed [OF assms(2)] Some b] Some by blast
qed

lemma grow_storage_wp:
  assumes I: "safe_iop_ok I" and l: "live t nf h0 ws v h" and v: "vec_ok t h v (A @ B)"
    and w: "unat w = length A" "unat (w + k) = length A + unat k"
    and k: "0 < unat k" and r: "room t (unat s)" and s: "unat s = length A + unat k + length B"
    and mem: "mem_ok tot ok ws h v (unat k)"
  shows "wp tot (grow_storage I t v w k s h) (made_room t nf ok h0 ws v A (unat k) B)"
proof -
  have ho: "heap_ok t h (v # ws)" "0 < sizeof t" using l by (auto simp: live_def heap_ok_def)
  have t: "vec_typed t v" "mItemSize v = sizeof t" "unat (mCount v) = length A + length B"
    using v by (auto simp: vec_ok_def vec_typed_def)
  have m: "unat (mCount v - w) = length B"
    using w t(3) by (simp add: unat_sub word_le_nat_alt)
  obtain nc where nc: "grow_capacity I s = Some nc" "unat nc = max 4 (unat s + unat s div 2 + 1)"
    "safe_mul I nc (sizeof t) = Some (nc * sizeof t)" "unat (nc * sizeof t) = unat nc * unat (sizeof t)"
    "unat (nc * sizeof t) + 25 < 2 ^ 64"
    using grow_capacity_ok [OF I r ho(2)] by auto
  have nN: "length A + unat k + length B \<le> unat nc" using nc(2) s by linarith
  obtain c where c: "capacity v h = Some c" by (rule capacity_cases [OF ho(1) v])
  have sp: "spare h v (unat k) \<longleftrightarrow> \<not> c < s"
    using c k s t(3) by (cases rule: capacity_cases [OF ho(1) v]) (auto simp: spare_def word_less_nat_alt)
  consider (resize) a where "c < s" "mStorage v = Some a" "mCount v = w" "moves_block v"
    | (copy) "c < s" "\<not> (mStorage v \<noteq> None \<and> mCount v = w \<and> moves_block v)"
    | (edit) "\<not> c < s"
    by fastforce
  then show ?thesis
  proof cases
    case resize
    then have B: "B = []" using w t(3) by simp
    have le: "bufs h a = Some b \<Longrightarrow> length (slots b) \<le> unat nc" for b
      using capacity_ok [OF ho(1) t(1) resize(2)] resize(1) s nN c by (auto simp: word_less_nat_alt)
    have e: "grow_storage I t v w k s h = do {
         (h, r) \<leftarrow> sb_editResize (mItemSize v) (nc * sizeof t) a h;
         Some (h, map_option (\<lambda>a'. v\<lparr>mStorage := Some a'\<rparr>) r) }"
      using resize t nc c by (simp add: grow_storage_def)
    show ?thesis
      unfolding e B using v resize t nN B
      by (intro wp_total [OF grow_resize_wp [OF l _ resize(2) _ nc(4,5) _ le]]) (use mem sp in \<open>auto simp: mem_ok_def\<close>)
  next
    case copy
    have e: "grow_storage I t v w k s h = do {
         (h, r) \<leftarrow> sb_alloc (mItemSize v) (nc * sizeof t) h;
         case r of None \<Rightarrow> Some (h, None)
         | Some a' \<Rightarrow> do {
             h \<leftarrow> copy_around t v a' w (w + k) w (mCount v - w) h;
             h \<leftarrow> release_storage t v h;
             Some (h, Some (v\<lparr>mStorage := Some a'\<rparr>)) } }"
      using copy t nc c by (auto simp: grow_storage_def)
    show ?thesis
      unfolding e using mem sp copy(1)
      by (intro wp_total [OF grow_copy_wp [OF l v nc(4,5) nN w m]]) (auto simp: mem_ok_def)
  next
    case edit
    then have le: "length A + unat k + length B \<le> unat c"
      using s by (simp add: word_less_nat_alt)
    from ho(1) v show ?thesis
    proof (cases rule: capacity_cases)
      case (1 c')
      then show ?thesis using le k c by simp
    next
      case (2 c' a b)
      then have "length A + unat k + length B \<le> length (slots b)" using le c by simp
      then show ?thesis
        using grow_edit_wp [OF l v 2(2,3) _ k w] edit c mem sp by (auto simp: grow_storage_def mem_ok_def)
    qed
  qed
qed

lemma grow_wp:
  assumes I: "safe_iop_ok I" and l: "live t nf h0 ws v h" and v: "vec_ok t h v (A @ B)"
    and w: "unat w = length A" and k: "0 < unat k" and r: "room t (length A + unat k + length B)"
    and mem: "mem_ok tot ok ws h v (unat k)"
  shows "wp tot (grow I t v w k h) (\<lambda>(h', v', p). live t nf h0 ws v' h' \<and> (case p of
      None \<Rightarrow> \<not> ok \<and> vec_ok t h' v' (A @ B)
    | Some p \<Rightarrow> \<exists>a. p = Slot (Some a) (length A) \<and> unat (mCount v') = length A + unat k + length B \<and>
        gapped t ws h' v' a A (unat k) B))"
proof -
  let ?s = "mCount v + k"
  have z: "0 < sizeof t" using l by (auto simp: live_def heap_ok_def)
  have t: "unat (mCount v) = length A + length B" using v by (auto simp: vec_ok_def)
  note rb = room_bound [OF r z]
  have s: "safe_add I (mCount v) k = Some ?s" "unat ?s = length A + unat k + length B"
    using safe_iopD(1) [OF I, of "mCount v" k] unat_add_small [of "mCount v" k] rb t by auto
  have d: "unat (w + k) = length A + unat k"
    using unat_add_small [of w k] rb w by auto
  have "wp tot (grow_storage I t v w k ?s h) (made_room t nf ok h0 ws v A (unat k) B)"
    using grow_storage_wp [OF I l v w d k _ s(2) mem] r s(2) by simp
  then show ?thesis
    unfolding grow_def s(1) Option.bind.bind_lunit
  proof (rule wp_bind, goal_cases)
    case (1 x)
    obtain h1 r where x: "x = (h1, r)" by (cases x)
    show ?case
    proof (cases r)
      case None
      then show ?thesis using 1 by (auto simp: x made_room_def)
    next
      case (Some v1)
      obtain a where v1: "live t nf h0 ws v1 h1" "mCount v1 = mCount v" "gapped t ws h1 v1 a A (unat k) B"
        using 1 by (auto simp: x Some made_room_def)
      then have "itemLocation (v1\<lparr>mCount := ?s\<rparr>) w h1 = Some (Some (Slot (Some a) (length A)))"
        using itemLocation_ok [of t h1 "v1 # ws" "v1\<lparr>mCount := ?s\<rparr>" a _ w] k w
        by (auto simp: gapped_def live_def)
      then show ?thesis
        using v1 s(2) by (auto simp: x Some gapped_def)
    qed
  qed
qed

section \<open>Insertion\<close>

text \<open>Items to be inserted lie outside of all vectors or in another vector.\<close>

definition source :: "'a vheap \<Rightarrow> vec list \<Rightarrow> 'a ptr \<Rightarrow> 'a list \<Rightarrow> bool" where
  "source h ws p ys \<longleftrightarrow> reads h p ys \<and> (\<forall>a i. p = Slot (Some a) i \<longrightarrow> 0 < refcount ws a)"

lemma source_keeps:
  assumes "source h ws p ys" "keeps h h' ws"
  shows "source h' ws p ys"
proof (cases "(h, p, length ys)" rule: read_slots.cases)
  case (3 h a i n)
  then have "0 < refcount ws a" using assms(1) by (simp add: source_def)
  moreover obtain b where "bufs h a = Some b"
    using assms(1) 3 by (auto simp: source_def reads_def option_run)
  ultimately show ?thesis
    using keepsD [OF assms(2), of a b] assms(1) 3 by (auto simp: source_def reads_def split: if_splits)
qed (use assms in \<open>auto simp: source_def reads_def\<close>)

lemma source_outside: "source h ws p ys \<Longrightarrow> refcount ws a = 0 \<Longrightarrow> outside a p"
  by (auto simp: source_def outside_def)

lemma source_Ext [simp]: "source h ws (Ext ys) ys"
  by (simp add: source_def reads_def)

lemma source_vec: "w \<in> set ws \<Longrightarrow> vec_ok t h w ys \<Longrightarrow> source h ws (Slot (mStorage w) 0) ys"
  using vec_reads [of t h w "[]" ys "[]"] refcount_pos by (auto simp: source_def)

lemma vec_okI:
  assumes "vec_typed t v" "unat (mCount v) = length xs" "mStorage v = Some a" "bufs h a = Some b"
    and "slots b = map Some xs @ R" "raw t R"
  shows "vec_ok t h v xs"
  using assms by (auto simp: vec_ok_def stores_def)

lemma live_set_slots:
  assumes "live t nf h0 ws v h" "refcount ws a = 0" "bufs h a = Some b" "length ss = length (slots b)"
  shows "live t nf h0 ws v (set_slots a ss h)"
  using assms heap_ok_set_slots [of t h "v # ws" a b ss] keeps_trans [OF _ keeps_set_slots [OF assms(2)]]
  by (auto simp: live_def)

lemma gapped_fill:
  assumes "live t nf h0 ws v h" "gapped t ws h v a A (length ys) B"
    and "unat (mCount v) = length A + length ys + length B"
  obtains b where "bufs h a = Some b" "length A + length ys \<le> length (slots b)"
    "raw t (take (length ys) (drop (length A) (slots b)))"
    "live t nf h0 ws v (set_slots a (blit (length A) (map Some ys) (slots b)) h)"
    "vec_ok t (set_slots a (blit (length A) (map Some ys) (slots b)) h) v (A @ ys @ B)"
proof -
  obtain b G R where g: "vec_typed t v" "mStorage v = Some a" "refcount ws a = 0" "bufs h a = Some b"
    "slots b = map Some A @ G @ map Some B @ R" "length G = length ys" "raw t G" "raw t R"
    using assms(2) by (auto simp: gapped_def)
  let ?ss = "blit (length A) (map Some ys) (slots b)"
  have ss: "?ss = map Some (A @ ys @ B) @ R" using g(5,6) by (simp add: blit_def)
  show ?thesis
  proof (rule that [OF g(4)])
    show "live t nf h0 ws v (set_slots a ?ss h)"
      using g by (intro live_set_slots [OF assms(1)]) (auto simp: ss)
    show "vec_ok t (set_slots a ?ss h) v (A @ ys @ B)"
      using g assms(3) ss by (intro vec_okI [of t v _ a _ "b\<lparr>slots := ?ss\<rparr>" R]) auto
  qed (use g in auto)
qed

definition inserted ::
  "'a item_type \<Rightarrow> bool \<Rightarrow> bool \<Rightarrow> 'a vheap \<Rightarrow> vec list \<Rightarrow> u64 \<Rightarrow> 'a list \<Rightarrow> 'a list \<Rightarrow>
   'a vheap \<times> vec \<times> int \<Rightarrow> bool"
where
  "inserted t nf ok h0 ws i old new = (\<lambda>(h', v', r). live t nf h0 ws v' h' \<and>
     (r = sint i \<and> vec_ok t h' v' new \<or> r = NO_MEMORY \<and> \<not> ok \<and> vec_ok t h' v' old))"

lemma insert_wp:
  assumes "safe_iop_ok I" "live t nf h0 ws v h" "vec_ok t h v (A @ B)" "unat i = length A"
    and "unat n = length ys" "ys \<noteq> []" "room t (length A + length ys + length B)" "mem_ok tot ok ws h v (unat n)"
    and fill: "\<And>a h' v' b. live t nf h0 ws v' h' \<Longrightarrow> vec_typed t v' \<Longrightarrow> refcount ws a = 0 \<Longrightarrow> bufs h' a = Some b \<Longrightarrow>
      length A + length ys \<le> length (slots b) \<Longrightarrow> raw t (take (length ys) (drop (length A) (slots b))) \<Longrightarrow>
      f v' a (length A) h' = Some (set_slots a (blit (length A) (map Some ys) (slots b)) h')"
  shows "wp tot (do {
        (h, v, w) \<leftarrow> grow I t v i n h;
        case w of Some (Slot (Some a) i') \<Rightarrow> do { h \<leftarrow> f v a i' h; Some (h, v, sint i) }
        | _ \<Rightarrow> Some (h, v, NO_MEMORY) }) (inserted t nf ok h0 ws i (A @ B) (A @ ys @ B))"
proof -
  have n: "0 < unat n" "room t (length A + unat n + length B)" using assms(5-7) by auto
  show ?thesis
  proof (rule wp_bind [OF grow_wp [OF assms(1-4) n assms(8)]], goal_cases)
    case (1 x)
    obtain h1 v1 p where x: "x = (h1, v1, p)" by (cases x)
    show ?case
    proof (cases p)
      case None
      then show ?thesis using 1 by (auto simp: x inserted_def)
    next
      case (Some q)
      obtain a where g: "live t nf h0 ws v1 h1" "q = Slot (Some a) (length A)"
        "unat (mCount v1) = length A + length ys + length B" "gapped t ws h1 v1 a A (length ys) B"
        using 1 assms(5) by (auto simp: x Some)
      obtain b where b: "bufs h1 a = Some b" "length A + length ys \<le> length (slots b)"
        "raw t (take (length ys) (drop (length A) (slots b)))"
        "live t nf h0 ws v1 (set_slots a (blit (length A) (map Some ys) (slots b)) h1)"
        "vec_ok t (set_slots a (blit (length A) (map Some ys) (slots b)) h1) v1 (A @ ys @ B)"
        by (rule gapped_fill [OF g(1,4,3)])
      have "refcount ws a = 0" "vec_typed t v1" using g(4) by (auto simp: gapped_def)
      then show ?thesis
        using fill [OF g(1) _ _ b(1-3)] b(4,5) by (simp add: x Some g(2) inserted_def)
    qed
  qed
qed

lemma insertArrayAt_wp:
  assumes "safe_iop_ok I" "live t nf h0 ws v h" "vec_ok t h v (A @ B)" "unat i = length A"
    and "unat n = length ys" "ys \<noteq> []" "room t (length A + length ys + length B)" "mem_ok tot ok ws h v (unat n)"
    and "source h0 ws p ys"
  shows "wp tot (insertArrayAt I t v p i n h) (inserted t nf ok h0 ws i (A @ B) (A @ ys @ B))"
proof -
  have "\<not> mCount v < i" using assms(3,4) by (simp add: vec_ok_def word_less_nat_alt)
  then have e: "insertArrayAt I t v p i n h = do {
        (h, v, w) \<leftarrow> grow I t v i n h;
        case w of Some (Slot (Some a) i') \<Rightarrow> do { h \<leftarrow> do_copy t v a i' p (unat n) h; Some (h, v, sint i) }
        | _ \<Rightarrow> Some (h, v, NO_MEMORY) }"
    by (simp add: insertArrayAt_def)
  show ?thesis
    unfolding e
  proof (rule insert_wp [OF assms(1-8)])
    fix a h' v' b
    assume a: "live t nf h0 ws v' h'" "vec_typed t v'" "refcount ws a = 0" "bufs h' a = Some b"
      "length A + length ys \<le> length (slots b)" "raw t (take (length ys) (drop (length A) (slots b)))"
    have "source h' ws p ys" using source_keeps [OF assms(9)] a(1) by (simp add: live_def)
    then show "do_copy t v' a (length A) p (unat n) h' =
        Some (set_slots a (blit (length A) (map Some ys) (slots b)) h')"
      using copy_type_ok [OF a(4) _ _ a(5,6)] source_outside [OF _ a(3)] a(2) assms(5)
      by (auto simp: source_def)
  qed
qed

lemma insertAt_wp:
  assumes "safe_iop_ok I" "live t nf h0 ws v h" "vec_ok t h v (A @ B)" "unat i = length A"
    and "0 < unat n" "room t (length A + unat n + length B)" "mem_ok tot ok ws h v (unat n)"
    and "case p of None \<Rightarrow> \<not> has_trivial_ctor t \<and> x = dflt t | Some q \<Rightarrow> source h0 ws q [x]"
  shows "wp tot (insertAt I t v p i n h) (inserted t nf ok h0 ws i (A @ B) (A @ replicate (unat n) x @ B))"
proof -
  let ?ys = "replicate (unat n) x"
  have "\<not> mCount v < i" using assms(3,4) by (simp add: vec_ok_def word_less_nat_alt)
  then have e: "insertAt I t v p i n h = do {
        (h, v, w) \<leftarrow> grow I t v i n h;
        case w of Some (Slot (Some a) i') \<Rightarrow> do {
            h \<leftarrow> (case p of Some p \<Rightarrow> splat_type t a i' p (unat n) h
              | None \<Rightarrow> do_construct t v a i' (unat n) h);
            Some (h, v, sint i) }
        | _ \<Rightarrow> Some (h, v, NO_MEMORY) }"
    by (simp add: insertAt_def)
  show ?thesis
    unfolding e
  proof (rule insert_wp [OF assms(1-4)])
    fix a h' v' b
    assume a: "live t nf h0 ws v' h'" "vec_typed t v'" "refcount ws a = 0" "bufs h' a = Some b"
      "length A + length ?ys \<le> length (slots b)" "raw t (take (length ?ys) (drop (length A) (slots b)))"
    show "(case p of Some p \<Rightarrow> splat_type t a (length A) p (unat n) h'
          | None \<Rightarrow> do_construct t v' a (length A) (unat n) h') =
        Some (set_slots a (blit (length A) (map Some ?ys) (slots b)) h')"
    proof (cases p)
      case None
      then show ?thesis
        using construct_loop_ok [OF a(4), of "length A" "unat n" t] a(2,5,6) assms(8)
        by (simp add: construct_type_def)
    next
      case (Some q)
      have "source h' ws q [x]" using source_keeps [of h0 ws q "[x]"] assms(8) a(1) by (simp add: Some live_def)
      then have "read_item h' q = Some x" "outside a q"
        using source_outside [OF _ a(3)] by (auto simp: source_def intro: reads_read_item)
      then show ?thesis
        using splat_loop_ok [OF a(4), of q x "length A" "unat n" t] a(5,6) by (simp add: Some splat_type_def)
    qed
  qed (use assms in auto)
qed

text \<open>
  The one way to abort: the block is large enough but shared, and there is no memory for a copy;
  then \<^verbatim>\<open>editArrayImpl\<close> fails its check \<^verbatim>\<open>LOG_ALWAYS_FATAL_IF\<close>.
\<close>

lemma edit_aborts:
  assumes "live t nf h0 ws v h" "vec_ok t h v xs" "\<not> owned ws v" "\<not> malloc_ok h"
  shows "editArrayImpl t v h = None"
proof -
  obtain a b where a: "mStorage v = Some a" "bufs h a = Some b" "refcount ws a \<noteq> 0"
    using assms(2,3) by (auto simp: owned_def vec_ok_def)
  have "unat (mSize b) + 25 < 2 ^ 64"
    using heap_okD(1) [OF _ a(2)] assms(1) by (auto simp: live_def buf_ok_def)
  then show ?thesis
    using a owner_refcount [OF assms(1) a(1,2)] sb_alloc_fail [OF _ assms(4)]
    by (simp add: editArrayImpl_def sb_attemptEdit_def)
qed

lemma insertAt_aborts:
  assumes I: "safe_iop_ok I" and l: "live t nf h0 ws v h" and v: "vec_ok t h v xs"
    and i: "unat i \<le> length xs" and r: "room t (length xs + unat n)"
    and s: "spare h v (unat n)" "\<not> owned ws v" "\<not> malloc_ok h"
  shows "insertAt I t v p i n h = None"
proof -
  have t: "vec_typed t v" "unat (mCount v) = length xs" using v by (auto simp: vec_ok_def)
  have z: "0 < sizeof t" "heap_ok t h (v # ws)" using l by (auto simp: live_def heap_ok_def)
  have a: "safe_add I (mCount v) n = Some (mCount v + n)" "unat (mCount v + n) = length xs + unat n"
    using safe_iopD(1) [OF I, of "mCount v" n] unat_add_small [of "mCount v" n] room_bound [OF r z(1)] t(2) by auto
  obtain c where "capacity v h = Some c" "\<not> c < mCount v + n"
    using s(1) capacity_ok [OF z(2) t(1)] a(2) t(2) by (fastforce simp: spare_def word_less_nat_alt)
  then have "grow_storage I t v i n (mCount v + n) h = None"
    using edit_aborts [OF l v s(2,3)] by (simp add: grow_storage_def)
  moreover have "\<not> mCount v < i" using i t(2) by (simp add: word_less_nat_alt)
  ultimately show ?thesis
    using a(1) by (simp add: insertAt_def grow_def)
qed

section \<open>Removal\<close>

definition removed ::
  "'a item_type \<Rightarrow> bool \<Rightarrow> 'a vheap \<Rightarrow> vec list \<Rightarrow> 'a list \<Rightarrow> 'a list \<Rightarrow> 'a vheap \<times> vec \<Rightarrow> bool"
where
  "removed t nf h0 ws old new = (\<lambda>(h', v'). live t nf h0 ws v' h' \<and>
     (vec_ok t h' v' new \<or> \<not> nf \<and> vec_ok t h' v' old))"

lemma shrink_resize_wp:
  assumes "live t nf h0 ws v h" "vec_ok t h v (A @ C)" "mStorage v = Some a" "has_trivial_dtor t"
    and "unat sz = n * unat (sizeof t)" "unat sz + 25 < 2 ^ 64" "length A \<le> n" "unat s = length A"
  shows "wp nf (do {
      (h, r) \<leftarrow> sb_editResize (mItemSize v) sz a h;
      case r of None \<Rightarrow> Some (h, v)
      | Some a' \<Rightarrow> Some (h, v\<lparr>mStorage := Some a', mCount := s\<rparr>) }) (removed t nf h0 ws (A @ C) A)"
proof -
  obtain b R where b: "bufs h a = Some b" "slots b = map Some A @ map Some C @ R" and t: "vec_typed t v"
    using assms(2,3) by (auto simp: vec_ok_def stores_def)
  define R' where "R' = drop (length A) (take n (slots b) @ replicate (n - length (slots b)) None)"
  have ss: "take n (slots b) @ replicate (n - length (slots b)) None = map Some A @ R'"
    using assms(7) b by (simp add: R'_def)
  have sz: "mItemSize v = sizeof t" using t by (simp add: vec_typed_def)
  note w = editResize_wp [OF assms(1,3) b(1) assms(5,6), unfolded ss]
  show ?thesis
    unfolding sz
  proof (rule wp_total_bind [OF w], goal_cases)
    case (1 x)
    obtain h1 r where x: "x = (h1, r)" by (cases x)
    show ?case
    proof (cases r)
      case None
      then show ?thesis
        using 1 assms(2) vec_ok_bufs [of h1 h] live_malloc(1) [OF assms(1)] by (auto simp: x removed_def)
    next
      case (Some a')
      obtain b' where r: "live t nf h0 ws (v\<lparr>mStorage := Some a'\<rparr>) h1" "refcount ws a' = 0"
        "bufs h1 a' = Some b'" "slots b' = map Some A @ R'"
        using 1 by (auto simp: x Some)
      have "vec_ok t h1 (v\<lparr>mStorage := Some a', mCount := s\<rparr>) A"
        using r t assms(8) raw_trivial [OF assms(4)] by (intro vec_okI [of _ _ _ a' _ b' R']) auto
      then show ?thesis
        using r(1) by (simp add: x Some removed_def)
    qed
  qed
qed

lemma shrink_copy_wp:
  assumes "live t nf h0 ws v h" "vec_ok t h v (A @ C @ B)"
    and "unat sz = n * unat (sizeof t)" "unat sz + 25 < 2 ^ 64" "length A + length B \<le> n"
    and "unat w = length A" "unat f = length A + length C" "unat m = length B"
    and "unat s = length A + length B"
  shows "wp nf (do {
      (h, r) \<leftarrow> sb_alloc (mItemSize v) sz h;
      case r of None \<Rightarrow> Some (h, v)
      | Some a' \<Rightarrow> do {
          h \<leftarrow> copy_around t v a' w w f m h;
          h \<leftarrow> release_storage t v h;
          Some (h, v\<lparr>mStorage := Some a', mCount := s\<rparr>) } }) (removed t nf h0 ws (A @ C @ B) (A @ B))"
proof -
  have t: "vec_typed t v" "mItemSize v = sizeof t"
    using assms(2) by (auto simp: vec_ok_def vec_typed_def)
  let ?R = "replicate (n - length A - length B) None" and ?w = "removed t nf h0 ws (A @ C @ B) (A @ B)"
  let ?ss = "map Some A @ map Some B @ ?R"
  show ?thesis
    unfolding t(2)
  proof (rule new_block_wp [OF assms(1,2,3,4), where ss = ?ss])
    fix h1 a b
    assume "vec_ok t h1 v (A @ C @ B)" "bufs h1 a = Some b" "slots b = replicate n None" "mStorage v \<noteq> Some a"
    then show "copy_around t v a w w f m h1 = Some (set_slots a ?ss h1)"
      using copy_around_ok [of t h1 v A C B a b n w w "length A" f m] assms(5-8) by simp
  next
    fix a h2 b2
    assume r: "live t nf h0 ws (v\<lparr>mStorage := Some a\<rparr>) h2" "refcount ws a = 0" "bufs h2 a = Some b2"
      "slots b2 = ?ss"
    have "vec_ok t h2 (v\<lparr>mStorage := Some a, mCount := s\<rparr>) (A @ B)"
      using r t assms(9) by (intro vec_okI [of _ _ _ a _ b2 ?R]) auto
    then show "wp nf (Some (h2, v\<lparr>mStorage := Some a, mCount := s\<rparr>)) ?w"
      using r(1) by (simp add: removed_def)
  qed (use assms live_malloc_next live_malloc(1) [OF assms(1)] in \<open>auto simp: removed_def\<close>)
qed

lemma shrink_edit_wp:
  assumes "live t nf h0 ws v h" "vec_ok t h v (A @ C @ B)" "mStorage v = Some a"
    and "unat w = length A" "unat f = length A + length C" "unat k = length C"
    and "unat s = length A + length B" "C \<noteq> [] \<or> B = []"
  shows "wp nf (do {
      (h, v) \<leftarrow> editArrayImpl t v h;
      a \<leftarrow> mStorage v;
      h \<leftarrow> do_destroy t v a (unat w) (unat k) h;
      h \<leftarrow> (if w \<noteq> s then move_backward_type t a (unat w) (unat f) (unat (s - w)) h else Some h);
      Some (h, v\<lparr>mCount := s\<rparr>) }) (removed t nf h0 ws (A @ C @ B) (A @ B))"
proof (rule wp_bind [OF edit_wp [OF assms(1,2) live_malloc(2) [OF assms(1)]]], goal_cases)
  case (1 x)
  obtain h1 v1 where x: "x = (h1, v1)" by (cases x)
  obtain a1 where v1: "live t nf h0 ws v1 h1" "vec_ok t h1 v1 (A @ C @ B)" "refcount ws a1 = 0"
    "mStorage v1 = Some a1"
    using 1 assms(3) by (auto simp: x owned_def)
  obtain b1 R where R: "bufs h1 a1 = Some b1" "slots b1 = map Some A @ map Some C @ map Some B @ R"
    "raw t R" and t: "vec_typed t v1"
    using v1(2,4) by (auto simp: vec_ok_def stores_def)
  obtain G where G: "length G = length C" "raw t G"
    "destroy_type t a1 (length A) (length C) h1 = Some (set_slots a1 (map Some A @ G @ map Some B @ R) h1)"
    using destroy_type_ok [OF R(1), of "length A" C t] R(2) by (auto simp: blit_def)
  let ?h = "set_slots a1 (map Some A @ G @ map Some B @ R) h1"
  have "\<exists>G'. length G' = length C \<and> raw t G' \<and>
      (if w \<noteq> s then move_backward_type t a1 (length A) (length A + length C) (length B) ?h else Some ?h) =
      Some (set_slots a1 (map Some A @ map Some B @ G' @ R) h1)"
  proof (cases "B = []")
    case True
    then have "w = s" using assms(4,7) by (simp add: word_unat_eq_iff)
    then show ?thesis using True G by auto
  next
    case False
    then have "w \<noteq> s" using assms(4,7) by auto
    then show ?thesis
      using move_backward_type_ok [of ?h a1 "b1\<lparr>slots := map Some A @ G @ map Some B @ R\<rparr>" "map Some A" G B R t]
        R(1) G(1,2) False assms(8) by auto
  qed
  then obtain G' where G': "length G' = length C" "raw t G'"
    "(if w \<noteq> s then move_backward_type t a1 (length A) (length A + length C) (length B) ?h else Some ?h) =
      Some (set_slots a1 (map Some A @ map Some B @ G' @ R) h1)" by blast
  let ?h2 = "set_slots a1 (map Some A @ map Some B @ G' @ R) h1"
  have "live t nf h0 ws v1 ?h2"
    using R G' v1(1,3) by (intro live_set_slots [of _ _ _ _ _ _ _ b1]) auto
  moreover have "vec_ok t ?h2 (v1\<lparr>mCount := s\<rparr>) (A @ B)"
    using R G' t v1(4) assms(7)
    by (intro vec_okI [of _ _ _ a1 _ "b1\<lparr>slots := map Some A @ map Some B @ G' @ R\<rparr>" "G' @ R"]) auto
  moreover have "unat (s - w) = length B"
    using assms(4,7) by (simp add: unat_sub word_le_nat_alt)
  ultimately show ?case
    using v1(4) G(3) G'(3) t assms(4-6) by (simp add: x removed_def split: if_splits)
qed

lemma shrink_capacity_ok:
  assumes "buf_ok t vs a b" "unat c = length (slots b)" "s < c div 2" "room t 0"
  shows "unat s \<le> unat (max kMinVectorCapacity (s * 2))"
    and "unat (max kMinVectorCapacity (s * 2) * sizeof t) =
      unat (max kMinVectorCapacity (s * 2)) * unat (sizeof t)"
    and "unat (max kMinVectorCapacity (s * 2) * sizeof t) + 25 < 2 ^ 64"
proof -
  have "unat s < unat c div 2" using assms(3) by (simp add: word_less_nat_alt unat_div)
  then have s2: "unat s * 2 < unat c" by linarith
  then have u: "unat (s * 2) = unat s * 2"
    using unat_mult_small [of s 2] unat_u64 [of c] by simp
  let ?m = "max kMinVectorCapacity (s * 2)"
  have m: "unat ?m = max 4 (unat s * 2)" by (simp add: unat_max u kMinVectorCapacity_def)
  show "unat s \<le> unat ?m" using m by linarith
  have b: "unat ?m * unat (sizeof t) + 25 < 2 ^ 64"
  proof (cases "unat s * 2 \<le> 4")
    case True
    then show ?thesis using m assms(4) by (simp add: room_def)
  next
    case False
    then have "unat ?m * unat (sizeof t) \<le> length (slots b) * unat (sizeof t)"
      using m s2 assms(2) by (intro mult_le_mono1) simp
    then show ?thesis using assms(1) unfolding buf_ok_def by linarith
  qed
  then show "unat (?m * sizeof t) = unat ?m * unat (sizeof t)" "unat (?m * sizeof t) + 25 < 2 ^ 64"
    using unat_mult_small [of ?m "sizeof t"] by simp_all
qed

lemma shrink_wp:
  assumes I: "safe_iop_ok I" and l: "live t nf h0 ws v h" and v: "vec_ok t h v (A @ C @ B)"
    and w: "unat w = length A" and k: "unat k = length C" "C \<noteq> [] \<or> B = []" and r: "room t 0"
  shows "wp nf (shrink I t v w k h) (removed t nf h0 ws (A @ C @ B) (A @ B))"
proof -
  have ho: "heap_ok t h (v # ws)" using l by (auto simp: live_def)
  from ho v show ?thesis
  proof (cases rule: capacity_cases)
    case (1 c)
    then show ?thesis using l v by (simp add: shrink_def removed_def vec_ok_def)
  next
    case (2 c a b)
    have t: "vec_typed t v" "mItemSize v = sizeof t" "unat (mCount v) = length A + length C + length B"
      using v by (auto simp: vec_ok_def vec_typed_def)
    let ?s = "mCount v - k"
    have s: "safe_sub I (mCount v) k = Some ?s" "unat ?s = length A + length B"
      using safe_iopD(2) [OF I] k t(3) by (auto simp: word_le_nat_alt unat_sub)
    have f: "unat (w + k) = length A + length C" "unat (?s - w) = length B"
      using unat_add_small [of w k] unat_u64 [of "mCount v"] w k t(3) s(2)
      by (auto simp: unat_sub word_le_nat_alt)
    let ?n = "max kMinVectorCapacity (?s * 2)"
    show ?thesis
    proof (cases "?s < c div 2")
      case True
      note n = shrink_capacity_ok [OF heap_okD(1) [OF ho 2(3)] 2(4) True r]
      show ?thesis
      proof (cases "w = ?s \<and> moves_block v")
        case mv: True
        then have B: "B = []" using w s(2) by simp
        have e: "shrink I t v w k h = do {
            (h, r) \<leftarrow> sb_editResize (mItemSize v) (?n * sizeof t) a h;
            case r of None \<Rightarrow> Some (h, v)
            | Some a' \<Rightarrow> Some (h, v\<lparr>mStorage := Some a', mCount := ?s\<rparr>) }"
          using True mv 2 s t by (simp add: shrink_def)
        show ?thesis
          unfolding e B append_Nil2 using v B mv t s n(1)
          by (intro shrink_resize_wp [OF l _ 2(2) _ n(2,3)]) auto
      next
        case False
        have e: "shrink I t v w k h = do {
            (h, r) \<leftarrow> sb_alloc (mItemSize v) (?n * sizeof t) h;
            case r of None \<Rightarrow> Some (h, v)
            | Some a' \<Rightarrow> do {
                h \<leftarrow> copy_around t v a' w w (w + k) (?s - w) h;
                h \<leftarrow> release_storage t v h;
                Some (h, v\<lparr>mStorage := Some a', mCount := ?s\<rparr>) } }"
          using True False 2 s t by (auto simp: shrink_def)
        show ?thesis
          unfolding e using n(1) s(2) by (intro shrink_copy_wp [OF l v n(2,3) _ w f s(2)]) auto
      qed
    next
      case False
      then show ?thesis
        using shrink_edit_wp [OF l v 2(2) w f(1) k(1) s(2) k(2)] 2 s by (simp add: shrink_def)
    qed
  qed
qed

lemma removeItemsAt_wp:
  assumes "safe_iop_ok I" "live t nf h0 ws v h" "vec_ok t h v (A @ C @ B)"
    and "unat i = length A" "unat n = length C" "C \<noteq> [] \<or> B = []" "room t 0"
  shows "wp nf (removeItemsAt I t v i n h) (\<lambda>(h', v', r). r = sint i \<and> removed t nf h0 ws (A @ C @ B) (A @ B) (h', v'))"
proof -
  have "unat (mCount v) = length A + length C + length B" using assms(3) by (simp add: vec_ok_def)
  moreover have "unat (i + n) = length A + length C"
    using unat_add_small [of i n] unat_u64 [of "mCount v"] calculation assms(4,5) by simp
  ultimately have "\<not> mCount v < i + n" by (simp add: word_less_nat_alt)
  then have e: "removeItemsAt I t v i n h = shrink I t v i n h \<bind> (\<lambda>(h, v). Some (h, v, sint i))"
    by (simp add: removeItemsAt_def)
  show ?thesis
    unfolding e by (rule wp_bind [OF shrink_wp [OF assms]]) (auto split: prod.split)
qed

section \<open>Capacity, replacement, copies and destruction\<close>

lemma setCapacity_wp:
  assumes I: "safe_iop_ok I" and l: "live t nf h0 ws v h" and v: "vec_ok t h v xs"
    and r: "unat n * unat (sizeof t) + 25 < 2 ^ 64"
  shows "wp nf (setCapacity I t v n h) (\<lambda>(h', v', r). live t nf h0 ws v' h' \<and> vec_ok t h' v' xs \<and>
    (r = sint n \<or> \<not> nf \<or> n \<le> mCount v))"
proof (cases "n \<le> mCount v")
  case True
  have "heap_ok t h (v # ws)" using l by (simp add: live_def)
  then obtain c where "capacity v h = Some c" using v by (rule capacity_cases)
  then show ?thesis
    using True l v by (simp add: setCapacity_def)
next
  case False
  have t: "vec_typed t v" "mItemSize v = sizeof t" "unat (mCount v) = length xs"
    using v by (auto simp: vec_ok_def vec_typed_def)
  have n: "length xs \<le> unat n" "safe_mul I n (sizeof t) = Some (n * sizeof t)"
    "unat (n * sizeof t) = unat n * unat (sizeof t)" "unat (n * sizeof t) + 25 < 2 ^ 64"
    using False t(3) r safe_iopD(3) [OF I, of n "sizeof t"] unat_mult_small [of n "sizeof t"]
    by (auto simp: word_le_nat_alt)
  have e: "setCapacity I t v n h = do {
      (h, r) \<leftarrow> sb_alloc (sizeof t) (n * sizeof t) h;
      case r of None \<Rightarrow> Some (h, v, NO_MEMORY)
      | Some a' \<Rightarrow> do {
          h \<leftarrow> do_copy t v a' 0 (Slot (mStorage v) 0) (unat (mCount v)) h;
          h \<leftarrow> release_storage t v h;
          Some (h, v\<lparr>mStorage := Some a'\<rparr>, sint n) } }"
    using False n(2) t(2) by (simp add: setCapacity_def)
  let ?R = "replicate (unat n - length xs) None"
  show ?thesis
    unfolding e
  proof (rule new_block_wp [OF l v n(3,4), where ss = "map Some xs @ ?R"])
    fix h1 a b
    assume a: "vec_ok t h1 v xs" "bufs h1 a = Some b" "slots b = replicate (unat n) None" "mStorage v \<noteq> Some a"
    moreover have "outside a (Slot (mStorage v) 0 :: 'a ptr)" using a(4) by (cases "mStorage v") auto
    ultimately show "do_copy t v a 0 (Slot (mStorage v) 0) (unat (mCount v)) h1 =
        Some (set_slots a (map Some xs @ ?R) h1)"
      using copy_type_ok [OF a(2), of "Slot (mStorage v) 0" xs 0 t] vec_reads [of t h1 v "[]" xs "[]"] t n(1)
      by (simp add: blit_def)
  next
    fix a h2 b2
    assume r: "live t nf h0 ws (v\<lparr>mStorage := Some a\<rparr>) h2" "refcount ws a = 0" "bufs h2 a = Some b2"
      "slots b2 = map Some xs @ ?R"
    have "vec_ok t h2 (v\<lparr>mStorage := Some a\<rparr>) xs"
      using r t by (intro vec_okI [of _ _ _ a _ b2 ?R]) auto
    then show "wp nf (Some (h2, v\<lparr>mStorage := Some a\<rparr>, sint n)) (\<lambda>(h', v', r).
        live t nf h0 ws v' h' \<and> vec_ok t h' v' xs \<and> (r = sint n \<or> \<not> nf \<or> n \<le> mCount v))"
      using r(1) by simp
  qed (use n(1) v live_malloc_next [OF l] live_malloc(1) [OF l] in auto)
qed

lemma replaceAt_wp:
  assumes l: "live t nf h0 ws v h" and v: "vec_ok t h v (A @ y # B)" and i: "unat i = length A"
    and p: "case p of None \<Rightarrow> \<not> has_trivial_ctor t \<and> x = dflt t | Some q \<Rightarrow> source h0 ws q [x]"
  shows "wp nf (replaceAt t v p i h) (\<lambda>(h', v', r). live t nf h0 ws v' h' \<and> r = sint i \<and>
    vec_ok t h' v' (A @ x # B))"
proof -
  have ho: "heap_ok t h (v # ws)" using l by (auto simp: live_def)
  obtain c where c: "capacity v h = Some c" "i < c" "i < mCount v"
  proof (cases rule: capacity_cases [OF ho v])
    case (1 c)
    then show ?thesis using v by (simp add: vec_ok_def)
  next
    case (2 c a b)
    then have "length A < unat c" "i < mCount v"
      using v i by (auto simp: vec_ok_def stores_def word_less_nat_alt)
    then show ?thesis using that 2 i by (simp add: word_less_nat_alt)
  qed
  have e: "replaceAt t v p i h = editArrayImpl t v h \<bind> (\<lambda>(h, v). case mStorage v of
        None \<Rightarrow> Some (h, v, if p = None then sint i else NO_MEMORY)
      | Some a \<Rightarrow> if p = Some (Slot (Some a) (unat i)) then Some (h, v, sint i)
          else do {
            h \<leftarrow> do_destroy t v a (unat i) 1 h;
            h \<leftarrow> (case p of None \<Rightarrow> do_construct t v a (unat i) 1 h | Some p \<Rightarrow> do_copy t v a (unat i) p 1 h);
            Some (h, v, sint i) })"
    using c by (cases "editArrayImpl t v h") (auto simp: replaceAt_def editItemLocation_def split: option.split)
  show ?thesis
    unfolding e
  proof (rule wp_bind [OF edit_wp [OF l v live_malloc(2) [OF l]]], goal_cases)
    case (1 z)
    obtain h1 v1 where z: "z = (h1, v1)" by (cases z)
    have "mStorage v1 \<noteq> None" using 1 v by (auto simp: z vec_ok_def split: option.splits)
    then obtain a1 where v1: "live t nf h0 ws v1 h1" "vec_ok t h1 v1 (A @ y # B)" "refcount ws a1 = 0"
      "mStorage v1 = Some a1"
      using 1 by (auto simp: z owned_def)
    obtain b1 R where R: "bufs h1 a1 = Some b1" "slots b1 = map Some A @ Some y # map Some B @ R"
      "raw t R" and t: "vec_typed t v1" "unat (mCount v1) = length A + 1 + length B"
      using v1(2,4) by (auto simp: vec_ok_def stores_def)
    obtain G where "length G = length [y]" "raw t G"
      "destroy_type t a1 (length A) (length [y]) h1 = Some (set_slots a1 (blit (length A) G (slots b1)) h1)"
      using destroy_type_ok [OF R(1), of "length A" "[y]" t] R(2) by auto
    then obtain g where g: "has_trivial_dtor t \<or> g = None"
      "destroy_type t a1 (length A) 1 h1 = Some (set_slots a1 (map Some A @ g # map Some B @ R) h1)"
      by (cases G) (auto simp: blit_def R(2))
    let ?h = "set_slots a1 (map Some A @ g # map Some B @ R) h1"
    let ?b = "b1\<lparr>slots := map Some A @ g # map Some B @ R\<rparr>"
    let ?h2 = "set_slots a1 (map Some A @ Some x # map Some B @ R) h1"
    have hb: "bufs ?h a1 = Some ?b" using R(1) by simp
    have fill: "(case p of None \<Rightarrow> do_construct t v1 a1 (length A) 1 ?h
        | Some p \<Rightarrow> do_copy t v1 a1 (length A) p 1 ?h) = Some ?h2"
    proof (cases p)
      case None
      then show ?thesis
        using construct_loop_ok [OF hb, of "length A" 1 t] p g(1) t
        by (simp add: construct_type_def blit_def)
    next
      case (Some q)
      have "source h1 ws q [x]" using source_keeps [of h0 ws q "[x]"] p v1(1) by (simp add: Some live_def)
      then have "reads ?h q [x]" "outside a1 q"
        using source_outside [of h1 ws q "[x]" a1] v1(3) by (auto simp: source_def)
      then show ?thesis
        using copy_type_ok [OF hb, of q "[x]" "length A" t] g(1) t(1) by (simp add: Some blit_def)
    qed
    have "p \<noteq> Some (Slot (Some a1) (length A))"
      using p v1(3) by (auto simp: source_def)
    moreover have "live t nf h0 ws v1 ?h2"
      using R v1(1,3) by (intro live_set_slots [of _ _ _ _ _ _ _ b1]) auto
    moreover have "vec_ok t ?h2 v1 (A @ x # B)"
      using R t v1(4) by (intro vec_okI [of _ _ _ a1 _ "b1\<lparr>slots := map Some A @ Some x # map Some B @ R\<rparr>" R]) auto
    ultimately show ?case
      using v1(4) g(2) [folded i] fill [folded i] t(1) i by (simp add: z)
  qed
qed

lemma acquire_ok:
  assumes "heap_ok t h vs" "mStorage v = Some a" "bufs h a = Some b"
  shows "\<exists>h'. sb_acquire a h = Some h' \<and> heap_ok t h' (v # vs) \<and> keeps h h' ws \<and> av h' = av h"
proof -
  let ?h = "put_buf a (b\<lparr>mRefs := mRefs b + 1\<rparr>) h"
  have "a < fresh h" using heap_okD(2) [OF assms(1,3)] .
  then have "heap_ok t ?h (v # vs)"
    using assms by (auto simp: heap_ok_def buf_ok_def put_buf_def split: if_splits)
  then show ?thesis
    using assms(3) by (auto simp: sb_acquire_def keeps_def put_buf_def)
qed

lemma VectorImpl_copy_ok:
  assumes "heap_ok t h vs" "vec_ok t h v xs"
  shows "\<exists>h'. VectorImpl_copy v h = Some (h', v) \<and> heap_ok t h' (v # vs) \<and> keeps h h' (v # vs) \<and>
    vec_ok t h' v xs \<and> av h' = av h"
proof (cases "mStorage v")
  case None
  then show ?thesis
    using assms heap_ok_cong [of "v # vs" vs t h] by (simp add: VectorImpl_copy_def)
next
  case (Some a)
  then obtain b where "bufs h a = Some b" using assms(2) by (auto simp: vec_ok_def)
  then obtain h' where "sb_acquire a h = Some h'" "heap_ok t h' (v # vs)" "keeps h h' (v # vs)" "av h' = av h"
    using acquire_ok [OF assms(1) Some, of b "v # vs"] by auto
  then show ?thesis
    using vec_ok_keeps [OF assms(2), of "v # vs" h'] by (simp add: VectorImpl_copy_def Some)
qed

lemma finish_vector_ok:
  assumes "live t nf h0 ws v h" "vec_ok t h v xs"
  shows "\<exists>h'. finish_vector t v h = Some (h', v\<lparr>mStorage := None, mCount := 0\<rparr>) \<and> heap_ok t h' ws \<and>
    keeps h0 h' ws \<and> (nf \<longrightarrow> no_fail h')"
proof -
  obtain h' where "release_storage t v h = Some h'" "heap_ok t h' ws" "keeps h h' ws" "av h' = av h"
    using release_ok [of t h v ws xs] assms by (auto simp: live_def)
  then show ?thesis
    using assms(1) keeps_trans [of h0 h ws h'] by (simp add: finish_vector_def live_def no_fail_def)
qed

lemma VectorImpl_assign_wp:
  assumes "live t nf h0 ws v h" "vec_ok t h v xs" "u \<in> set ws" "vec_ok t h u ys"
  shows "wp nf (VectorImpl_assign t False v u h) (\<lambda>(h', v'). live t nf h0 ws v' h' \<and> vec_ok t h' v' ys)"
proof -
  have t: "vec_typed t v" "mItemSize v = mItemSize u" "unat (mCount u) = length ys"
    using assms(2,4) by (auto simp: vec_ok_def vec_typed_def)
  have l: "keeps h0 h ws" "nf \<longrightarrow> no_fail h" "length ws + 2 < 2 ^ 32" using assms(1) by (auto simp: live_def)
  obtain h' where h': "release_storage t v h = Some h'" "heap_ok t h' ws" "keeps h h' ws" "av h' = av h"
    using release_ok [of t h v ws xs] assms(1,2) by (auto simp: live_def)
  note k = keeps_trans [OF l(1) h'(3)]
  have u: "vec_ok t h' u ys" using vec_ok_keeps [OF assms(4,3) h'(3)] .
  show ?thesis
  proof (cases "mCount u = 0")
    case True
    let ?v = "v\<lparr>mStorage := None, mCount := 0\<rparr>"
    have "heap_ok t h' (?v # ws)" using h'(2) heap_ok_cong [of "?v # ws" ws t h'] by simp
    then have "live t nf h0 ws ?v h'" "vec_ok t h' ?v ys"
      using True t h' k l by (auto simp: live_def no_fail_def vec_ok_def)
    then show ?thesis
      using True t(2) h'(1) by (simp add: VectorImpl_assign_def)
  next
    case False
    then obtain a b where a: "mStorage u = Some a" "bufs h' a = Some b" "stores t (slots b) ys"
      using u t(3) by (auto simp: vec_ok_def word_unat_eq_iff split: option.splits)
    let ?v = "v\<lparr>mStorage := Some a, mCount := mCount u\<rparr>"
    obtain h2 where h2: "sb_acquire a h' = Some h2" "heap_ok t h2 (?v # ws)" "keeps h' h2 ws" "av h2 = av h'"
      using acquire_ok [OF h'(2), of ?v a b ws] a by auto
    have "vec_ok t h2 u ys" using vec_ok_keeps [OF u assms(3) h2(3)] .
    then have "vec_ok t h2 ?v ys" using t(1) a(1) by (auto simp: vec_ok_def)
    moreover have "live t nf h0 ws ?v h2"
      using h2 h'(4) l keeps_trans [OF k h2(3)] by (simp add: live_def no_fail_def)
    ultimately show ?thesis
      using False t(2) h'(1) h2(1) a(1) by (simp add: VectorImpl_assign_def)
  qed
qed

end
