(* ===== verification/Vector_Sort.thy ===== *)
theory Vector_Sort
  imports Vector_Ops "HOL-Library.Multiset"
begin

text \<open>
  \<^verbatim>\<open>VectorImpl::sort\<close> is a stable insertion sort: the loops insert one item after the other
  behind the last item that is not greater, and the result is a sorted permutation in which
  equivalent items keep their order.
\<close>

section \<open>Insertion from the right\<close>

definition greater_suffix :: "('a \<Rightarrow> 'a \<Rightarrow> int) \<Rightarrow> 'a \<Rightarrow> 'a list \<Rightarrow> nat" where
  "greater_suffix cmp x P = length (takeWhile (\<lambda>c. cmp c x > 0) (rev P))"

definition ins_right :: "('a \<Rightarrow> 'a \<Rightarrow> int) \<Rightarrow> 'a list \<Rightarrow> 'a \<Rightarrow> 'a list" where
  "ins_right cmp P x = (let n = length P - greater_suffix cmp x P in take n P @ x # drop n P)"

lemma ins_right_split:
  assumes "\<forall>y \<in> set P2. cmp y x > 0" "P1 \<noteq> [] \<Longrightarrow> \<not> cmp (last P1) x > 0"
  shows "ins_right cmp (P1 @ P2) x = P1 @ x # P2"
proof -
  have "takeWhile (\<lambda>c. cmp c x > 0) (rev P1) = []"
    using assms(2) by (cases P1 rule: rev_cases) auto
  then have "greater_suffix cmp x (P1 @ P2) = length P2"
    using assms(1) by (simp add: greater_suffix_def takeWhile_append)
  then show ?thesis by (simp add: ins_right_def)
qed

lemma ins_right_cases:
  obtains P1 P2 where "P = P1 @ P2" "\<forall>y \<in> set P2. cmp y x > 0" "P1 \<noteq> [] \<Longrightarrow> \<not> cmp (last P1) x > 0"
proof -
  let ?Q = "\<lambda>c. cmp c x > 0"
  have "P = rev (dropWhile ?Q (rev P)) @ rev (takeWhile ?Q (rev P))"
    by (metis rev_append rev_rev_ident takeWhile_dropWhile_id)
  moreover have "\<not> ?Q (last (rev (dropWhile ?Q (rev P))))" if "rev (dropWhile ?Q (rev P)) \<noteq> []"
    using that hd_dropWhile [of ?Q "rev P"] by (simp add: last_rev)
  ultimately show ?thesis
    by (metis that set_rev set_takeWhileD)
qed

definition comparator :: "('a \<Rightarrow> 'a \<Rightarrow> int) \<Rightarrow> bool" where
  "comparator cmp \<longleftrightarrow> (\<forall>x y. cmp x y > 0 \<longleftrightarrow> cmp y x < 0) \<and>
     (\<forall>x y z. cmp x y \<le> 0 \<longrightarrow> cmp y z \<le> 0 \<longrightarrow> cmp x z \<le> 0)"

lemma ins_right_sorted:
  assumes "comparator cmp" "sorted_wrt (\<lambda>x y. cmp x y \<le> 0) P"
  shows "sorted_wrt (\<lambda>x y. cmp x y \<le> 0) (ins_right cmp P x)"
proof (rule ins_right_cases [of P cmp x])
  fix P1 P2
  assume P: "P = P1 @ P2" "\<forall>y \<in> set P2. cmp y x > 0" "P1 \<noteq> [] \<Longrightarrow> \<not> cmp (last P1) x > 0"
  have "cmp y x \<le> 0" if "y \<in> set P1" for y
  proof (cases P1 rule: rev_cases)
    case (snoc Q z)
    then have "y = z \<or> cmp y z \<le> 0" "cmp z x \<le> 0"
      using that assms(2) P(1,3) by (auto simp: sorted_wrt_append)
    then show ?thesis using assms(1) unfolding comparator_def by blast
  qed (use that in simp)
  moreover have "cmp x y \<le> 0" if "y \<in> set P2" for y
    using that P(2) assms(1) unfolding comparator_def by fastforce
  moreover have ir: "ins_right cmp (P1 @ P2) x = P1 @ x # P2"
    using P(2,3) by (rule ins_right_split)
  ultimately show ?thesis
    using assms(2) unfolding P(1) ir by (auto simp: sorted_wrt_append)
qed

lemma ins_right_mset: "mset (ins_right cmp P x) = add_mset x (mset P)"
proof -
  have "mset (take n P @ x # drop n P) = add_mset x (mset P)" for n
    by (metis append_take_drop_id mset_append mset.simps(2) union_mset_add_mset_right)
  then show ?thesis by (simp add: ins_right_def Let_def)
qed

lemma ins_right_stable:
  assumes "comparator cmp"
  shows "filter (\<lambda>y. cmp y k = 0) (ins_right cmp P x) = filter (\<lambda>y. cmp y k = 0) (P @ [x])"
proof (rule ins_right_cases [of P cmp x])
  fix P1 P2
  assume P: "P = P1 @ P2" "\<forall>y \<in> set P2. cmp y x > 0" "P1 \<noteq> [] \<Longrightarrow> \<not> cmp (last P1) x > 0"
  have "filter (\<lambda>y. cmp y k = 0) P2 = []" if "cmp x k = 0"
  proof -
    have "cmp y k \<noteq> 0" if y: "y \<in> set P2" for y
    proof
      assume "cmp y k = 0"
      moreover have "cmp k x \<le> 0" using \<open>cmp x k = 0\<close> assms unfolding comparator_def
        by (metis linorder_not_less order_less_irrefl)
      ultimately have "cmp y x \<le> 0" using assms unfolding comparator_def by (metis order_refl)
      then show False using P(2) y by force
    qed
    then show ?thesis by simp
  qed
  moreover have ir: "ins_right cmp (P1 @ P2) x = P1 @ x # P2"
    using P(2,3) by (rule ins_right_split)
  ultimately show ?thesis
    unfolding P(1) ir by auto
qed

definition insertion_sort :: "('a \<Rightarrow> 'a \<Rightarrow> int) \<Rightarrow> 'a list \<Rightarrow> 'a list" where
  "insertion_sort cmp xs = foldl (ins_right cmp) [] xs"

lemma insertion_sort_correct:
  assumes "comparator cmp"
  shows "sorted_wrt (\<lambda>x y. cmp x y \<le> 0) (insertion_sort cmp xs)"
    and "mset (insertion_sort cmp xs) = mset xs"
    and "filter (\<lambda>y. cmp y k = 0) (insertion_sort cmp xs) = filter (\<lambda>y. cmp y k = 0) xs"
proof (induction xs rule: rev_induct)
  case Nil
  { case 1 then show ?case by (simp add: insertion_sort_def) }
  { case 2 then show ?case by (simp add: insertion_sort_def) }
  { case 3 then show ?case by (simp add: insertion_sort_def) }
next
  case (snoc x xs)
  { case 1 then show ?case using snoc ins_right_sorted [OF assms] by (simp add: insertion_sort_def) }
  { case 2 then show ?case using snoc by (simp add: insertion_sort_def ins_right_mset) }
  { case 3 then show ?case using snoc ins_right_stable [OF assms] by (simp add: insertion_sort_def) }
qed

section \<open>The loops\<close>

lemma shift_one:
  assumes "vec_typed t v" "bufs h a = Some b" "slots b = map Some P @ Some c # Some z # R"
  shows "do { h \<leftarrow> do_destroy t v a (Suc (length P)) 1 h;
              do_copy t v a (Suc (length P)) (Slot (Some a) (length P)) 1 h } =
    Some (set_slots a (map Some P @ Some c # Some c # R) h)"
proof -
  obtain G where "length G = length [z]" "raw t G" "destroy_type t a (Suc (length P)) (length [z]) h =
      Some (set_slots a (blit (Suc (length P)) G (slots b)) h)"
    using destroy_type_ok [OF assms(2), of "Suc (length P)" "[z]" t] assms(3) by auto
  then obtain g where g: "has_trivial_dtor t \<or> g = None"
    "destroy_type t a (Suc (length P)) 1 h = Some (set_slots a (map Some P @ Some c # g # R) h)"
    by (cases G) (auto simp: blit_def assms(3))
  let ?h = "set_slots a (map Some P @ Some c # g # R) h"
  have "read_slots ?h (Slot (Some a) (length P)) 1 = Some [Some c]"
    using assms(2) by simp
  then have "copy_type t a (Suc (length P)) (Slot (Some a) (length P)) 1 ?h =
      Some (set_slots a (map Some P @ Some c # Some c # R) h)"
    using assms(2) g(1) by (auto simp: copy_type_def read_item_def construct_at_def memcpy_items_def
        blit_def list_update_append nth_append)
  then show ?thesis using assms(1) g(2) by simp
qed

lemma shift_loop_ok:
  assumes "vec_typed t v" "bufs h a = Some b" "slots b = map Some P @ Some c # Some z # R" "cmp c x > 0"
  shows "\<exists>P1 P2 q. shift_loop t cmp v a x (length P) h =
      Some (set_slots a (map Some P1 @ Some q # map Some P2 @ R) h, length P1) \<and>
    P1 @ P2 = P @ [c] \<and> (\<forall>y \<in> set P2. cmp y x > 0) \<and> (P1 \<noteq> [] \<longrightarrow> \<not> cmp (last P1) x > 0)"
  using assms(2-)
proof (induction P arbitrary: c z R h b rule: rev_induct)
  case Nil
  have "shift_loop t cmp v a x 0 h = Some (set_slots a (Some c # Some c # R) h, 0)"
    using shift_one [OF assms(1) Nil(1), of "[]" c z R] Nil(2) by (simp add: Option.bind_eq_Some_conv)
  then show ?case
    using Nil(3) by (intro exI [of _ "[]"] exI [of _ "[c]"] exI [of _ c]) simp
next
  case (snoc e P)
  let ?h = "set_slots a (map Some P @ Some e # Some c # Some c # R) h"
  let ?b = "b\<lparr>slots := map Some P @ Some e # Some c # Some c # R\<rparr>"
  have st: "do { h \<leftarrow> do_destroy t v a (Suc (length (P @ [e]))) 1 h;
              do_copy t v a (Suc (length (P @ [e]))) (Slot (Some a) (length (P @ [e]))) 1 h } = Some ?h"
    using shift_one [OF assms(1) snoc.prems(1), of "P @ [e]" c z R] snoc.prems(2) by simp
  have rd: "read_item ?h (Slot (Some a) (length P)) = Some e"
    using snoc.prems(1) by (simp add: read_item_def)
  have eq: "shift_loop t cmp v a x (length (P @ [e])) h =
      (if cmp e x > 0 then shift_loop t cmp v a x (length P) ?h else Some (?h, Suc (length P)))"
    using st rd by (auto simp: option_run)
  show ?case
  proof (cases "cmp e x > 0")
    case True
    obtain P1 P2 q where IH: "shift_loop t cmp v a x (length P) ?h =
        Some (set_slots a (map Some P1 @ Some q # map Some P2 @ (Some c # R)) ?h, length P1)"
      "P1 @ P2 = P @ [e]" "\<forall>y \<in> set P2. cmp y x > 0" "P1 \<noteq> [] \<longrightarrow> \<not> cmp (last P1) x > 0"
      using snoc.IH [of ?h ?b e c "Some c # R"] snoc.prems(1) True by auto
    then show ?thesis
      using eq True snoc.prems(3) by (intro exI [of _ P1] exI [of _ "P2 @ [c]"] exI [of _ q]) simp
  next
    case False
    then show ?thesis
      using eq snoc.prems(3) by (intro exI [of _ "P @ [e]"] exI [of _ "[c]"] exI [of _ c]) simp
  qed
qed

lemma sort_insert:
  assumes "live t nf h0 ws v h" "vec_ok t h v ((Q @ [c]) @ x # S)" "owned ws v" "cmp c x > 0"
  shows "\<exists>a h1 next h2 h'. mStorage v = Some a \<and> read_item h (Slot (Some a) (Suc (length Q))) = Some x \<and>
    shift_loop t cmp v a x (length Q) h = Some (h1, next) \<and>
    do_destroy t v a next 1 h1 = Some h2 \<and> do_copy t v a next (Ext [x]) 1 h2 = Some h' \<and>
    live t nf h0 ws v h' \<and> vec_ok t h' v (ins_right cmp (Q @ [c]) x @ S)"
proof -
  obtain a where a: "mStorage v = Some a" "refcount ws a = 0"
    using assms(2,3) by (cases "mStorage v") (auto simp: vec_ok_def owned_def)
  obtain b R where b: "bufs h a = Some b" "slots b = map Some Q @ Some c # Some x # (map Some S @ R)"
    "raw t R" and t: "vec_typed t v" "unat (mCount v) = length Q + 2 + length S"
    using assms(2) by (auto simp: vec_ok_def stores_def a)
  obtain P1 P2 q where sh: "shift_loop t cmp v a x (length Q) h =
      Some (set_slots a (map Some P1 @ Some q # map Some P2 @ map Some S @ R) h, length P1)"
    "P1 @ P2 = Q @ [c]" "\<forall>y \<in> set P2. cmp y x > 0" "P1 \<noteq> [] \<longrightarrow> \<not> cmp (last P1) x > 0"
    using shift_loop_ok [where cmp = cmp and x = x, OF t(1) b(1,2)] assms(4) by blast
  let ?h1 = "set_slots a (map Some P1 @ Some q # map Some P2 @ map Some S @ R) h"
  let ?b1 = "b\<lparr>slots := map Some P1 @ Some q # map Some P2 @ map Some S @ R\<rparr>"
  have b1: "bufs ?h1 a = Some ?b1" using b(1) by simp
  obtain G where G: "length G = length [q]" "raw t G" "destroy_type t a (length P1) (length [q]) ?h1 =
      Some (set_slots a (blit (length P1) G (slots ?b1)) ?h1)"
    using destroy_type_ok [OF b1, of "length P1" "[q]" t] by auto
  then obtain g where g: "has_trivial_dtor t \<or> g = None" "G = [g]" by (cases G) auto
  let ?s2 = "map Some P1 @ g # map Some P2 @ map Some S @ R"
  let ?h2 = "set_slots a ?s2 h" and ?s3 = "map Some P1 @ Some x # map Some P2 @ map Some S @ R"
  have d: "do_destroy t v a (length P1) 1 ?h1 = Some ?h2"
    using G(3) t(1) by (simp add: g(2) blit_def)
  have "bufs ?h2 a = Some (b\<lparr>slots := ?s2\<rparr>)" using b(1) by simp
  then have e: "do_copy t v a (length P1) (Ext [x]) 1 ?h2 = Some (set_slots a ?s3 h)"
    using copy_type_ok [of ?h2 a "b\<lparr>slots := ?s2\<rparr>" "Ext [x]" "[x]" "length P1" t] g(1) t(1)
    by (simp add: blit_def reads_def)
  have len: "Suc (length Q) = length P1 + length P2" using arg_cong [OF sh(2), of length] by simp
  have "live t nf h0 ws v (set_slots a ?s3 h)"
    using b len a(2) by (intro live_set_slots [OF assms(1) _ b(1)]) auto
  moreover have ir: "ins_right cmp (Q @ [c]) x = P1 @ x # P2"
    using ins_right_split [of P2 cmp x P1] sh(2-4) by metis
  moreover have "vec_ok t (set_slots a ?s3 h) v ((P1 @ x # P2) @ S)"
    using b t len a(1) by (intro vec_okI [of _ _ _ a _ "b\<lparr>slots := ?s3\<rparr>" R]) auto
  moreover have "read_item h (Slot (Some a) (Suc (length Q))) = Some x"
    using b by (simp add: read_item_def)
  ultimately show ?thesis
    using a(1) sh(1) d e unfolding ir by blast
qed

definition sorted_result ::
  "'a item_type \<Rightarrow> bool \<Rightarrow> 'a vheap \<Rightarrow> vec list \<Rightarrow> bool \<Rightarrow> 'a list \<Rightarrow> 'a list \<Rightarrow> 'a vheap \<times> vec \<times> int \<Rightarrow> bool"
where
  "sorted_result t nf h0 ws started old new = (\<lambda>(h', v', r). live t nf h0 ws v' h' \<and>
     (r = NO_ERROR \<and> vec_ok t h' v' new \<or>
      r = NO_MEMORY \<and> \<not> nf \<and> \<not> started \<and> vec_ok t h' v' old))"

lemma sort_item_wp:
  assumes "live t nf h0 ws v h" "vec_ok t h v ((Q @ [c]) @ x # S)" "temp \<noteq> None \<Longrightarrow> owned ws v"
    and "cmp c x > 0"
  shows "wp nf (sort_item t cmp (Suc (length Q)) v temp h) (\<lambda>(h', v', r). live t nf h0 ws v' h' \<and> (case r of
      None \<Rightarrow> \<not> nf \<and> temp = None \<and> vec_ok t h' v' ((Q @ [c]) @ x # S)
    | Some _ \<Rightarrow> owned ws v' \<and> vec_ok t h' v' (ins_right cmp (Q @ [c]) x @ S)))"
proof -
  have "wp nf (if temp = None then editArrayImpl t v h else Some (h, v)) (\<lambda>(h', v').
      live t nf h0 ws v' h' \<and> vec_ok t h' v' ((Q @ [c]) @ x # S) \<and> owned ws v')"
    using wp_mono [OF edit_wp [OF assms(1,2) live_malloc(2) [OF assms(1)]]] assms(1-3) by (auto simp: split_def)
  then show ?thesis
    unfolding sort_item_def
  proof (rule wp_bind, goal_cases)
    case (1 z)
    obtain h1 v1 where z: "z = (h1, v1)" by (cases z)
    have v1: "live t nf h0 ws v1 h1" "vec_ok t h1 v1 ((Q @ [c]) @ x # S)" "owned ws v1" using 1 by (auto simp: z)
    have st: "mStorage v1 \<noteq> None" using v1(2) by (auto simp: vec_ok_def split: option.splits)
    show ?case
    proof (cases "temp = None \<and> \<not> malloc_ok h1")
      case True
      then have "\<not> nf" using v1(1) no_fail_malloc by (auto simp: live_def)
      then show ?thesis
        using True st v1 live_malloc_next [OF v1(1)] by (simp add: z)
    next
      case False
      let ?h = "if temp = None then malloc_next h1 else h1"
      have lh: "live t nf h0 ws v1 ?h" "vec_ok t ?h v1 ((Q @ [c]) @ x # S)"
        using v1 live_malloc_next [OF v1(1)] by auto
      show ?thesis
        using sort_insert [OF lh v1(3), of cmp] assms(4) v1(3) False st by (auto simp: z)
    qed
  qed
qed

lemma sort_loop_wp:
  assumes "live t nf h0 ws v h" "vec_ok t h v (P @ S)" "P \<noteq> []" "temp \<noteq> None \<Longrightarrow> owned ws v"
  shows "wp nf (sort_loop t cmp (length S) (length P) v temp h)
    (sorted_result t nf h0 ws (temp \<noteq> None) (P @ S) (foldl (ins_right cmp) P S))"
  using assms
proof (induction S arbitrary: P v temp h)
  case Nil
  then show ?case by (simp add: sorted_result_def)
next
  case (Cons x S)
  obtain Q c where P: "P = Q @ [c]" using Cons.prems(3) by (cases P rule: rev_cases) auto
  have "read_item h (Slot (mStorage v) (length P)) = Some x"
    using vec_reads [of t h v P "[x]" S] Cons.prems(2) by (simp add: reads_read_item)
  moreover have "read_item h (Slot (mStorage v) (length P - 1)) = Some c"
    using vec_reads [of t h v Q "[c]" "x # S"] Cons.prems(2) by (simp add: reads_read_item P)
  ultimately have e: "sort_loop t cmp (length (x # S)) (length P) v temp h =
     (if cmp c x > 0 then do {
       (h, v, temp) \<leftarrow> sort_item t cmp (length P) v temp h;
       if temp = None then Some (h, v, NO_MEMORY) else sort_loop t cmp (length S) (Suc (length P)) v temp h }
     else sort_loop t cmp (length S) (Suc (length P)) v temp h)"
    by simp
  show ?case
  proof (cases "cmp c x > 0")
    case False
    then have "ins_right cmp P x = P @ [x]"
      using ins_right_split [of "[]" cmp x P] by (simp add: P)
    then show ?thesis
      using Cons.IH [of v h "P @ [x]" temp] Cons.prems False unfolding e by simp
  next
    case True
    have e': "sort_loop t cmp (length (x # S)) (length P) v temp h =
        sort_item t cmp (Suc (length Q)) v temp h \<bind> (\<lambda>(h, v, temp). if temp = None then Some (h, v, NO_MEMORY)
          else sort_loop t cmp (length S) (Suc (length P)) v temp h)"
      unfolding e using True by (simp add: P)
    have "vec_ok t h v ((Q @ [c]) @ x # S)" using Cons.prems(2) P by simp
    note w = sort_item_wp [where cmp = cmp and x = x, OF Cons.prems(1) this Cons.prems(4) True]
    show ?thesis
      unfolding e'
    proof (rule wp_bind [OF w], goal_cases)
      case (2 z)
      obtain h1 v1 r where z: "z = (h1, v1, r)" by (cases z)
      have len: "length (ins_right cmp P x) = Suc (length P)" "ins_right cmp P x \<noteq> []"
        by (auto simp: ins_right_def Let_def)
      show ?case
      proof (cases r)
        case None
        then show ?thesis using 2 by (auto simp: z sorted_result_def P)
      next
        case (Some y)
        then have v1: "live t nf h0 ws v1 h1" "owned ws v1" "vec_ok t h1 v1 (ins_right cmp P x @ S)"
          using 2 by (auto simp: z P)
        show ?thesis
          using wp_mono [OF Cons.IH [OF v1(1,3) len(2)], of r] v1(2) len(1)
          by (auto simp: z Some sorted_result_def)
      qed
    qed
  qed
qed

lemma vec_sort_wp:
  assumes "live t nf h0 ws v h" "vec_ok t h v xs" "length xs < 2 ^ 63"
  shows "wp nf (vec_sort t cmp v h) (sorted_result t nf h0 ws False xs (insertion_sort cmp xs))"
proof -
  have n: "unat (mCount v) = length xs" using assms(2) by (simp add: vec_ok_def)
  then have i: "sint (mCount v) = int (length xs)"
    using assms(3) sint_small_u64 [of "mCount v"] by simp
  show ?thesis
  proof (cases xs)
    case Nil
    then show ?thesis
      using assms i by (simp add: vec_sort_def sorted_result_def insertion_sort_def)
  next
    case (Cons x S)
    have "insertion_sort cmp xs = foldl (ins_right cmp) [x] S"
      by (simp add: insertion_sort_def Cons ins_right_def greater_suffix_def)
    then show ?thesis
      using sort_loop_wp [OF assms(1), of "[x]" S None cmp] assms(1,2) i n
      by (cases S) (auto simp: vec_sort_def Cons sorted_result_def)
  qed
qed

end
