(* ===== verification/Vector_World.thy ===== *)
theory Vector_World
  imports Vector_Sort
begin

text \<open>
  Programs over any number of vectors.  A program is a list of operations on numbered
  vectors; \<^verbatim>\<open>vec_run\<close> executes it with the code's operations on the shared heap, \<^verbatim>\<open>list_run\<close> on
  independent lists, and the two agree.  The section at the end shows uses of the class that
  go wrong.
\<close>

section \<open>Programs\<close>

datatype 'a vop =
    New
  | Copy nat
  | Assign nat nat
  | Insert nat 'a u64 u64
  | Insert_Vector nat nat u64
  | Replace nat 'a u64
  | Remove nat u64 u64
  | Set_Capacity nat u64
  | Sort nat

type_synonym 'a world = "'a vheap \<times> vec list"

definition on_vec ::
  "nat \<Rightarrow> (vec \<Rightarrow> 'a vheap \<Rightarrow> ('a vheap \<times> vec \<times> int) option) \<Rightarrow> 'a world \<Rightarrow> 'a world option" where
  "on_vec i f W = (case W of (h, vs) \<Rightarrow> do {
     (h, v, _) \<leftarrow> f (vs ! i) h;
     Some (h, vs[i := v]) })"

fun vec_step :: "safe_iop \<Rightarrow> 'a item_type \<Rightarrow> ('a \<Rightarrow> 'a \<Rightarrow> int) \<Rightarrow> 'a vop \<Rightarrow> 'a world \<Rightarrow> 'a world option" where
  "vec_step I t cmp New (h, vs) = Some (h, vs @ [Vector t])"
| "vec_step I t cmp (Copy i) (h, vs) = do { (h, v) \<leftarrow> VectorImpl_copy (vs ! i) h; Some (h, vs @ [v]) }"
| "vec_step I t cmp (Assign i j) (h, vs) = do {
     (h, v) \<leftarrow> VectorImpl_assign t (i = j) (vs ! i) (vs ! j) h;
     Some (h, vs[i := v]) }"
| "vec_step I t cmp (Insert i x k n) W = on_vec i (\<lambda>v. insertAt I t v (Some (Ext [x])) k n) W"
| "vec_step I t cmp (Insert_Vector i j k) W = on_vec i (\<lambda>v. insertVectorAt I t v (snd W ! j) k) W"
| "vec_step I t cmp (Replace i x k) W = on_vec i (\<lambda>v. replaceAt t v (Some (Ext [x])) k) W"
| "vec_step I t cmp (Remove i k n) W = on_vec i (\<lambda>v. removeItemsAt I t v k n) W"
| "vec_step I t cmp (Set_Capacity i n) W = on_vec i (\<lambda>v. setCapacity I t v n) W"
| "vec_step I t cmp (Sort i) W = on_vec i (vec_sort t cmp) W"

fun vec_run :: "safe_iop \<Rightarrow> 'a item_type \<Rightarrow> ('a \<Rightarrow> 'a \<Rightarrow> int) \<Rightarrow> 'a vop list \<Rightarrow> 'a world \<Rightarrow> 'a world option" where
  "vec_run I t cmp [] W = Some W"
| "vec_run I t cmp (op # ops) W = do { W \<leftarrow> vec_step I t cmp op W; vec_run I t cmp ops W }"

definition insert_list :: "nat \<Rightarrow> 'a list \<Rightarrow> 'a list \<Rightarrow> 'a list" where
  "insert_list k ys xs = take k xs @ ys @ drop k xs"

fun list_step :: "('a \<Rightarrow> 'a \<Rightarrow> int) \<Rightarrow> 'a vop \<Rightarrow> 'a list list \<Rightarrow> 'a list list" where
  "list_step cmp New xss = xss @ [[]]"
| "list_step cmp (Copy i) xss = xss @ [xss ! i]"
| "list_step cmp (Assign i j) xss = xss[i := xss ! j]"
| "list_step cmp (Insert i x k n) xss = xss[i := insert_list (unat k) (replicate (unat n) x) (xss ! i)]"
| "list_step cmp (Insert_Vector i j k) xss = xss[i := insert_list (unat k) (xss ! j) (xss ! i)]"
| "list_step cmp (Replace i x k) xss = xss[i := (xss ! i)[unat k := x]]"
| "list_step cmp (Remove i k n) xss =
     xss[i := take (unat k) (xss ! i) @ drop (unat k + unat n) (xss ! i)]"
| "list_step cmp (Set_Capacity i n) xss = xss"
| "list_step cmp (Sort i) xss = xss[i := insertion_sort cmp (xss ! i)]"

fun list_run :: "('a \<Rightarrow> 'a \<Rightarrow> int) \<Rightarrow> 'a vop list \<Rightarrow> 'a list list \<Rightarrow> 'a list list" where
  "list_run cmp [] xss = xss"
| "list_run cmp (op # ops) xss = list_run cmp ops (list_step cmp op xss)"

text \<open>
  What the operations require: vectors that exist, positions inside of them, at least one
  item to insert or remove, another vector as the source, and sizes that fit into memory.
\<close>

fun vop_ok :: "'a item_type \<Rightarrow> 'a vop \<Rightarrow> 'a list list \<Rightarrow> bool" where
  "vop_ok t New xss \<longleftrightarrow> length xss < 2 ^ 31"
| "vop_ok t (Copy i) xss \<longleftrightarrow> i < length xss \<and> length xss < 2 ^ 31"
| "vop_ok t (Assign i j) xss \<longleftrightarrow> i < length xss \<and> j < length xss"
| "vop_ok t (Insert i x k n) xss \<longleftrightarrow> i < length xss \<and> unat k \<le> length (xss ! i) \<and> 0 < n \<and>
     room t (length (xss ! i) + unat n)"
| "vop_ok t (Insert_Vector i j k) xss \<longleftrightarrow> i < length xss \<and> j < length xss \<and> i \<noteq> j \<and>
     unat k \<le> length (xss ! i) \<and> xss ! j \<noteq> [] \<and> room t (length (xss ! i) + length (xss ! j))"
| "vop_ok t (Replace i x k) xss \<longleftrightarrow> i < length xss \<and> unat k < length (xss ! i)"
| "vop_ok t (Remove i k n) xss \<longleftrightarrow> i < length xss \<and> unat k + unat n \<le> length (xss ! i) \<and> 0 < n \<and> room t 0"
| "vop_ok t (Set_Capacity i n) xss \<longleftrightarrow> i < length xss \<and> unat n * unat (sizeof t) + 25 < 2 ^ 64"
| "vop_ok t (Sort i) xss \<longleftrightarrow> i < length xss \<and> length (xss ! i) < 2 ^ 63"

fun vops_ok :: "'a item_type \<Rightarrow> ('a \<Rightarrow> 'a \<Rightarrow> int) \<Rightarrow> 'a vop list \<Rightarrow> 'a list list \<Rightarrow> bool" where
  "vops_ok t cmp [] xss \<longleftrightarrow> True"
| "vops_ok t cmp (op # ops) xss \<longleftrightarrow> vop_ok t op xss \<and> vops_ok t cmp ops (list_step cmp op xss)"

definition world_ok :: "'a item_type \<Rightarrow> 'a world \<Rightarrow> 'a list list \<Rightarrow> bool" where
  "world_ok t W xss \<longleftrightarrow> (case W of (h, vs) \<Rightarrow> heap_ok t h vs \<and> no_fail h \<and> length vs \<le> 2 ^ 31 \<and>
     list_all2 (vec_ok t h) vs xss)"

section \<open>One vector among others\<close>

definition others :: "nat \<Rightarrow> vec list \<Rightarrow> vec list" where
  "others i vs = take i vs @ drop (Suc i) vs"

lemma refcount_append: "refcount (vs @ ws) a = refcount vs a + refcount ws a"
  by (induction vs) auto

lemma refcount_others: "i < length vs \<Longrightarrow> refcount (v # others i vs) a = refcount (vs[i := v]) a"
  by (simp add: others_def refcount_append upd_conv_take_nth_drop)

lemma heap_ok_others: "i < length vs \<Longrightarrow> heap_ok t h (v # others i vs) = heap_ok t h (vs[i := v])"
  using refcount_others heap_ok_cong by metis

lemma in_others:
  assumes "j < length vs" "j \<noteq> i"
  shows "vs ! j \<in> set (others i vs)"
proof (cases "j < i")
  case True
  then have "vs ! j = take i vs ! j" "j < length (take i vs)" using assms by auto
  then show ?thesis unfolding others_def by (metis UnI1 nth_mem set_append)
next
  case False
  then have "vs ! j = drop (Suc i) vs ! (j - Suc i)" "j - Suc i < length (drop (Suc i) vs)"
    using assms by auto
  then show ?thesis unfolding others_def by (metis UnI2 nth_mem set_append)
qed

lemma world_focus:
  assumes "world_ok t (h, vs) xss" "i < length xss"
  shows "live t True h (others i vs) (vs ! i) h" "vec_ok t h (vs ! i) (xss ! i)" "i < length vs"
proof -
  show i: "i < length vs" and "vec_ok t h (vs ! i) (xss ! i)"
    using assms by (auto simp: world_ok_def list_all2_conv_all_nth)
  have "heap_ok t h (vs ! i # others i vs)"
    using assms(1) heap_ok_others [OF i, of t h "vs ! i"] by (simp add: world_ok_def)
  then show "live t True h (others i vs) (vs ! i) h"
    using assms(1) i by (auto simp: live_def world_ok_def others_def)
qed

lemma world_unfocus:
  assumes "world_ok t (h, vs) xss" "i < length vs" "live t True h (others i vs) v h'" "vec_ok t h' v xs"
  shows "world_ok t (h', vs[i := v]) (xss[i := xs])"
proof -
  have len: "length vs = length xss" using assms(1) by (auto simp: world_ok_def list_all2_lengthD)
  have "vec_ok t h' (vs ! j) (xss ! j)" if "j < length vs" "j \<noteq> i" for j
    using vec_ok_keeps [of t h "vs ! j" "xss ! j" "others i vs" h'] in_others [OF that] assms(1,3) that
    by (auto simp: world_ok_def live_def list_all2_conv_all_nth)
  then have "list_all2 (vec_ok t h') (vs[i := v]) (xss[i := xs])"
    using assms(2,4) len by (auto simp: list_all2_conv_all_nth nth_list_update)
  then show ?thesis
    using assms heap_ok_others [OF assms(2), of t h' v] by (simp add: world_ok_def live_def)
qed

lemma wp_True: "wp True m P \<longleftrightarrow> (\<exists>r. m = Some r \<and> P r)"
  by (cases m) auto

lemma on_vec_ok:
  assumes "world_ok t (h, vs) xss" "i < length xss"
    and "\<And>v. live t True h (others i vs) v h \<Longrightarrow> vec_ok t h v (xss ! i) \<Longrightarrow>
      wp True (f v h) (\<lambda>(h', v', r). live t True h (others i vs) v' h' \<and> vec_ok t h' v' xs)"
  shows "\<exists>W'. on_vec i f (h, vs) = Some W' \<and> world_ok t W' (xss[i := xs])"
proof -
  note fc = world_focus [OF assms(1,2)]
  obtain h' v' r where "f (vs ! i) h = Some (h', v', r)" "live t True h (others i vs) v' h'" "vec_ok t h' v' xs"
    using assms(3) [OF fc(1,2)] by (auto simp: wp_True)
  then show ?thesis
    using world_unfocus [OF assms(1) fc(3)] by (simp add: on_vec_def)
qed

section \<open>Every step\<close>

lemma world_extend:
  assumes "world_ok t (h, vs) xss" "length vs < 2 ^ 31" "heap_ok t h' (v # vs)" "keeps h h' vs"
    and "av h' = av h" "vec_ok t h' v xs"
  shows "world_ok t (h', vs @ [v]) (xss @ [xs])"
proof -
  have "heap_ok t h' (vs @ [v])"
    using assms(3) heap_ok_cong [of "vs @ [v]" "v # vs" t h'] by (simp add: refcount_append)
  moreover have "list_all2 (vec_ok t h') vs xss"
    using assms(1) vec_ok_keeps [OF _ _ assms(4)]
    by (auto simp: world_ok_def elim!: list_all2_mono list.rel_mono_strong)
  ultimately show ?thesis
    using assms by (auto simp: world_ok_def no_fail_def intro!: list_all2_appendI)
qed

definition steps_ok :: "safe_iop \<Rightarrow> 'a item_type \<Rightarrow> ('a \<Rightarrow> 'a \<Rightarrow> int) \<Rightarrow> 'a vop \<Rightarrow> bool" where
  "steps_ok I t cmp op \<longleftrightarrow> (\<forall>h vs xss. world_ok t (h, vs) xss \<longrightarrow> vop_ok t op xss \<longrightarrow>
     (\<exists>W'. vec_step I t cmp op (h, vs) = Some W' \<and> world_ok t W' (list_step cmp op xss)))"

lemma step_New: "steps_ok I t cmp New"
  unfolding steps_ok_def
proof (intro allI impI)
  fix h vs xss
  assume W: "world_ok t (h, vs) xss" and ok: "vop_ok t New xss"
  have "heap_ok t h (Vector t # vs)" "vec_ok t h (Vector t) []"
    using W heap_ok_cong [of "Vector t # vs" vs t h]
    by (auto simp: world_ok_def vec_ok_def vec_typed_def Vector_def VectorImpl_def)
  then show "\<exists>W'. vec_step I t cmp New (h, vs) = Some W' \<and> world_ok t W' (list_step cmp New xss)"
    using world_extend [OF W, of h "Vector t" "[]"] ok W by (auto simp: world_ok_def list_all2_lengthD)
qed

lemma step_Copy: "steps_ok I t cmp (Copy i)"
  unfolding steps_ok_def
proof (intro allI impI)
  fix h vs xss
  assume W: "world_ok t (h, vs) xss" and ok: "vop_ok t (Copy i) xss"
  then have i: "i < length xss" by simp
  obtain h' where "VectorImpl_copy (vs ! i) h = Some (h', vs ! i)" "heap_ok t h' (vs ! i # vs)"
    "keeps h h' (vs ! i # vs)" "vec_ok t h' (vs ! i) (xss ! i)" "av h' = av h"
    using VectorImpl_copy_ok [of t h vs "vs ! i" "xss ! i"] world_focus [OF W i] W
    by (auto simp: world_ok_def)
  moreover have "keeps h h' vs" using calculation(3) by (auto simp: keeps_def)
  ultimately show "\<exists>W'. vec_step I t cmp (Copy i) (h, vs) = Some W' \<and>
      world_ok t W' (list_step cmp (Copy i) xss)"
    using world_extend [OF W, of h' "vs ! i" "xss ! i"] ok W
    by (auto simp: world_ok_def list_all2_lengthD)
qed

lemma step_Assign: "steps_ok I t cmp (Assign i j)"
  unfolding steps_ok_def
proof (intro allI impI)
  fix h vs xss
  assume W: "world_ok t (h, vs) xss" and ok: "vop_ok t (Assign i j) xss"
  then have ij: "i < length xss" "j < length xss" by auto
  note fi = world_focus [OF W ij(1)] and fj = world_focus [OF W ij(2)]
  show "\<exists>W'. vec_step I t cmp (Assign i j) (h, vs) = Some W' \<and>
      world_ok t W' (list_step cmp (Assign i j) xss)"
  proof (cases "i = j")
    case True
    then show ?thesis using W by (simp add: VectorImpl_assign_def)
  next
    case False
    then obtain h' v' where "VectorImpl_assign t False (vs ! i) (vs ! j) h = Some (h', v')"
      "live t True h (others i vs) v' h'" "vec_ok t h' v' (xss ! j)"
      using VectorImpl_assign_wp [OF fi(1,2) in_others fj(2)] fj(3) by (auto simp: wp_True)
    then show ?thesis
      using world_unfocus [OF W fi(3)] False by simp
  qed
qed

lemma on_vec_steps_ok:
  assumes "\<And>W. vec_step I t cmp op W = on_vec i (f (snd W)) W"
    and "\<And>xss. vop_ok t op xss \<Longrightarrow> i < length xss \<and> list_step cmp op xss = xss[i := g xss]"
    and "\<And>h vs xss v. world_ok t (h, vs) xss \<Longrightarrow> vop_ok t op xss \<Longrightarrow>
      live t True h (others i vs) v h \<Longrightarrow> vec_ok t h v (xss ! i) \<Longrightarrow>
      wp True (f vs v h) (\<lambda>(h', v', r). live t True h (others i vs) v' h' \<and> vec_ok t h' v' (g xss))"
  shows "steps_ok I t cmp op"
  unfolding steps_ok_def
proof (intro allI impI)
  fix h vs xss
  assume W: "world_ok t (h, vs) xss" and ok: "vop_ok t op xss"
  then have "\<exists>W'. on_vec i (f vs) (h, vs) = Some W' \<and> world_ok t W' (xss[i := g xss])"
    using assms(2) [OF ok] assms(3) [OF W ok] by (intro on_vec_ok [OF W]) auto
  then show "\<exists>W'. vec_step I t cmp op (h, vs) = Some W' \<and> world_ok t W' (list_step cmp op xss)"
    using assms(1,2) ok by simp
qed

lemma step_Insert:
  assumes I: "safe_iop_ok I"
  shows "steps_ok I t cmp (Insert i x k n)"
proof (rule on_vec_steps_ok [where f = "\<lambda>_ v. insertAt I t v (Some (Ext [x])) k n"])
  fix h vs xss v
  assume ok: "vop_ok t (Insert i x k n) xss"
    and v: "live t True h (others i vs) v h" "vec_ok t h v (xss ! i)"
  have "wp True (insertAt I t v (Some (Ext [x])) k n h) (inserted t True True h (others i vs) k
      (take (unat k) (xss ! i) @ drop (unat k) (xss ! i))
      (take (unat k) (xss ! i) @ replicate (unat n) x @ drop (unat k) (xss ! i)))"
    using ok v by (intro insertAt_wp [OF I v(1) _ _ _ _ live_mem_ok [OF v(1)]]) (auto simp: word_less_nat_alt elim!: room_mono)
  then show "wp True (insertAt I t v (Some (Ext [x])) k n h) (\<lambda>(h', v', r).
      live t True h (others i vs) v' h' \<and>
      vec_ok t h' v' (insert_list (unat k) (replicate (unat n) x) (xss ! i)))"
    by (rule wp_mono) (auto simp: inserted_def insert_list_def)
qed auto

lemma step_Insert_Vector:
  assumes I: "safe_iop_ok I"
  shows "steps_ok I t cmp (Insert_Vector i j k)"
proof (rule on_vec_steps_ok [where f = "\<lambda>vs v. insertVectorAt I t v (vs ! j) k"])
  fix h vs xss v
  assume W: "world_ok t (h, vs) xss" and ok: "vop_ok t (Insert_Vector i j k) xss"
    and v: "live t True h (others i vs) v h" "vec_ok t h v (xss ! i)"
  have j: "j < length xss" "i \<noteq> j" using ok by auto
  note fj = world_focus [OF W j(1)]
  have "source h (others i vs) (Slot (mStorage (vs ! j)) 0) (xss ! j)"
    using source_vec [OF in_others fj(2)] fj(3) j(2) by simp
  moreover have "unat (mCount (vs ! j)) = length (xss ! j)" using fj(2) by (simp add: vec_ok_def)
  ultimately have "wp True (insertVectorAt I t v (vs ! j) k h) (inserted t True True h (others i vs) k
      (take (unat k) (xss ! i) @ drop (unat k) (xss ! i))
      (take (unat k) (xss ! i) @ xss ! j @ drop (unat k) (xss ! i)))"
    unfolding insertVectorAt_def using ok v
    by (intro insertArrayAt_wp [OF I v(1) _ _ _ _ _ live_mem_ok [OF v(1)]]) (auto elim!: room_mono)
  then show "wp True (insertVectorAt I t v (vs ! j) k h) (\<lambda>(h', v', r).
      live t True h (others i vs) v' h' \<and> vec_ok t h' v' (insert_list (unat k) (xss ! j) (xss ! i)))"
    by (rule wp_mono) (auto simp: inserted_def insert_list_def)
qed auto

lemma step_Replace: "steps_ok I t cmp (Replace i x k)"
proof (rule on_vec_steps_ok [where f = "\<lambda>_ v. replaceAt t v (Some (Ext [x])) k"])
  fix h vs xss v
  assume ok: "vop_ok t (Replace i x k) xss"
    and v: "live t True h (others i vs) v h" "vec_ok t h v (xss ! i)"
  let ?A = "take (unat k) (xss ! i)" and ?B = "drop (Suc (unat k)) (xss ! i)"
  have k: "unat k < length (xss ! i)" "unat k = length ?A" using ok by auto
  have "vec_ok t h v (?A @ xss ! i ! unat k # ?B)"
    using v(2) id_take_nth_drop [OF k(1)] by simp
  then have "wp True (replaceAt t v (Some (Ext [x])) k h) (\<lambda>(h', v', r).
      live t True h (others i vs) v' h' \<and> r = sint k \<and> vec_ok t h' v' (?A @ x # ?B))"
    by (rule replaceAt_wp [OF v(1) _ k(2)]) simp
  then show "wp True (replaceAt t v (Some (Ext [x])) k h) (\<lambda>(h', v', r).
      live t True h (others i vs) v' h' \<and> vec_ok t h' v' ((xss ! i)[unat k := x]))"
    by (rule wp_mono) (use k(1) in \<open>auto simp: upd_conv_take_nth_drop\<close>)
qed auto

lemma step_Remove:
  assumes I: "safe_iop_ok I"
  shows "steps_ok I t cmp (Remove i k n)"
proof (rule on_vec_steps_ok [where f = "\<lambda>_ v. removeItemsAt I t v k n"])
  fix h vs xss v
  assume ok: "vop_ok t (Remove i k n) xss"
    and v: "live t True h (others i vs) v h" "vec_ok t h v (xss ! i)"
  let ?A = "take (unat k) (xss ! i)" and ?C = "take (unat n) (drop (unat k) (xss ! i))"
  let ?B = "drop (unat k + unat n) (xss ! i)"
  have "?A @ ?C @ ?B = xss ! i" by (metis add.commute append_take_drop_id drop_drop)
  then have s: "vec_ok t h v (?A @ ?C @ ?B)" using v(2) by metis
  have k: "unat k = length ?A" "unat n = length ?C" "?C \<noteq> [] \<or> ?B = []" "room t 0"
    using ok by (auto simp: word_less_nat_alt)
  show "wp True (removeItemsAt I t v k n h) (\<lambda>(h', v', r).
      live t True h (others i vs) v' h' \<and> vec_ok t h' v' (?A @ ?B))"
    by (rule wp_mono [OF removeItemsAt_wp [OF I v(1) s k]]) (auto simp: removed_def)
qed auto

lemma step_Set_Capacity:
  assumes I: "safe_iop_ok I"
  shows "steps_ok I t cmp (Set_Capacity i n)"
proof (rule on_vec_steps_ok [where f = "\<lambda>_ v. setCapacity I t v n"])
  fix h vs xss v
  assume ok: "vop_ok t (Set_Capacity i n) xss"
    and v: "live t True h (others i vs) v h" "vec_ok t h v (xss ! i)"
  show "wp True (setCapacity I t v n h) (\<lambda>(h', v', r).
      live t True h (others i vs) v' h' \<and> vec_ok t h' v' (xss ! i))"
    by (rule wp_mono [OF setCapacity_wp [OF I v]]) (use ok in auto)
qed auto

lemma step_Sort: "steps_ok I t cmp (Sort i)"
proof (rule on_vec_steps_ok [where f = "\<lambda>_. vec_sort t cmp"])
  fix h vs xss v
  assume ok: "vop_ok t (Sort i) xss"
    and v: "live t True h (others i vs) v h" "vec_ok t h v (xss ! i)"
  show "wp True (vec_sort t cmp v h) (\<lambda>(h', v', r).
      live t True h (others i vs) v' h' \<and> vec_ok t h' v' (insertion_sort cmp (xss ! i)))"
    by (rule wp_mono [OF vec_sort_wp [OF v]]) (use ok in \<open>auto simp: sorted_result_def\<close>)
qed auto

lemma steps_ok:
  assumes "safe_iop_ok I"
  shows "steps_ok I t cmp op"
  using assms by (cases op) (simp_all add: step_New step_Copy step_Assign step_Insert step_Insert_Vector
      step_Replace step_Remove step_Set_Capacity step_Sort)

section \<open>Correctness of programs\<close>

definition items :: "'a vheap \<Rightarrow> vec \<Rightarrow> 'a option list" where
  "items h v = map (\<lambda>i. itemAt v (of_nat i) h) [0..<unat (mCount v)]"

definition empty_heap :: "'a vheap" where
  "empty_heap = \<lparr>bufs = Map.empty, fresh = 0, av = []\<rparr>"

lemma items_ok:
  assumes "vec_ok t h v xs"
  shows "items h v = map Some xs"
proof -
  have n: "unat (mCount v) = length xs" using assms by (simp add: vec_ok_def)
  have "itemAt v (of_nat i) h = Some (xs ! i)" if i: "i < length xs" for i
  proof -
    have "unat (of_nat i :: u64) = i"
      using i n unat_u64 [of "mCount v"] by (simp add: unat_of_nat take_bit_nat_eq_self)
    moreover have "reads h (Slot (mStorage v) (length (take i xs))) [xs ! i]"
      using vec_reads [of t h v "take i xs" "[xs ! i]" "drop (Suc i) xs"] assms id_take_nth_drop [OF i]
      by simp
    ultimately show ?thesis
      using i by (simp add: itemAt_def reads_read_item)
  qed
  then show ?thesis
    unfolding items_def n by (intro nth_equalityI) auto
qed

lemma vec_run_ok:
  assumes "safe_iop_ok I" "world_ok t W xss" "vops_ok t cmp ops xss"
  shows "\<exists>W'. vec_run I t cmp ops W = Some W' \<and> world_ok t W' (list_run cmp ops xss)"
  using assms(2,3)
proof (induction ops arbitrary: W xss)
  case (Cons op ops)
  obtain h vs where W: "W = (h, vs)" by (cases W)
  obtain W' where "vec_step I t cmp op W = Some W'" "world_ok t W' (list_step cmp op xss)"
    using steps_ok [OF assms(1), of t cmp op] Cons.prems unfolding steps_ok_def W vops_ok.simps by blast
  then show ?case using Cons.IH [of W' "list_step cmp op xss"] Cons.prems by simp
qed simp

text \<open>
  C8: a program over vectors that share and unshare their storage behaves as the same program
  over independent lists: it never touches memory it does not own, and at the end every
  vector holds the items of its list.  Every block that is still allocated belongs to a
  vector, with as many references as vectors use it.
\<close>

theorem vectors_refine_lists:
  assumes "safe_iop_ok I" "0 < sizeof t" "vops_ok t cmp ops []"
  shows "\<exists>h vs. vec_run I t cmp ops (empty_heap, []) = Some (h, vs) \<and>
    map (items h) vs = map (map Some) (list_run cmp ops []) \<and>
    (\<forall>a. map_option mRefs (bufs h a) =
       (if refcount vs a = 0 then None else Some (of_nat (refcount vs a))))"
proof -
  have "world_ok t (empty_heap, []) []"
    using assms(2) by (simp add: world_ok_def heap_ok_def empty_heap_def no_fail_def)
  then obtain h vs where r: "vec_run I t cmp ops (empty_heap, []) = Some (h, vs)"
    "world_ok t (h, vs) (list_run cmp ops [])"
    using vec_run_ok [OF assms(1) _ assms(3)] by fastforce
  then have w: "heap_ok t h vs" "list_all2 (vec_ok t h) vs (list_run cmp ops [])"
    by (auto simp: world_ok_def)
  have "map (items h) vs = map (map Some) (list_run cmp ops [])"
    using w(2) by (induction rule: list_all2_induct) (auto simp: items_ok)
  moreover have "map_option mRefs (bufs h a) =
      (if refcount vs a = 0 then None else Some (of_nat (refcount vs a)))" for a
  proof (cases "bufs h a")
    case None
    have "mStorage v \<noteq> Some a" if "v \<in> set vs" for v
      using that w(2) None by (auto simp: list_all2_conv_all_nth in_set_conv_nth vec_ok_def split: option.splits)
    then have "refcount vs a = 0"
      unfolding refcount_def by (simp add: count_list_0_iff) (metis imageE)
    then show ?thesis using None by simp
  next
    case (Some b)
    then show ?thesis using heap_okD(1) [OF w(1) Some] by (simp add: buf_ok_def)
  qed
  ultimately show ?thesis using r(1) by blast
qed

definition iop_exact :: safe_iop where
  "iop_exact = \<lparr>
     safe_add = (\<lambda>a b. if unat a + unat b < 2 ^ 64 then Some (a + b) else None),
     safe_sub = (\<lambda>a b. if b \<le> a then Some (a - b) else None),
     safe_mul = (\<lambda>a b. if unat a * unat b < 2 ^ 64 then Some (a * b) else None)\<rparr>"

definition int_items :: "int item_type" where
  "int_items = \<lparr>has_trivial_ctor = False, has_trivial_dtor = False, has_trivial_copy = False,
     has_trivial_move = False, sizeof = 8, dflt = 0\<rparr>"

lemma iop_exact_ok: "safe_iop_ok iop_exact"
  by (simp add: safe_iop_ok_def iop_exact_def)

theorem vectors_refine_lists_witness:
  "\<exists>h vs. vec_run iop_exact int_items (-)
        [New, Insert 0 7 0 1, Copy 0, Insert 0 3 1 1, Sort 0, Replace 1 9 0] (empty_heap, []) = Some (h, vs) \<and>
      map (items h) vs = [[Some 3, Some 7], [Some 9]]"
  using vectors_refine_lists [OF iop_exact_ok, of int_items "(-)"
      "[New, Insert 0 7 0 1, Copy 0, Insert 0 3 1 1, Sort 0, Replace 1 9 0]"]
  by (auto simp: insert_list_def insertion_sort_def ins_right_def greater_suffix_def Let_def int_items_def room_def)

text \<open>
  C16: sorting a vector makes it a sorted permutation of its items in which items that compare
  equal keep their order, and leaves every other vector as it was, also one that shared the
  storage.  The sort aborts or gives up only when an allocation fails, and when it gives up
  nothing has changed.
\<close>

theorem vec_sort_stable:
  assumes "comparator cmp" "heap_ok t h (v # ws)" "length ws + 2 < 2 ^ 32" "vec_ok t h v xs"
    and "length xs < 2 ^ 63"
  shows "case vec_sort t cmp v h of None \<Rightarrow> \<not> no_fail h
    | Some (h', v', r) \<Rightarrow>
        (r = NO_ERROR \<and> (\<exists>ys. items h' v' = map Some ys \<and> mset ys = mset xs \<and>
           sorted_wrt (\<lambda>x y. cmp x y \<le> 0) ys \<and>
           (\<forall>k. filter (\<lambda>y. cmp y k = 0) ys = filter (\<lambda>y. cmp y k = 0) xs)) \<or>
         r = NO_MEMORY \<and> \<not> no_fail h \<and> items h' v' = map Some xs) \<and>
        (\<forall>w \<in> set ws. \<forall>ys. vec_ok t h w ys \<longrightarrow> vec_ok t h' w ys)"
proof -
  have "live t (no_fail h) h ws v h" using assms(2,3) by (simp add: live_def)
  then have w: "wp (no_fail h) (vec_sort t cmp v h)
      (sorted_result t (no_fail h) h ws False xs (insertion_sort cmp xs))"
    using vec_sort_wp [OF _ assms(4,5)] by blast
  show ?thesis
  proof (cases "vec_sort t cmp v h")
    case None
    then show ?thesis using w by simp
  next
    case (Some x)
    obtain h' v' r where x: "x = (h', v', r)" by (cases x)
    have s: "sorted_result t (no_fail h) h ws False xs (insertion_sort cmp xs) (h', v', r)"
      using w by (simp add: Some x)
    then have k: "keeps h h' ws" by (auto simp: sorted_result_def live_def)
    have "(r = NO_ERROR \<and> items h' v' = map Some (insertion_sort cmp xs)) \<or>
        (r = NO_MEMORY \<and> \<not> no_fail h \<and> items h' v' = map Some xs)"
      using s items_ok by (auto simp: sorted_result_def)
    moreover have "\<forall>w \<in> set ws. \<forall>ys. vec_ok t h w ys \<longrightarrow> vec_ok t h' w ys"
      using vec_ok_keeps [OF _ _ k] by blast
    ultimately show ?thesis
      using insertion_sort_correct [OF assms(1)] by (auto simp: Some x)
  qed
qed

definition two_items :: "int vheap" where
  "two_items = \<lparr>bufs = [0 \<mapsto> \<lparr>mRefs = 2, mSize = 16, slots = [Some 7, Some 3]\<rparr>], fresh = 1, av = []\<rparr>"

definition two_vec :: vec where
  "two_vec = (Vector int_items)\<lparr>mStorage := Some 0, mCount := 2\<rparr>"

lemma two_vec_ok: "heap_ok int_items two_items [two_vec, two_vec]" "vec_ok int_items two_items two_vec [7, 3]"
  by (auto simp: heap_ok_def buf_ok_def two_items_def two_vec_def int_items_def vec_ok_def vec_typed_def
      stores_def Vector_def VectorImpl_def)

lemma int_comparator: "comparator ((-) :: int \<Rightarrow> int \<Rightarrow> int)"
  by (simp add: comparator_def)

theorem vec_sort_stable_witness:
  "\<exists>h v ys. vec_sort int_items (-) two_vec two_items = Some (h, v, NO_ERROR) \<and>
     items h v = map Some ys \<and> mset ys = {#3, 7#} \<and> sorted_wrt (\<le>) ys \<and> vec_ok int_items h two_vec [7, 3]"
proof -
  have "no_fail two_items" by (simp add: no_fail_def two_items_def)
  then show ?thesis
    using vec_sort_stable [OF int_comparator two_vec_ok(1) _ two_vec_ok(2)] two_vec_ok(2)
    by (auto split: option.splits)
qed

text \<open>
  C40: An insertion either puts the items at the position, or returns \<^verbatim>\<open>NO_MEMORY\<close> with the items
  unchanged, the latter only when the block is too small and the next allocation fails.  It aborts
  in exactly one case: the block has room for the items but is shared with another vector, so that
  it must be copied, and the next allocation fails; there \<^verbatim>\<open>editArrayImpl\<close> aborts by its check.
  No other vector changes, whether or not it shares the storage.
\<close>

theorem insertAt_all_or_nothing:
  assumes "safe_iop_ok I" "heap_ok t h (v # ws)" "length ws + 2 < 2 ^ 32" "vec_ok t h v xs"
    and "unat i \<le> length xs" "0 < n" "room t (length xs + unat n)" "source h ws p [x]"
  shows "case insertAt I t v (Some p) i n h of
      None \<Rightarrow> spare h v (unat n) \<and> \<not> owned ws v \<and> \<not> malloc_ok h
    | Some (h', v', r) \<Rightarrow> \<not> (spare h v (unat n) \<and> \<not> owned ws v \<and> \<not> malloc_ok h) \<and>
        (r = sint i \<and> items h' v' = map Some (take (unat i) xs @ replicate (unat n) x @ drop (unat i) xs) \<or>
         r = NO_MEMORY \<and> \<not> spare h v (unat n) \<and> \<not> malloc_ok h \<and> items h' v' = map Some xs) \<and>
        (\<forall>w \<in> set ws. \<forall>ys. vec_ok t h w ys \<longrightarrow> vec_ok t h' w ys)"
proof -
  let ?A = "take (unat i) xs" and ?B = "drop (unat i) xs" and ?ok = "malloc_ok h \<or> spare h v (unat n)"
  let ?tot = "malloc_ok h \<or> owned ws v \<or> \<not> spare h v (unat n)"
  have l: "live t False h ws v h" using assms(2,3) by (simp add: live_def)
  have w: "wp ?tot (insertAt I t v (Some p) i n h)
      (inserted t False ?ok h ws i (?A @ ?B) (?A @ replicate (unat n) x @ ?B))"
    using assms by (intro insertAt_wp [OF assms(1) l]) (auto simp: word_less_nat_alt mem_ok_def add.commute)
  show ?thesis
  proof (cases "insertAt I t v (Some p) i n h")
    case None
    then show ?thesis using w by simp
  next
    case (Some z)
    obtain h' v' r where z: "z = (h', v', r)" by (cases z)
    have s: "inserted t False ?ok h ws i (?A @ ?B) (?A @ replicate (unat n) x @ ?B) (h', v', r)"
      using w by (simp add: Some z)
    then have k: "keeps h h' ws" by (auto simp: inserted_def live_def)
    have "r = sint i \<and> items h' v' = map Some (?A @ replicate (unat n) x @ ?B) \<or>
        r = NO_MEMORY \<and> \<not> ?ok \<and> items h' v' = map Some xs"
      using s items_ok unfolding inserted_def append_take_drop_id by blast
    moreover have "\<forall>w \<in> set ws. \<forall>ys. vec_ok t h w ys \<longrightarrow> vec_ok t h' w ys"
      using vec_ok_keeps [OF _ _ k] by blast
    moreover have ?tot using insertAt_aborts [OF assms(1) l assms(4,5,7)] Some by fastforce
    ultimately show ?thesis unfolding Some z option.case prod.case by blast
  qed
qed

theorem insertAt_all_or_nothing_witness:
  "\<exists>h v r. insertAt iop_exact int_items two_vec (Some (Ext [5])) 1 1 two_items = Some (h, v, r) \<and>
     items h v = [Some 7, Some 5, Some 3] \<and> vec_ok int_items h two_vec [7, 3]"
proof -
  have "malloc_ok two_items" "room int_items (Suc (Suc (Suc 0)))"
    by (auto simp: malloc_ok_def two_items_def room_def int_items_def)
  then show ?thesis
    using insertAt_all_or_nothing [OF iop_exact_ok two_vec_ok(1) _ two_vec_ok(2), of 1 1 "Ext [5]" 5]
      two_vec_ok(2)
    by (auto split: option.splits)
qed

section \<open>Uses that go wrong\<close>

text \<open>A vector whose block is full, and one with room for another item.\<close>

definition one_vec :: vec where
  "one_vec = (Vector int_items)\<lparr>mStorage := Some 0, mCount := 1\<rparr>"

definition full_heap :: "int vheap" where
  "full_heap = \<lparr>bufs = [0 \<mapsto> \<lparr>mRefs = 1, mSize = 8, slots = [Some 7]\<rparr>], fresh = 1, av = []\<rparr>"

definition roomy_heap :: "int vheap" where
  "roomy_heap = \<lparr>bufs = [0 \<mapsto> \<lparr>mRefs = 1, mSize = 16, slots = [Some 7, None]\<rparr>], fresh = 1, av = []\<rparr>"

definition failing_heap :: "int vheap" where
  "failing_heap = \<lparr>bufs = [0 \<mapsto> \<lparr>mRefs = 1, mSize = 80, slots = Some 7 # replicate 9 None\<rparr>],
     fresh = 1, av = [False]\<rparr>"

lemmas vec_defs = insertAt_def grow_def grow_storage_def grow_capacity_def capacity_def iop_exact_def int_items_def
  one_vec_def full_heap_def roomy_heap_def failing_heap_def Vector_def VectorImpl_def type_flags_def moves_block_def
  sb_alloc_def sizeof_SharedBuffer_def malloc_ok_def malloc_next_def new_buf_def kMinVectorCapacity_def
  copy_around_def do_copy_def copy_type_def read_item_def construct_at_def set_slots_def put_buf_def
  release_storage_def sb_release_def onlyOwner_def do_destroy_def destroy_type_def destroy_at_def
  sb_dealloc_def free_buf_def itemLocation_def splat_type_def HAS_TRIVIAL_CTOR_def HAS_TRIVIAL_DTOR_def
  HAS_TRIVIAL_COPY_def editArrayImpl_def sb_attemptEdit_def move_forward_type_def move_backward_type_def
  moves_bits_def move_item_def removeItemsAt_def shrink_def insertArrayAt_def insertVectorAt_def

text \<open>An item of a full vector cannot be appended to the vector itself: it is read after it was freed.\<close>

theorem push_own_item: "vec_add iop_exact int_items one_vec (Some (Slot (Some 0) 0)) full_heap = None"
  by (simp add: vec_add_def vec_defs)

text \<open>Inserting no items at all in front of an item destroys the item, or is reported as lack of memory.\<close>

theorem insert_nothing_destroys: "insertAt iop_exact int_items one_vec (Some (Ext [1])) 0 0 roomy_heap = None"
  by (simp add: vec_defs)

theorem append_nothing_no_memory:
  "insertVectorAt iop_exact int_items (Vector int_items) (Vector int_items) 0 full_heap =
     Some (full_heap, Vector int_items, NO_MEMORY)"
  by (simp add: vec_defs)

text \<open>The check of the range to remove wraps around.\<close>

theorem remove_range_wraps: "removeItemsAt iop_exact int_items one_vec (- 1) 1 roomy_heap = None"
proof -
  have "2 \<le> unat (- 1 :: u64)" using word_le_nat_alt [of 2 "- 1 :: u64"] by simp
  then obtain m where "unat (- 1 :: u64) = Suc (Suc m)" by (metis add_2_eq_Suc le_Suc_ex)
  then show ?thesis by (simp add: vec_defs)
qed

text \<open>A removal that runs out of memory removes nothing and returns success.\<close>

theorem remove_failure_unnoticed:
  "removeItemsAt iop_exact int_items one_vec 0 1 failing_heap = Some (failing_heap\<lparr>av := []\<rparr>, one_vec, 0)"
  by (simp add: vec_defs)

end
