(* ===== verification/Record_Stream.thy ===== *)
theory Record_Stream
  imports Prelude "HOL-Library.Sublist"
begin

text \<open>
  The record streams of libcutils (\<^verbatim>\<open>record_stream.c\<close>): records with a four-byte big-endian length are read from
  a descriptor through a buffer that holds one record of the maximal length, however the bytes
  arrive.

  Pointers into the buffer are offsets.  The descriptor is the list of the bytes still to come; how many
  of them a call of \<^verbatim>\<open>read\<close> gets, or that it fails, is a parameter of each call.  A failed
  \<^verbatim>\<open>assert\<close> is \<^term>\<open>None\<close>.
\<close>

section \<open>The stream\<close>

text \<open>What the descriptor is ready for: at most so many bytes more than one, or an error.\<close>

datatype readiness = Ready nat | Error int

fun read_fd :: "readiness \<Rightarrow> nat \<Rightarrow> byte list \<Rightarrow> (int + byte list) \<times> byte list" where
  "read_fd (Error e) count inp = (Inl e, inp)"
| "read_fd (Ready k) count inp = (Inr (take (min (Suc k) count) inp), drop (min (Suc k) count) inp)"

abbreviation HEADER_SIZE :: nat where "HEADER_SIZE \<equiv> 4"

record RecordStream =
  maxRecordLen :: nat
  buffer :: "byte list"
  unconsumed :: nat
  read_end :: nat

text \<open>The result of the second allocation is not checked, and an offset to a null pointer is undefined.\<close>

definition record_stream_new :: "nat \<Rightarrow> nat \<Rightarrow> RecordStream option option" where
  "record_stream_new max_len av = (if \<not> max_len \<le> 0xffff then None
     else if av = 0 then Some None
     else if av = 1 then None
     else Some (Some \<lparr>maxRecordLen = max_len, buffer = replicate (max_len + HEADER_SIZE) 0,
       unconsumed = 0, read_end = 0\<rparr>))"

definition ntohl_at :: "byte list \<Rightarrow> nat \<Rightarrow> nat" where
  "ntohl_at b p = unat (un_le32 (rev (take 4 (drop p b))))"

definition getEndOfRecord :: "byte list \<Rightarrow> nat \<Rightarrow> nat \<Rightarrow> nat option" where
  "getEndOfRecord b p_begin p_end = (if p_end < p_begin + HEADER_SIZE then None
     else let p_ret = p_begin + HEADER_SIZE + ntohl_at b p_begin in
       if p_end < p_ret then None else Some p_ret)"

text \<open>The record found, as its bytes.\<close>

definition getNextRecord :: "RecordStream \<Rightarrow> byte list option \<times> RecordStream" where
  "getNextRecord rs = (case getEndOfRecord (buffer rs) (unconsumed rs) (read_end rs) of
       Some record_end \<Rightarrow> let record_start = unconsumed rs + HEADER_SIZE in
         (Some (take (record_end - record_start) (drop record_start (buffer rs))), rs\<lparr>unconsumed := record_end\<rparr>)
     | None \<Rightarrow> (None, rs))"

text \<open>Moving the unread bytes to the front of the buffer.\<close>

definition move_remainder :: "RecordStream \<Rightarrow> RecordStream" where
  "move_remainder rs = (if unconsumed rs \<noteq> 0 then
       let toMove = read_end rs - unconsumed rs in
       rs\<lparr>buffer := take toMove (drop (unconsumed rs) (buffer rs)) @ drop toMove (buffer rs),
          read_end := toMove, unconsumed := 0\<rparr>
     else rs)"

datatype get_result = GotRecord "byte list" | EndOfStream | ReadFailed int | NeedMore

definition record_stream_get_next ::
  "readiness \<Rightarrow> RecordStream \<Rightarrow> byte list \<Rightarrow> (get_result \<times> RecordStream \<times> byte list) option" where
  "record_stream_get_next rdy rs inp = (case getNextRecord rs of
       (Some ret, rs) \<Rightarrow> Some (GotRecord ret, rs, inp)
     | (None, rs) \<Rightarrow>
         if unconsumed rs = 0 \<and> read_end rs = length (buffer rs) then None
         else let rs = move_remainder rs in
           (case read_fd rdy (length (buffer rs) - read_end rs) inp of
             (Inl e, inp) \<Rightarrow> Some (ReadFailed e, rs, inp)
           | (Inr bytes, inp) \<Rightarrow>
               if bytes = [] then Some (EndOfStream, rs, inp)
               else let rs = rs\<lparr>buffer := take (read_end rs) (buffer rs) @ bytes @
                        drop (read_end rs + length bytes) (buffer rs),
                      read_end := read_end rs + length bytes\<rparr> in
                 (case getNextRecord rs of
                    (None, rs) \<Rightarrow> Some (NeedMore, rs, inp)
                  | (Some ret, rs) \<Rightarrow> Some (GotRecord ret, rs, inp))))"

text \<open>A client that calls until the end of the stream or as often as given: the records, and whether the end came.\<close>

fun drain :: "readiness list \<Rightarrow> RecordStream \<Rightarrow> byte list \<Rightarrow> (byte list list \<times> bool) option" where
  "drain [] rs inp = Some ([], False)"
| "drain (rdy # sch) rs inp = do {
     (res, rs, inp) \<leftarrow> record_stream_get_next rdy rs inp;
     (case res of
        GotRecord b \<Rightarrow> do { (bs, e) \<leftarrow> drain sch rs inp; Some (b # bs, e) }
      | EndOfStream \<Rightarrow> Some ([], True)
      | _ \<Rightarrow> drain sch rs inp) }"

section \<open>Invariant and contents\<close>

definition encode_record :: "byte list \<Rightarrow> byte list" where
  "encode_record r = rev (le32 (of_nat (length r))) @ r"

definition encode_records :: "byte list list \<Rightarrow> byte list" where
  "encode_records rs = concat (map encode_record rs)"

definition rs_ok :: "RecordStream \<Rightarrow> bool" where
  "rs_ok rs \<longleftrightarrow> maxRecordLen rs \<le> 0xffff \<and> length (buffer rs) = maxRecordLen rs + HEADER_SIZE \<and>
     unconsumed rs \<le> read_end rs \<and> read_end rs \<le> length (buffer rs)"

definition pending :: "RecordStream \<Rightarrow> byte list" where
  "pending rs = take (read_end rs - unconsumed rs) (drop (unconsumed rs) (buffer rs))"

text \<open>The bytes that are read or still to come are the encoding of the records not yet delivered.\<close>

definition carries :: "RecordStream \<Rightarrow> byte list \<Rightarrow> byte list list \<Rightarrow> bool" where
  "carries rs inp recs \<longleftrightarrow> rs_ok rs \<and> (\<forall>r \<in> set recs. length r \<le> maxRecordLen rs) \<and>
     pending rs @ inp = encode_records recs"

lemma length_encode: "length (encode_record r) = HEADER_SIZE + length r"
  by (simp add: encode_record_def)

lemma length_pending: "rs_ok rs \<Longrightarrow> length (pending rs) = read_end rs - unconsumed rs"
  by (auto simp: pending_def rs_ok_def)

lemma ntohl_encode: "length r \<le> 0xffff \<Longrightarrow> unat (un_le32 (rev (take 4 (encode_record r @ s)))) = length r"
  using un_le32_le32 [of "of_nat (length r)" "[]"]
  by (simp add: encode_record_def unsigned_of_nat take_bit_nat_eq_self)

lemma take_pending:
  assumes "rs_ok rs" "n \<le> read_end rs - unconsumed rs"
  shows "take n (drop (unconsumed rs) (buffer rs)) = take n (pending rs)"
  using assms by (simp add: pending_def min_def)

text \<open>A record is found exactly when the unread bytes contain the next one completely.\<close>

lemma getNextRecord_run:
  assumes c: "carries rs inp (r # recs)"
  shows "if length (encode_record r) \<le> length (pending rs)
    then \<exists>rs'. getNextRecord rs = (Some r, rs') \<and> carries rs' inp recs
    else getNextRecord rs = (None, rs)"
proof -
  let ?u = "unconsumed rs" and ?e = "read_end rs"
  have ok: "rs_ok rs" and r: "length r \<le> 0xffff"
    and p: "pending rs @ inp = encode_record r @ encode_records recs"
    using c by (auto simp: carries_def rs_ok_def encode_records_def)
  note l = length_pending [OF ok] and ok' = ok [unfolded rs_ok_def]
  have n: "ntohl_at (buffer rs) ?u = length r" if "?u + 4 \<le> ?e"
  proof -
    have "take 4 (drop ?u (buffer rs)) = take 4 (pending rs @ inp)"
      using that l by (simp add: take_pending [OF ok])
    then show ?thesis
      unfolding ntohl_at_def p by (simp only: ntohl_encode [OF r])
  qed
  show ?thesis
  proof (cases "length (encode_record r) \<le> length (pending rs)")
    case True
    then have le: "?u + 4 + length r \<le> ?e"
      using l length_encode [of r] ok' by simp
    let ?rs' = "rs\<lparr>unconsumed := ?u + 4 + length r\<rparr>"
    have pr: "pending rs = encode_record r @ pending ?rs'"
    proof -
      have "take (4 + length r) (pending rs @ inp) = encode_record r"
        unfolding p by (simp add: length_encode)
      then have "take (4 + length r) (pending rs) = encode_record r"
        using True by (simp add: length_encode)
      moreover have "drop (4 + length r) (pending rs) = pending ?rs'"
        by (simp add: pending_def drop_take algebra_simps)
      ultimately show ?thesis
        by (metis append_take_drop_id)
    qed
    have "take (length r) (drop (?u + 4) (buffer rs)) = drop 4 (take (4 + length r) (drop ?u (buffer rs)))"
      by (simp add: drop_take add.commute)
    also have "\<dots> = drop 4 (take (4 + length r) (pending rs))"
      using le by (subst take_pending [OF ok]) simp_all
    also have "\<dots> = r"
      unfolding pr by (simp add: encode_record_def)
    finally have "getNextRecord rs = (Some r, ?rs')"
      using le n by (simp add: getNextRecord_def getEndOfRecord_def Let_def)
    moreover have "carries ?rs' inp recs"
      using c pr p le ok' by (auto simp: carries_def rs_ok_def)
    ultimately show ?thesis
      using True by simp
  next
    case False
    then have "?e < ?u + 4 + length r"
      using l length_encode [of r] ok' by simp
    then show ?thesis
      using False n by (auto simp: getNextRecord_def getEndOfRecord_def Let_def)
  qed
qed

lemma getNextRecord_none:
  assumes "carries rs [] []"
  shows "getNextRecord rs = (None, rs)"
  using assms length_pending [of rs]
  by (auto simp: carries_def rs_ok_def encode_records_def getNextRecord_def getEndOfRecord_def)

lemma move_remainder_run:
  assumes "carries rs inp recs"
  shows "carries (move_remainder rs) inp recs" "unconsumed (move_remainder rs) = 0"
    "read_end (move_remainder rs) = length (pending rs)" "maxRecordLen (move_remainder rs) = maxRecordLen rs"
proof -
  have ok: "rs_ok rs"
    using assms by (simp add: carries_def)
  note l = length_pending [OF ok]
  have "rs_ok (move_remainder rs)" "pending (move_remainder rs) = pending rs"
    using ok l by (auto simp: move_remainder_def rs_ok_def pending_def Let_def)
  then show "carries (move_remainder rs) inp recs"
    using assms by (simp add: carries_def move_remainder_def Let_def)
  show "unconsumed (move_remainder rs) = 0" "read_end (move_remainder rs) = length (pending rs)"
    "maxRecordLen (move_remainder rs) = maxRecordLen rs"
    using l by (simp_all add: move_remainder_def Let_def)
qed

lemma append_bytes_run:
  assumes "carries rs (bytes @ inp) recs" "unconsumed rs = 0" "read_end rs + length bytes \<le> length (buffer rs)"
  shows "carries (rs\<lparr>buffer := take (read_end rs) (buffer rs) @ bytes @ drop (read_end rs + length bytes) (buffer rs),
    read_end := read_end rs + length bytes\<rparr>) inp recs"
  using assms by (auto simp: carries_def rs_ok_def pending_def)

text \<open>
  One call: a record is delivered in order, or more bytes were read, or the end is reached with nothing
  undelivered; an error of \<^verbatim>\<open>read\<close> loses nothing.
\<close>

definition step_ok :: "readiness \<Rightarrow> byte list \<Rightarrow> byte list list \<Rightarrow> get_result \<times> RecordStream \<times> byte list \<Rightarrow> bool" where
  "step_ok rdy inp recs res = (case res of
       (GotRecord b, rs', inp') \<Rightarrow> (\<exists>recs'. recs = b # recs' \<and> carries rs' inp' recs') \<and> length inp' \<le> length inp
     | (EndOfStream, rs', inp') \<Rightarrow> recs = [] \<and> (\<exists>k. rdy = Ready k)
     | (ReadFailed e, rs', inp') \<Rightarrow> rdy = Error e \<and> carries rs' inp' recs \<and> inp' = inp
     | (NeedMore, rs', inp') \<Rightarrow> carries rs' inp' recs \<and> length inp' < length inp)"

lemma get_next_more:
  assumes c: "carries rs inp recs" and n: "getNextRecord rs = (None, rs)"
    and room: "length (pending rs) < length (buffer rs)" and i: "recs \<noteq> [] \<Longrightarrow> inp \<noteq> []"
  shows "\<exists>res. record_stream_get_next rdy rs inp = Some res \<and> step_ok rdy inp recs res"
proof -
  have ok: "rs_ok rs"
    using c by (simp add: carries_def)
  have nf: "\<not> (unconsumed rs = 0 \<and> read_end rs = length (buffer rs))"
    using room length_pending [OF ok] by auto
  note m = move_remainder_run [OF c]
  let ?rs = "move_remainder rs"
  have b: "length (buffer ?rs) = length (buffer rs)"
    using m(1,4) ok by (simp add: carries_def rs_ok_def)
  show ?thesis
  proof (cases rdy)
    case (Error e)
    then show ?thesis
      using n nf m(1) by (simp add: record_stream_get_next_def step_ok_def Let_def)
  next
    case (Ready k)
    define j where "j = min (Suc k) (length (buffer ?rs) - read_end ?rs)"
    have j: "0 < j" "read_end ?rs + j \<le> length (buffer ?rs)"
      using room m(3) b by (simp_all add: j_def)
    have r: "read_fd rdy (length (buffer ?rs) - read_end ?rs) inp = (Inr (take j inp), drop j inp)"
      by (simp add: Ready j_def)
    let ?rs2 = "?rs\<lparr>buffer := take (read_end ?rs) (buffer ?rs) @ take j inp @
        drop (read_end ?rs + length (take j inp)) (buffer ?rs), read_end := read_end ?rs + length (take j inp)\<rparr>"
    have g: "record_stream_get_next rdy rs inp = (if take j inp = [] then Some (EndOfStream, ?rs, drop j inp)
        else (case getNextRecord ?rs2 of
          (None, rs) \<Rightarrow> Some (NeedMore, rs, drop j inp) | (Some ret, rs) \<Rightarrow> Some (GotRecord ret, rs, drop j inp)))"
      unfolding record_stream_get_next_def n
      by (simp only: prod.case option.case sum.case Let_def r if_not_P [OF nf])
    show ?thesis
    proof (cases recs)
      case Nil
      then have "inp = []"
        using c by (simp add: carries_def encode_records_def)
      then show ?thesis
        using g Nil Ready by (simp add: step_ok_def)
    next
      case (Cons r recs')
      then have "inp \<noteq> []"
        using i by simp
      then have t: "take j inp \<noteq> []" "length (drop j inp) < length inp"
        using j(1) by auto
      have "carries ?rs2 (drop j inp) (r # recs')"
        using append_bytes_run [of ?rs "take j inp" "drop j inp" recs] m(1,2) j(2) Cons by simp
      from getNextRecord_run [OF this] show ?thesis
        using g t \<open>carries ?rs2 (drop j inp) (r # recs')\<close> Cons by (auto simp: step_ok_def split: if_splits)
    qed
  qed
qed

lemma get_next_run:
  assumes c: "carries rs inp recs"
  shows "\<exists>res. record_stream_get_next rdy rs inp = Some res \<and> step_ok rdy inp recs res"
proof (cases recs)
  case Nil
  then have "pending rs = []" "inp = []"
    using c by (simp_all add: carries_def encode_records_def)
  then show ?thesis
    using c Nil getNextRecord_none [of rs] by (intro get_next_more) (auto simp: carries_def rs_ok_def)
next
  case (Cons r recs')
  have g: "if length (encode_record r) \<le> length (pending rs)
    then \<exists>rs'. getNextRecord rs = (Some r, rs') \<and> carries rs' inp recs' else getNextRecord rs = (None, rs)"
    using getNextRecord_run c Cons by simp
  show ?thesis
  proof (cases "length (encode_record r) \<le> length (pending rs)")
    case True
    then show ?thesis
      using g Cons by (auto simp: record_stream_get_next_def step_ok_def)
  next
    case False
    have "length r \<le> maxRecordLen rs" "length (buffer rs) = maxRecordLen rs + 4"
      "pending rs @ inp = encode_record r @ encode_records recs'"
      using c Cons by (auto simp: carries_def rs_ok_def encode_records_def)
    moreover from this(3) have "inp \<noteq> []"
      using False by (metis append.right_neutral length_append le_add1)
    ultimately show ?thesis
      using False g c length_encode [of r] by (intro get_next_more) auto
  qed
qed

text \<open>
  C9: Whatever the portions in which the bytes of a sequence of records arrive, and whatever errors
  interrupt the calls, a stream delivers these records in their order and nothing else, never fails
  its assertion, and reports the end of the stream only after the last; it gets there when the
  descriptor is ready often enough.
\<close>

theorem record_stream_delivers:
  assumes "carries rs inp recs"
  shows "\<exists>bs e. drain sch rs inp = Some (bs, e) \<and> prefix bs recs \<and> (e \<longrightarrow> bs = recs) \<and>
    (length inp + length recs < length (filter (\<lambda>r. \<exists>k. r = Ready k) sch) \<longrightarrow> e)"
  using assms
proof (induction sch arbitrary: rs inp recs)
  case (Cons rdy sch)
  obtain res rs' inp' where g: "record_stream_get_next rdy rs inp = Some (res, rs', inp')"
    and s: "step_ok rdy inp recs (res, rs', inp')"
    using get_next_run [OF Cons.prems, of rdy] by (metis prod_cases3)
  show ?case
  proof (cases res)
    case (GotRecord b)
    then obtain recs' where r: "recs = b # recs'" "carries rs' inp' recs'" "length inp' \<le> length inp"
      using s by (auto simp: step_ok_def)
    then show ?thesis
      using g GotRecord Cons.IH [OF r(2)] by (auto split: if_splits)
  next
    case EndOfStream
    then show ?thesis
      using g s by (auto simp: step_ok_def)
  next
    case (ReadFailed e)
    then have "rdy = Error e" "carries rs' inp' recs" "inp' = inp"
      using s by (auto simp: step_ok_def)
    then show ?thesis
      using g ReadFailed Cons.IH [of rs' inp' recs] by simp
  next
    case NeedMore
    then have "carries rs' inp' recs" "length inp' < length inp"
      using s by (simp_all add: step_ok_def)
    then show ?thesis
      using g NeedMore Cons.IH [of rs' inp' recs] by (auto split: if_splits)
  qed
qed auto

lemma new_carries:
  assumes "max_len \<le> 0xffff" "2 \<le> av" "\<forall>r \<in> set recs. length r \<le> max_len"
  obtains rs where "record_stream_new max_len av = Some (Some rs)" "carries rs (encode_records recs) recs"
  using assms by (simp add: record_stream_new_def carries_def rs_ok_def pending_def)

theorem record_stream_delivers_witness:
  "\<exists>rs bs e. record_stream_new 8 2 = Some (Some rs) \<and>
    drain (replicate 20 (Ready 1)) rs (encode_records [[1, 2, 3], [], [4]]) = Some (bs, e) \<and> bs = [[1, 2, 3], [], [4]] \<and> e"
proof -
  obtain rs where rs: "record_stream_new 8 2 = Some (Some rs)"
    "carries rs (encode_records [[1, 2, 3], [], [4]]) [[1, 2, 3], [], [4]]"
    by (rule new_carries [of 8 2 "[[1, 2, 3], [], [4]]"]) auto
  have "length (encode_records [[1, 2, 3], [], [4]]) = 16"
    by (simp add: encode_records_def length_encode)
  then show ?thesis
    using record_stream_delivers [OF rs(2), of "replicate 20 (Ready 1)"] rs(1) by auto
qed

end
