(* ===== verification/Prop_List.thy ===== *)
theory Prop_List
  imports Cstring
begin

text \<open>
  The data base of the property service (\<^verbatim>\<open>leproperties/ll.c\<close>): a linked list of names and values in arrays
  of fixed size, searched by name.  Values are stored with a trailing newline, so that the list can be
  saved as lines of a file.

  The list is the sequence of its units; the pointers between the nodes are not shared with
  anything.  \<^term>\<open>None\<close> is an undefined execution: a read behind an array without terminating zero,
  or an allocation that failed and was not checked.  A result the code leaves unset is \<^term>\<open>None\<close>
  where it is returned.
\<close>

section \<open>The list\<close>

abbreviation PROP_NAME_MAX :: nat where "PROP_NAME_MAX \<equiv> 64"
abbreviation PROP_VALUE_MAX :: nat where "PROP_VALUE_MAX \<equiv> 92"
abbreviation MAX_ALLOWED_LINE_LEN :: nat where "MAX_ALLOWED_LINE_LEN \<equiv> PROP_NAME_MAX + PROP_VALUE_MAX + 1"

abbreviation newline :: byte where "newline \<equiv> 10"
abbreviation equals_sign :: byte where "equals_sign \<equiv> 61"

text \<open>The strings \<^verbatim>\<open>ro.\<close> and \<^verbatim>\<open>persist.\<close>.\<close>

definition ro_prefix :: cstr where
  "ro_prefix = [114, 111, 46]"

definition persist_prefix :: cstr where
  "persist_prefix = [112, 101, 114, 115, 105, 115, 116, 46]"

record property_unit =
  property_name :: "byte list"
  property_value :: "byte list"
  callback_to_be_invoked :: bool

definition list_is_empty :: "property_unit list \<Rightarrow> bool" where
  "list_is_empty l \<longleftrightarrow> l = []"

text \<open>The position of the node with the name.\<close>

fun list_matches_prop_name :: "byte list \<Rightarrow> property_unit list \<Rightarrow> nat option option" where
  "list_matches_prop_name search_name [] = Some None"
| "list_matches_prop_name search_name (u # us) = do {
     same \<leftarrow> strcmp_eq (property_name u) search_name;
     if same then Some (Some 0)
     else do { r \<leftarrow> list_matches_prop_name search_name us; Some (map_option Suc r) } }"

definition set_value :: "property_unit list \<Rightarrow> nat \<Rightarrow> byte list \<Rightarrow> property_unit list option" where
  "set_value l i v = do {
     s \<leftarrow> cstr_of v;
     (b, _) \<leftarrow> strlcpy (replicate PROP_VALUE_MAX 0) s (of_nat PROP_VALUE_MAX);
     Some (l[i := (l ! i)\<lparr>property_value := b\<rparr>]) }"

definition list_add :: "property_unit \<Rightarrow> property_unit list \<Rightarrow> property_unit list option" where
  "list_add u l = (if list_is_empty l then Some [u]
     else do {
       node \<leftarrow> list_matches_prop_name (property_name u) l;
       (case node of None \<Rightarrow> Some (l @ [u]) | Some i \<Rightarrow> set_value l i (property_value u)) })"

definition create_list_and_add ::
  "byte list \<Rightarrow> byte list \<Rightarrow> property_unit list \<Rightarrow> nat \<Rightarrow> (property_unit list \<times> nat) option" where
  "create_list_and_add search_name value l av = (if av = 0 then None
     else do {
       n \<leftarrow> cstr_of search_name;
       (nb, _) \<leftarrow> strlcpy (replicate PROP_NAME_MAX 0) n (of_nat PROP_NAME_MAX);
       v \<leftarrow> cstr_of value;
       (vb, _) \<leftarrow> strlcpy (replicate PROP_VALUE_MAX 0) v (of_nat PROP_VALUE_MAX);
       l \<leftarrow> list_add \<lparr>property_name = nb, property_value = vb, callback_to_be_invoked = False\<rparr> l;
       Some (l, av - 1) })"

definition update_prop_value ::
  "byte list \<Rightarrow> byte list \<Rightarrow> property_unit list \<Rightarrow> nat \<Rightarrow> (bool option \<times> property_unit list \<times> nat) option" where
  "update_prop_value search_name value l av = do {
     v \<leftarrow> cstr_of value;
     (pv, _) \<leftarrow> strlcpy (replicate PROP_VALUE_MAX 0) v (of_nat PROP_VALUE_MAX);
     s \<leftarrow> cstr_of pv;
     let pv = pv[length s := newline];
     node \<leftarrow> list_matches_prop_name search_name l;
     (case node of
        Some i \<Rightarrow> do {
          ro \<leftarrow> strncmp_eq search_name ro_prefix;
          if ro then Some (Some False, l, av)
          else do { l \<leftarrow> set_value l i pv; Some (Some True, l, av) } }
      | None \<Rightarrow> do { (l, av) \<leftarrow> create_list_and_add search_name pv l av; Some (None, l, av) }) }"

definition retrive_prop_value ::
  "byte list \<Rightarrow> byte list \<Rightarrow> property_unit list \<Rightarrow> (bool \<times> byte list) option" where
  "retrive_prop_value search_name value l = do {
     node \<leftarrow> list_matches_prop_name search_name l;
     (case node of
        Some i \<Rightarrow> do {
          v \<leftarrow> cstr_of (property_value (l ! i));
          (pv, _) \<leftarrow> strlcpy (replicate PROP_VALUE_MAX 0) v (of_nat PROP_VALUE_MAX);
          s \<leftarrow> cstr_of pv;
          (value, _) \<leftarrow> strlcpy value s (of_nat (length s));
          Some (True, value) }
      | None \<Rightarrow> Some (False, value)) }"

text \<open>The result is unset when no node matches.\<close>

fun remove_walk :: "cstr \<Rightarrow> property_unit list \<Rightarrow> (bool option \<times> property_unit list) option" where
  "remove_walk name [] = Some (None, [])"
| "remove_walk name (u # us) = do {
     same \<leftarrow> strncmp_eq (property_name u) name;
     if same then Some (Some True, us)
     else do { (r, us) \<leftarrow> remove_walk name us; Some (r, u # us) } }"

definition remove_node_from_list :: "cstr \<Rightarrow> property_unit list \<Rightarrow> (bool option \<times> property_unit list) option" where
  "remove_node_from_list name l = (if list_is_empty l then Some (Some False, l) else remove_walk name l)"

text \<open>The second component is the list afterwards, \<^term>\<open>None\<close> when its head is left pointing to freed nodes.\<close>

definition free_list :: "property_unit list \<Rightarrow> bool \<times> property_unit list option" where
  "free_list l = (if list_is_empty l then (False, Some l) else (True, None))"

text \<open>The lines written for the persistent properties.\<close>

fun persist_lines :: "property_unit list \<Rightarrow> byte list list option" where
  "persist_lines [] = Some []"
| "persist_lines (u # us) = do {
     p \<leftarrow> strncmp_eq (property_name u) persist_prefix;
     if p then do {
       n \<leftarrow> cstr_of (property_name u);
       v \<leftarrow> cstr_of (property_value u);
       ls \<leftarrow> persist_lines us;
       Some (take (MAX_ALLOWED_LINE_LEN - 1) (n @ [equals_sign] @ v) # ls) }
     else persist_lines us }"

text \<open>The new contents of the file, if it could be opened.\<close>

definition save_persist_nodes_to_file :: "property_unit list \<Rightarrow> bool \<Rightarrow> (bool \<times> byte list option) option" where
  "save_persist_nodes_to_file l fopen_ok = (if \<not> fopen_ok then Some (False, None)
     else do { ls \<leftarrow> persist_lines l; Some (ls \<noteq> [], Some (concat ls)) })"

section \<open>The list as a map\<close>

definition name_of :: "property_unit \<Rightarrow> cstr" where
  "name_of u = takeWhile ((\<noteq>) 0) (property_name u)"

definition value_of :: "property_unit \<Rightarrow> cstr" where
  "value_of u = takeWhile ((\<noteq>) 0) (property_value u)"

definition unit_ok :: "property_unit \<Rightarrow> bool" where
  "unit_ok u \<longleftrightarrow> length (property_name u) = PROP_NAME_MAX \<and> 0 \<in> set (property_name u) \<and>
     length (property_value u) = PROP_VALUE_MAX \<and> 0 \<in> set (property_value u)"

definition db_ok :: "property_unit list \<Rightarrow> bool" where
  "db_ok l \<longleftrightarrow> (\<forall>u \<in> set l. unit_ok u) \<and> distinct (map name_of l)"

definition db_map :: "property_unit list \<Rightarrow> cstr \<Rightarrow> cstr option" where
  "db_map l = map_of (map (\<lambda>u. (name_of u, value_of u)) l)"

lemma db_map_simps [simp]:
  "db_map [] = Map.empty" "db_map (u # us) = (db_map us)(name_of u \<mapsto> value_of u)"
  by (simp_all add: db_map_def)

lemma unit_holds:
  assumes "unit_ok u"
  shows "holds (property_name u) (name_of u)" "holds (property_value u) (value_of u)"
    "length (value_of u) < PROP_VALUE_MAX" "length (name_of u) < PROP_NAME_MAX"
proof -
  show n: "holds (property_name u) (name_of u)" and v: "holds (property_value u) (value_of u)"
    using assms by (simp_all add: unit_ok_def name_of_def value_of_def cstr_of_def flip: holds_cstr)
  show "length (value_of u) < PROP_VALUE_MAX" "length (name_of u) < PROP_NAME_MAX"
    using holds_length [OF n] holds_length [OF v] assms by (simp_all add: unit_ok_def)
qed

lemma unit_okI:
  assumes "length (property_name u) = PROP_NAME_MAX" "length (property_value u) = PROP_VALUE_MAX"
    "holds (property_name u) n" "holds (property_value u) v"
  shows "unit_ok u" "name_of u = n" "value_of u = v"
proof -
  show "unit_ok u"
    using assms by (auto simp: unit_ok_def holds_def)
  then show "name_of u = n" "value_of u = v"
    using unit_holds(1,2) [of u] assms holds_unique by metis+
qed

lemma db_map_None: "db_map l n = None \<longleftrightarrow> n \<notin> name_of ` set l"
  by (simp add: db_map_def map_of_eq_None_iff image_image)

lemma matches_run:
  assumes "\<forall>u \<in> set l. unit_ok u" "holds b n"
  shows "\<exists>r. list_matches_prop_name b l = Some r \<and>
    (case r of None \<Rightarrow> db_map l n = None | Some i \<Rightarrow> i < length l \<and> name_of (l ! i) = n)"
  using assms(1)
proof (induction l)
  case (Cons u l)
  have "strcmp_eq (property_name u) b = Some (name_of u = n)"
    using Cons.prems assms(2) by (intro strcmp_holds unit_holds) auto
  moreover obtain r where "list_matches_prop_name b l = Some r"
    "case r of None \<Rightarrow> db_map l n = None | Some i \<Rightarrow> i < length l \<and> name_of (l ! i) = n"
    using Cons by auto
  ultimately show ?case
    by (auto simp: db_map_def split: option.splits)
qed (simp add: db_map_def)

lemma map_of_list_update:
  assumes "distinct (map fst xs)" "i < length xs" "fst (xs ! i) = k"
  shows "map_of (xs[i := (k, v)]) = (map_of xs)(k \<mapsto> v)"
proof -
  obtain A b B where xs: "xs = A @ (k, b) # B" "i = length A"
    using id_take_nth_drop [OF assms(2)] assms(2,3)
    by (metis length_take min.absorb4 prod.collapse)
  then have "map_of A k = None"
    using assms(1) by (auto simp: map_of_eq_None_iff)
  then show ?thesis
    by (auto simp: xs fun_eq_iff map_add_def split: option.splits)
qed

lemma set_value_run:
  assumes ok: "db_ok l" and i: "i < length l" and v: "holds b v" "length v < PROP_VALUE_MAX"
  shows "\<exists>l'. set_value l i b = Some l' \<and> db_ok l' \<and> db_map l' = (db_map l)(name_of (l ! i) \<mapsto> v)"
proof -
  obtain vb where vb: "strlcpy (replicate PROP_VALUE_MAX 0) v (of_nat PROP_VALUE_MAX) = Some (vb, of_nat (length v))"
    "length vb = PROP_VALUE_MAX" "holds vb v"
    using strlcpy_holds [of v PROP_VALUE_MAX "replicate PROP_VALUE_MAX 0"] v by (auto simp: holds_def)
  have li: "unit_ok (l ! i)"
    using ok i by (simp add: db_ok_def)
  let ?u = "(l ! i)\<lparr>property_value := vb\<rparr>"
  have u: "unit_ok ?u" "name_of ?u = name_of (l ! i)" "value_of ?u = v"
    using unit_okI [of ?u "name_of (l ! i)" v] vb(2,3) li unit_holds(1) [OF li]
    by (simp_all add: unit_ok_def)
  have "set_value l i b = Some (l[i := ?u])"
    using v(1) vb(1) by (simp add: set_value_def flip: holds_cstr)
  moreover have n: "map name_of (l[i := ?u]) = map name_of l"
    using i u(2) by (simp add: map_update list_update_same_conv)
  moreover have "db_ok (l[i := ?u])"
    using ok u(1) n set_update_subset_insert [of l i ?u] unfolding db_ok_def by auto
  moreover have "db_map (l[i := ?u]) = (db_map l)(name_of (l ! i) \<mapsto> v)"
    using ok i u by (simp add: db_map_def map_update map_of_list_update db_ok_def comp_def)
  ultimately show ?thesis
    by blast
qed

lemma list_add_run:
  assumes ok: "db_ok l" "unit_ok u"
  shows "\<exists>l'. list_add u l = Some l' \<and> db_ok l' \<and> db_map l' = (db_map l)(name_of u \<mapsto> value_of u)"
proof (cases "l = []")
  case True
  then show ?thesis
    using ok by (auto simp: list_add_def list_is_empty_def db_ok_def db_map_def)
next
  case False
  obtain r where r: "list_matches_prop_name (property_name u) l = Some r"
    "case r of None \<Rightarrow> db_map l (name_of u) = None | Some i \<Rightarrow> i < length l \<and> name_of (l ! i) = name_of u"
    using matches_run [OF _ unit_holds(1) [OF ok(2)], of l] ok(1) by (auto simp: db_ok_def)
  show ?thesis
  proof (cases r)
    case None
    then have n: "name_of u \<notin> name_of ` set l"
      using r(2) db_map_None by simp
    then have "db_ok (l @ [u])"
      using ok by (auto simp: db_ok_def)
    moreover have "db_map (l @ [u]) = (db_map l)(name_of u \<mapsto> value_of u)"
      using None r(2) by (auto simp: db_map_def fun_eq_iff map_add_def split: option.splits)
    ultimately show ?thesis
      using False None r(1) by (simp add: list_add_def list_is_empty_def)
  next
    case (Some i)
    then show ?thesis
      using False r set_value_run [OF ok(1), of i "property_value u" "value_of u"] unit_holds(2,3) [OF ok(2)]
      by (simp add: list_add_def list_is_empty_def)
  qed
qed

lemma create_add_run:
  assumes "db_ok l" "holds nb n" "length n < PROP_NAME_MAX" "holds vb v" "length v < PROP_VALUE_MAX" "0 < av"
  shows "\<exists>l'. create_list_and_add nb vb l av = Some (l', av - 1) \<and> db_ok l' \<and> db_map l' = (db_map l)(n \<mapsto> v)"
proof -
  obtain nc where nc: "strlcpy (replicate PROP_NAME_MAX 0) n (of_nat PROP_NAME_MAX) = Some (nc, of_nat (length n))"
    "length nc = PROP_NAME_MAX" "holds nc n"
    using strlcpy_holds [of n PROP_NAME_MAX "replicate PROP_NAME_MAX 0"] assms(2,3) by (auto simp: holds_def)
  obtain vc where vc: "strlcpy (replicate PROP_VALUE_MAX 0) v (of_nat PROP_VALUE_MAX) = Some (vc, of_nat (length v))"
    "length vc = PROP_VALUE_MAX" "holds vc v"
    using strlcpy_holds [of v PROP_VALUE_MAX "replicate PROP_VALUE_MAX 0"] assms(4,5) by (auto simp: holds_def)
  let ?u = "\<lparr>property_name = nc, property_value = vc, callback_to_be_invoked = False\<rparr>"
  have u: "unit_ok ?u" "name_of ?u = n" "value_of ?u = v"
    using unit_okI [of ?u n v] nc vc by simp_all
  show ?thesis
    using list_add_run [OF assms(1) u(1)] u assms(2,4,6) nc(1) vc(1)
    by (auto simp: create_list_and_add_def simp flip: holds_cstr)
qed

text \<open>Setting a value: a read-only property that exists is kept, any other has the value and a newline.\<close>

lemma update_run:
  assumes ok: "db_ok l" and n: "holds nb n" "length n < PROP_NAME_MAX"
    and v: "holds vb v" "length v + 1 < PROP_VALUE_MAX" and av: "db_map l n = None \<Longrightarrow> 0 < av"
  shows "\<exists>r l' av'. update_prop_value nb vb l av = Some (r, l', av') \<and> db_ok l' \<and> av - 1 \<le> av' \<and>
    db_map l' = (if prefix ro_prefix n \<and> db_map l n \<noteq> None then db_map l else (db_map l)(n \<mapsto> v @ [newline]))"
proof -
  have v0: "0 \<notin> set v"
    using v(1) by (simp add: holds_def)
  let ?pv = "v @ replicate (PROP_VALUE_MAX - length v) 0"
  have pv: "strlcpy (replicate PROP_VALUE_MAX 0) v (of_nat PROP_VALUE_MAX) = Some (?pv, of_nat (length v))"
    "cstr_of ?pv = Some v"
    using v(2) v0 strlcpy_zeroed [of v PROP_VALUE_MAX] by (simp_all add: holds_cstr holds_padded)
  have "?pv[length v := newline] = (v @ [newline]) @ replicate (PROP_VALUE_MAX - (length v + 1)) 0"
  proof -
    have "PROP_VALUE_MAX - length v = Suc (PROP_VALUE_MAX - (length v + 1))"
      using v(2) by simp
    then show ?thesis
      by (simp only: replicate_Suc list_update_length append_assoc append_Cons append_Nil)
  qed
  then have p: "holds (?pv[length v := newline]) (v @ [newline])"
    using v(2) v0 holds_padded [of "v @ [newline]" "PROP_VALUE_MAX - (length v + 1)"] by simp
  obtain r where r: "list_matches_prop_name nb l = Some r"
    "case r of None \<Rightarrow> db_map l n = None | Some i \<Rightarrow> i < length l \<and> name_of (l ! i) = n"
    using matches_run [OF _ n(1), of l] ok by (auto simp: db_ok_def)
  have ro: "strncmp_eq nb ro_prefix = Some (prefix ro_prefix n)"
    by (rule strncmp_holds [OF n(1)]) (simp add: ro_prefix_def)
  show ?thesis
  proof (cases r)
    case None
    then have "db_map l n = None"
      using r(2) by simp
    then show ?thesis
      using None create_add_run [OF ok n p _ av] v(1,2) pv r
      by (auto simp: update_prop_value_def Let_def simp flip: holds_cstr)
  next
    case (Some i)
    then have i: "i < length l" "name_of (l ! i) = n"
      using r(2) by simp_all
    then have d: "db_map l n \<noteq> None"
      using db_map_None [of l n] by auto
    then show ?thesis
      using set_value_run [OF ok i(1) p] i v(1,2) pv r(1) ro Some ok
      by (auto simp: update_prop_value_def Let_def simp flip: holds_cstr)
  qed
qed

text \<open>A value of 91 bytes fills its array: the newline replaces the terminating zero, and the copy reads behind it.\<close>

lemma update_full:
  assumes ok: "db_ok l" and n: "holds nb n" and v: "holds vb v" "length v + 1 = PROP_VALUE_MAX"
    and ro: "\<not> (prefix ro_prefix n \<and> db_map l n \<noteq> None)"
  shows "update_prop_value nb vb l av = None"
proof -
  have v0: "0 \<notin> set v"
    using v(1) by (simp add: holds_def)
  have pv: "strlcpy (replicate PROP_VALUE_MAX 0) v (of_nat PROP_VALUE_MAX) = Some (v @ [0], of_nat (length v))"
    "cstr_of (v @ [0]) = Some v"
    using v(2) v0 strlcpy_zeroed [of v PROP_VALUE_MAX] by (simp_all add: holds_cstr holds_def)
  have full: "cstr_of (v @ [newline]) = None"
    using v0 by (simp add: cstr_of_def)
  obtain r where r: "list_matches_prop_name nb l = Some r"
    "case r of None \<Rightarrow> db_map l n = None | Some i \<Rightarrow> i < length l \<and> name_of (l ! i) = n"
    using matches_run [OF _ n, of l] ok by (auto simp: db_ok_def)
  have "strncmp_eq nb ro_prefix = Some False" if "r \<noteq> None"
    using that r(2) ro db_map_None [of l n] strncmp_holds [OF n, of ro_prefix] by (auto simp: ro_prefix_def)
  then show ?thesis
    using v(1) pv r(1) full
    by (cases r) (auto simp: update_prop_value_def create_list_and_add_def set_value_def Let_def bind_eq_None_conv
        simp flip: holds_cstr)
qed

lemma matches_string: "list_matches_prop_name b l = Some (Some i) \<Longrightarrow> 0 \<in> set b"
proof (induction l arbitrary: i)
  case (Cons u l)
  have "0 \<in> set d" if "strcmp_eq c d = Some True" for c d
    using that by (induction c d rule: strcmp_eq.induct) (auto split: if_splits)
  then show ?case
    using Cons by (auto split: bind_splits if_splits option.splits)
qed simp

text \<open>Whatever the arrays hold, an update that is defined had strings in them and keeps the list well-formed.\<close>

lemma update_prop_value_strings:
  assumes "update_prop_value nb vb l av = Some x"
  obtains n v where "holds nb n" "holds vb v" "list_matches_prop_name nb l = Some None \<Longrightarrow> 0 < av"
proof -
  obtain v where v: "cstr_of vb = Some v"
    using assms by (auto simp: update_prop_value_def split: bind_splits)
  obtain r where r: "list_matches_prop_name nb l = Some r"
    using assms by (auto simp: update_prop_value_def Let_def split: bind_splits)
  have "\<exists>n. cstr_of nb = Some n"
  proof (cases r)
    case None
    then show ?thesis
      using assms r by (auto simp: update_prop_value_def create_list_and_add_def Let_def split: bind_splits if_splits)
  next
    case (Some i)
    then show ?thesis
      using matches_string [of nb l i] r by (simp add: cstr_of_def)
  qed
  moreover have "0 < av" if "list_matches_prop_name nb l = Some None"
    using assms that by (auto simp: update_prop_value_def create_list_and_add_def Let_def split: bind_splits if_splits)
  ultimately show thesis
    using that v by (auto simp: holds_cstr)
qed

lemma update_ok:
  assumes ok: "db_ok l" and up: "update_prop_value nb vb l av = Some (r, l', av')"
    and len: "length nb = PROP_NAME_MAX" "length vb = PROP_VALUE_MAX"
  obtains n v where "holds nb n" "holds vb v" "db_ok l'"
    "db_map l' = (if prefix ro_prefix n \<and> db_map l n \<noteq> None then db_map l else (db_map l)(n \<mapsto> v @ [newline]))"
proof -
  obtain n v where h: "holds nb n" "holds vb v" "list_matches_prop_name nb l = Some None \<Longrightarrow> 0 < av"
    using update_prop_value_strings [OF up] by blast
  have n: "length n < PROP_NAME_MAX" and v: "length v < PROP_VALUE_MAX"
    using holds_length [OF h(1)] holds_length [OF h(2)] len by simp_all
  have av: "0 < av" if "db_map l n = None"
    using matches_run [OF _ h(1), of l] ok h(3) that db_map_None [of l n]
    by (fastforce simp: db_ok_def split: option.splits)
  consider "length v + 1 < PROP_VALUE_MAX" | "length v + 1 = PROP_VALUE_MAX"
    using v by linarith
  then show thesis
  proof cases
    case 1
    then show thesis
      using update_run [OF ok h(1) n h(2) 1 av] up that [OF h(1,2)] by auto
  next
    case 2
    then have "prefix ro_prefix n \<and> db_map l n \<noteq> None"
      using update_full [OF ok h(1,2) 2, of av] up by (cases "db_map l n") auto
    moreover have "l' = l"
      using up calculation matches_run [OF _ h(1), of l] ok strncmp_holds [OF h(1), of ro_prefix]
      by (auto simp: update_prop_value_def db_ok_def ro_prefix_def Let_def split: bind_splits option.splits if_splits)
    ultimately show thesis
      using that [OF h(1,2)] ok by simp
  qed
qed

text \<open>Reading a value drops its last byte, the newline; of an empty value nothing is copied.\<close>

lemma retrive_run:
  assumes ok: "db_ok l" and n: "holds nb n" and b: "length b = PROP_VALUE_MAX"
  shows "\<exists>b'. retrive_prop_value nb b l = Some (db_map l n \<noteq> None, b') \<and> length b' = PROP_VALUE_MAX \<and>
    (case db_map l n of None \<Rightarrow> b' = b | Some w \<Rightarrow> if w = [] then b' = b else holds b' (butlast w))"
proof -
  obtain r where r: "list_matches_prop_name nb l = Some r"
    "case r of None \<Rightarrow> db_map l n = None | Some i \<Rightarrow> i < length l \<and> name_of (l ! i) = n"
    using matches_run [OF _ n, of l] ok by (auto simp: db_ok_def)
  show ?thesis
  proof (cases r)
    case None
    then show ?thesis
      using r b by (simp add: retrive_prop_value_def)
  next
    case (Some i)
    then have i: "i < length l" "name_of (l ! i) = n"
      using r(2) by simp_all
    then have u: "unit_ok (l ! i)"
      using ok by (simp add: db_ok_def)
    let ?w = "value_of (l ! i)"
    have "(n, ?w) \<in> set (map (\<lambda>u. (name_of u, value_of u)) l)"
      using i by force
    then have m: "db_map l n = Some ?w"
      using ok unfolding db_map_def db_ok_def
      by (intro map_of_is_SomeI) (auto simp: comp_def)
    note h = unit_holds(2,3) [OF u]
    have w0: "0 \<notin> set ?w"
      using h(1) by (simp add: holds_def)
    let ?pv = "?w @ replicate (PROP_VALUE_MAX - length ?w) 0"
    have pv: "strlcpy (replicate PROP_VALUE_MAX 0) ?w (of_nat PROP_VALUE_MAX) = Some (?pv, of_nat (length ?w))"
      "cstr_of ?pv = Some ?w"
      using h(2) w0 strlcpy_zeroed [of ?w PROP_VALUE_MAX] by (simp_all add: holds_cstr holds_padded)
    have c: "unat (of_nat (length ?w) :: u64) = length ?w"
      using h(2) by (simp add: unsigned_of_nat take_bit_nat_eq_self)
    have "\<exists>b'. strlcpy b ?w (of_nat (length ?w)) = Some (b', of_nat (length ?w)) \<and> length b' = PROP_VALUE_MAX \<and>
      (if ?w = [] then b' = b else holds b' (butlast ?w))"
    proof (cases "?w = []")
      case True
      then show ?thesis
        using b by (simp add: strlcpy_def)
    next
      case False
      then have "(of_nat (length ?w) :: u64) \<noteq> 0"
        using c by (metis length_0_conv unsigned_0)
      moreover have "min (length ?w - 1) (length ?w) = length ?w - 1" "length ?w - 1 + 1 = length ?w"
        using False by simp_all
      ultimately have "strlcpy b ?w (of_nat (length ?w)) =
          Some (butlast ?w @ 0 # drop (length ?w) b, of_nat (length ?w))"
        using strlcpy_run [of "of_nat (length ?w)" b ?w] c b less_imp_le [OF h(2)]
        by (simp only: Let_def butlast_conv_take simp_thms)
      moreover obtain k where "length ?w = Suc k"
        using False by (cases ?w) auto
      ultimately show ?thesis
        using b h(2) w0 False by (auto simp: holds_def dest: in_set_butlastD)
    qed
    then show ?thesis
      using r(1) Some h(1) pv m i by (auto simp: retrive_prop_value_def simp flip: holds_cstr)
  qed
qed

section \<open>Removing a property\<close>

lemma remove_walk_run:
  assumes "\<forall>u \<in> set l. unit_ok u" "0 \<notin> set name"
  defines "keep \<equiv> \<lambda>u. \<not> prefix name (name_of u)"
  shows "remove_walk name l = Some (if \<forall>u \<in> set l. keep u then None else Some True,
    takeWhile keep l @ tl (dropWhile keep l))"
  using assms(1)
proof (induction l)
  case (Cons u l)
  have "strncmp_eq (property_name u) name = Some (prefix name (name_of u))"
    using Cons.prems assms(2) by (intro strncmp_holds unit_holds) auto
  then show ?case
    using Cons by (simp add: keep_def)
qed simp

text \<open>
  Removing a property removes the first one whose name starts with the given name, which need not be
  the property with this name; when there is none the list is unchanged and the result is not set.
\<close>

theorem remove_node_from_list_prefix:
  assumes "\<forall>u \<in> set l. unit_ok u" "0 \<notin> set name" "l \<noteq> []"
  defines "keep \<equiv> \<lambda>u. \<not> prefix name (name_of u)"
  shows "remove_node_from_list name l = Some (if \<forall>u \<in> set l. keep u then (None, l)
    else (Some True, takeWhile keep l @ tl (dropWhile keep l)))"
  using remove_walk_run [OF assms(1,2)] assms(3)
  by (auto simp: remove_node_from_list_def list_is_empty_def keep_def takeWhile_eq_all_conv [THEN iffD2]
      dropWhile_eq_Nil_conv [THEN iffD2])

text \<open>Removing \<open>a\<close> from the properties \<open>ab\<close> and \<open>a\<close> removes \<open>ab\<close>.\<close>

theorem remove_node_from_list_prefix_witness:
  defines "ab \<equiv> \<lparr>property_name = [97, 98] @ replicate 62 0, property_value = [49, newline] @ replicate 90 0,
      callback_to_be_invoked = False\<rparr>"
    and "a \<equiv> \<lparr>property_name = [97] @ replicate 63 0, property_value = [50, newline] @ replicate 90 0,
      callback_to_be_invoked = False\<rparr>"
  shows "remove_node_from_list [97] [ab, a] = Some (Some True, [a])"
  using remove_node_from_list_prefix [of "[ab, a]" "[97]"]
  by (simp add: ab_def a_def unit_ok_def name_of_def)

end
