(* ===== verification/Prop_Service.thy ===== *)
theory Prop_Service
  imports Prop_List
begin

text \<open>
  The property service (\<^verbatim>\<open>leproperties/property_service.c\<close>): parsing of lines \<open>name=value\<close>, loading and saving
  of the property files, and the handling of one message of a client.

  The state is the list of properties, the flag that the persistent storage is ready, and the contents
  of the persistent file (\<^term>\<open>None\<close> when it cannot be opened for reading) with whether it can be
  written.  Messages arrive as a whole.  The trigger scripts (\<^verbatim>\<open>PROP_TRIGGER\<close>) are not part of
  the default build and not modelled.
\<close>

section \<open>Lines\<close>

definition zero_unit :: property_unit where
  "zero_unit = \<lparr>property_name = replicate PROP_NAME_MAX 0, property_value = replicate PROP_VALUE_MAX 0,
     callback_to_be_invoked = False\<rparr>"

text \<open>\<open>Some (None, av)\<close> is the null result without memory.\<close>

definition pull_one_line_data :: "byte list \<Rightarrow> nat \<Rightarrow> (property_unit option \<times> nat) option" where
  "pull_one_line_data line av = (if av = 0 then Some (None, 0)
     else do {
       s \<leftarrow> cstr_of line;
       if equals_sign \<notin> set s then Some (Some zero_unit, av - 1)
       else do {
         let d = length (takeWhile ((\<noteq>) equals_sign) s);
         nb \<leftarrow> strncpy (property_name zero_unit) s (if d > PROP_NAME_MAX then PROP_NAME_MAX else d);
         let r = drop (d + 1) s;
         vb \<leftarrow> strncpy (property_value zero_unit) r (if length r > PROP_VALUE_MAX then PROP_VALUE_MAX else length r);
         Some (Some (zero_unit\<lparr>property_name := nb, property_value := vb\<rparr>), av - 1) } })"

section \<open>Files\<close>

text \<open>\<^verbatim>\<open>fgets\<close> into an array of \<^verbatim>\<open>MAX_ALLOWED_LINE_LEN\<close> bytes: up to a newline, or what fits.\<close>

definition fgets_chunk :: "byte list \<Rightarrow> byte list" where
  "fgets_chunk s = (let t = take (MAX_ALLOWED_LINE_LEN - 1) s in
     if newline \<in> set t then takeWhile ((\<noteq>) newline) t @ [newline] else t)"

definition line_array :: "byte list \<Rightarrow> byte list" where
  "line_array s = s @ replicate (MAX_ALLOWED_LINE_LEN - length s) 0"

lemma fgets_chunk_nonempty: "s \<noteq> [] \<Longrightarrow> fgets_chunk s \<noteq> []"
  by (auto simp: fgets_chunk_def Let_def)

function search_and_add_property_val ::
  "byte list \<Rightarrow> property_unit list \<Rightarrow> nat \<Rightarrow> (property_unit list \<times> nat) option" where
  "search_and_add_property_val s l av = (if s = [] then Some (l, av)
     else do {
       (node, av) \<leftarrow> pull_one_line_data (line_array (fgets_chunk s)) av;
       l \<leftarrow> (case node of None \<Rightarrow> Some l | Some u \<Rightarrow> list_add u l);
       search_and_add_property_val (drop (length (fgets_chunk s)) s) l av })"
  by pat_completeness auto

termination
  by (relation "measure (\<lambda>(s, l, av). length s)") (auto simp: fgets_chunk_nonempty)

declare search_and_add_property_val.simps [simp del]

record prop_state =
  ds :: "property_unit list"
  persist_storage_ready :: bool
  persist_file :: "byte list option"
  persist_writable :: bool

definition load_properties_from_file ::
  "byte list option \<Rightarrow> prop_state \<Rightarrow> nat \<Rightarrow> (prop_state \<times> nat) option" where
  "load_properties_from_file file st av = (case file of None \<Rightarrow> Some (st, av)
     | Some s \<Rightarrow> do { (l, av) \<leftarrow> search_and_add_property_val s (ds st) av; Some (st\<lparr>ds := l\<rparr>, av) })"

definition load_persist_properties :: "prop_state \<Rightarrow> nat \<Rightarrow> (prop_state \<times> nat) option" where
  "load_persist_properties st av =
     load_properties_from_file (persist_file st) (st\<lparr>persist_storage_ready := True\<rparr>) av"

definition save_persist_ds_to_file :: "prop_state \<Rightarrow> prop_state option" where
  "save_persist_ds_to_file st = do {
     (_, f) \<leftarrow> save_persist_nodes_to_file (ds st) (persist_writable st);
     Some (case f of None \<Rightarrow> st | Some c \<Rightarrow> st\<lparr>persist_file := Some c\<rparr>) }"

section \<open>Messages\<close>

text \<open>The strings \<^verbatim>\<open>le.persistprop.enable\<close> and \<^verbatim>\<open>true\<close>.\<close>

definition enable_name :: cstr where
  "enable_name = [108, 101, 46, 112, 101, 114, 115, 105, 115, 116, 112, 114, 111, 112, 46, 101, 110, 97, 98, 108, 101]"

definition true_value :: cstr where
  "true_value = [116, 114, 117, 101]"

abbreviation PROP_MSG_GETPROP :: byte where "PROP_MSG_GETPROP \<equiv> 48"
abbreviation PROP_MSG_SETPROP :: byte where "PROP_MSG_SETPROP \<equiv> 49"

text \<open>The message without its first byte, in an array of a line's size; a write behind it is undefined.\<close>

definition message_line :: "byte list \<Rightarrow> byte list option" where
  "message_line buff = do {
     s \<leftarrow> cstr_of buff;
     if length (tl s) > MAX_ALLOWED_LINE_LEN then None else Some (line_array (tl s)) }"

definition process_setprop_msg :: "byte list \<Rightarrow> prop_state \<Rightarrow> nat \<Rightarrow> (prop_state \<times> nat) option" where
  "process_setprop_msg buff st av = do {
     line \<leftarrow> message_line buff;
     (node, av) \<leftarrow> pull_one_line_data line av;
     (case node of None \<Rightarrow> Some (st, av)
      | Some u \<Rightarrow> do {
          (_, l, av) \<leftarrow> update_prop_value (property_name u) (property_value u) (ds st) av;
          let st = st\<lparr>ds := l\<rparr>;
          e \<leftarrow> strcmp_eq (enable_name @ [0]) (property_name u);
          t \<leftarrow> (if e then strcmp_eq (true_value @ [0]) (property_value u) else Some False);
          (st, av) \<leftarrow> (if t then do {
              (st, av) \<leftarrow> load_persist_properties st av;
              st \<leftarrow> save_persist_ds_to_file st;
              Some (st, av) } else Some (st, av));
          p \<leftarrow> (if persist_storage_ready st then strncmp_eq (property_name u) persist_prefix else Some False);
          st \<leftarrow> (if p then save_persist_ds_to_file st else Some st);
          Some (st, av) }) }"

definition process_getprop_msg :: "byte list \<Rightarrow> prop_state \<Rightarrow> nat \<Rightarrow> (property_unit option \<times> nat) option" where
  "process_getprop_msg buff st av = do {
     line \<leftarrow> message_line buff;
     (node, av) \<leftarrow> pull_one_line_data line av;
     (case node of None \<Rightarrow> Some (None, av)
      | Some u \<Rightarrow> do {
          (_, v) \<leftarrow> retrive_prop_value (property_name u) (property_value u) (ds st);
          Some (Some (u\<lparr>property_value := v\<rparr>), av) }) }"

text \<open>
  One turn of the loop of \<^verbatim>\<open>main\<close> for a received message.  At most as many bytes are received as the buffer
  has, and the zero written behind them leaves the buffer when it is full.  A node that could not
  be allocated is dereferenced.  The answer is what is sent back before the connection is closed,
  \<^term>\<open>None\<close> when it is not closed.
\<close>

abbreviation RECV_BUF :: nat where "RECV_BUF \<equiv> MAX_ALLOWED_LINE_LEN + 1"

definition handle_message ::
  "byte list \<Rightarrow> prop_state \<Rightarrow> nat \<Rightarrow> (cstr option \<times> prop_state \<times> nat) option" where
  "handle_message msg st av = (
     if msg = [] then Some (None, st, av)
     else if length msg \<ge> RECV_BUF then None
     else let recv_buf = msg @ replicate (RECV_BUF - length msg) 0 in
       if hd recv_buf = PROP_MSG_SETPROP then do {
         (st, av) \<leftarrow> process_setprop_msg recv_buf st av;
         Some (Some [], st, av) }
       else if hd recv_buf = PROP_MSG_GETPROP then do {
         (node, av) \<leftarrow> process_getprop_msg recv_buf st av;
         (case node of None \<Rightarrow> None
          | Some u \<Rightarrow> do {
              n \<leftarrow> cstr_of (property_name u);
              v \<leftarrow> cstr_of (property_value u);
              Some (Some (take MAX_ALLOWED_LINE_LEN (PROP_MSG_GETPROP # n @ [equals_sign] @ v)), st, av) }) }
       else Some (None, st, av))"

text \<open>The start of the service.\<close>

definition boot :: "byte list option \<Rightarrow> byte list option \<Rightarrow> bool \<Rightarrow> nat \<Rightarrow> (prop_state \<times> nat) option" where
  "boot default_file persist writable av =
     load_properties_from_file default_file
       \<lparr>ds = [], persist_storage_ready = False, persist_file = persist, persist_writable = writable\<rparr> av"

section \<open>Parsing and saving\<close>

text \<open>A line that fits: name and value are shorter than their arrays.\<close>

definition fits :: "cstr \<Rightarrow> cstr \<Rightarrow> bool" where
  "fits n v \<longleftrightarrow> 0 \<notin> set n \<and> equals_sign \<notin> set n \<and> length n < PROP_NAME_MAX \<and>
     0 \<notin> set v \<and> length v < PROP_VALUE_MAX"

lemma line_array_holds:
  assumes "0 \<notin> set s" "length s < MAX_ALLOWED_LINE_LEN"
  shows "cstr_of (line_array s) = Some s"
  using assms by (simp add: line_array_def holds_cstr holds_padded)

lemma pull_run:
  assumes f: "fits n v" and av: "0 < av"
  obtains u where "pull_one_line_data (line_array (n @ [equals_sign] @ v)) av = Some (Some u, av - 1)"
    "unit_ok u" "name_of u = n" "value_of u = v"
proof -
  let ?s = "n @ [equals_sign] @ v"
  have c: "cstr_of (line_array ?s) = Some ?s"
    using f by (intro line_array_holds) (auto simp: fits_def)
  have t: "takeWhile ((\<noteq>) equals_sign) ?s = n"
    using f by (subst takeWhile_append2) (auto simp: fits_def)
  let ?u = "zero_unit\<lparr>property_name := n @ replicate (PROP_NAME_MAX - length n) 0,
      property_value := v @ replicate (PROP_VALUE_MAX - length v) 0\<rparr>"
  have "strncpy (replicate PROP_NAME_MAX 0) ?s (length n) = Some (n @ replicate (PROP_NAME_MAX - length n) 0)"
    "strncpy (replicate PROP_VALUE_MAX 0) v (length v) = Some (v @ replicate (PROP_VALUE_MAX - length v) 0)"
    using f by (simp_all add: strncpy_def fits_def drop_replicate)
  then have "pull_one_line_data (line_array ?s) av = Some (Some ?u, av - 1)"
    using f av c t by (simp add: pull_one_line_data_def zero_unit_def Let_def fits_def)
  moreover have "unit_ok ?u" "name_of ?u = n" "value_of ?u = v"
    using unit_okI [of ?u n v] f by (simp_all add: fits_def holds_padded)
  ultimately show thesis
    using that by blast
qed

definition line_of :: "property_unit \<Rightarrow> byte list" where
  "line_of u = name_of u @ [equals_sign] @ value_of u"

definition is_persist :: "property_unit \<Rightarrow> bool" where
  "is_persist u \<longleftrightarrow> prefix persist_prefix (name_of u)"

lemma persist_lines_run:
  "\<forall>u \<in> set l. unit_ok u \<Longrightarrow> persist_lines l = Some (map line_of (filter is_persist l))"
proof (induction l)
  case (Cons u l)
  have u: "unit_ok u"
    using Cons.prems by simp
  have "strncmp_eq (property_name u) persist_prefix = Some (is_persist u)"
    using strncmp_holds [OF unit_holds(1) [OF u], of persist_prefix] by (simp add: is_persist_def persist_prefix_def)
  then show ?case
    using Cons unit_holds [OF u] by (simp add: line_of_def flip: holds_cstr)
qed simp

lemma save_run:
  assumes "db_ok (ds st)"
  shows "save_persist_ds_to_file st = Some (if persist_writable st
    then st\<lparr>persist_file := Some (concat (map line_of (filter is_persist (ds st))))\<rparr> else st)"
  using assms persist_lines_run [of "ds st"]
  by (simp add: save_persist_ds_to_file_def save_persist_nodes_to_file_def db_ok_def)

section \<open>Messages of clients\<close>

lemma message_line_run:
  assumes "c \<noteq> 0" "0 \<notin> set s" "length s < MAX_ALLOWED_LINE_LEN"
  shows "message_line ((c # s) @ replicate (RECV_BUF - length (c # s)) 0) = Some (line_array s)"
proof -
  have "cstr_of ((c # s) @ replicate (RECV_BUF - length (c # s)) 0) = Some (c # s)"
    unfolding holds_cstr using assms by (intro holds_padded) auto
  then show ?thesis
    using assms(3) by (simp add: message_line_def)
qed

text \<open>What a message that sets a property does to the properties.\<close>

definition set_prop :: "cstr \<Rightarrow> cstr \<Rightarrow> (cstr \<Rightarrow> cstr option) \<Rightarrow> cstr \<Rightarrow> cstr option" where
  "set_prop n v m = (if prefix ro_prefix n \<and> m n \<noteq> None then m else m(n \<mapsto> v @ [newline]))"

lemma handle_set_run:
  assumes ok: "db_ok (ds st)" and f: "fits n v" "length v + 1 < PROP_VALUE_MAX"
    and n: "n \<noteq> enable_name" and av: "2 \<le> av"
  shows "\<exists>st' av'. handle_message (PROP_MSG_SETPROP # n @ [equals_sign] @ v) st av = Some (Some [], st', av') \<and>
    db_ok (ds st') \<and> db_map (ds st') = set_prop n v (db_map (ds st)) \<and> av - 2 \<le> av' \<and>
    persist_storage_ready st' = persist_storage_ready st"
proof -
  let ?s = "n @ [equals_sign] @ v"
  have s: "0 \<notin> set ?s" "length ?s < MAX_ALLOWED_LINE_LEN"
    using f by (auto simp: fits_def)
  obtain u where u: "pull_one_line_data (line_array ?s) av = Some (Some u, av - 1)"
    "unit_ok u" "name_of u = n" "value_of u = v"
    using pull_run [OF f(1), of av] av by auto
  note h = unit_holds [OF u(2), unfolded u(3,4)]
  obtain r l av' where up: "update_prop_value (property_name u) (property_value u) (ds st) (av - 1) = Some (r, l, av')"
    "db_ok l" "av - 1 - 1 \<le> av'" "db_map l = set_prop n v (db_map (ds st))"
    using update_run [OF ok h(1,4,2) f(2), of "av - 1"] av by (auto simp: set_prop_def)
  have e: "strcmp_eq (enable_name @ [0]) (property_name u) = Some False"
    using strcmp_holds [OF _ h(1), of "enable_name @ [0]" enable_name] n by (auto simp: holds_def enable_name_def)
  have p: "strncmp_eq (property_name u) persist_prefix = Some (prefix persist_prefix n)"
    using strncmp_holds [OF h(1), of persist_prefix] by (simp add: persist_prefix_def)
  obtain st' where st': "(if persist_storage_ready st \<and> prefix persist_prefix n
      then save_persist_ds_to_file (st\<lparr>ds := l\<rparr>) else Some (st\<lparr>ds := l\<rparr>)) = Some st'"
    "ds st' = l" "persist_storage_ready st' = persist_storage_ready st"
    using save_run [of "st\<lparr>ds := l\<rparr>"] up(2) by (cases "persist_storage_ready st \<and> prefix persist_prefix n") auto
  have "process_setprop_msg ((PROP_MSG_SETPROP # ?s) @ replicate (RECV_BUF - length (PROP_MSG_SETPROP # ?s)) 0) st av =
      Some (st', av')"
    using message_line_run [OF _ s, of PROP_MSG_SETPROP] u(1) up(1) e p st'(1)
    by (auto simp: process_setprop_msg_def Let_def split: if_splits)
  then show ?thesis
    using s(2) up(2-4) st'(2,3) by (simp add: handle_message_def Let_def)
qed

lemma handle_set_full:
  assumes ok: "db_ok (ds st)" and f: "fits n v" "length v + 1 = PROP_VALUE_MAX"
    and ro: "\<not> (prefix ro_prefix n \<and> db_map (ds st) n \<noteq> None)" and av: "0 < av"
  shows "handle_message (PROP_MSG_SETPROP # n @ [equals_sign] @ v) st av = None"
proof -
  let ?s = "n @ [equals_sign] @ v"
  have s: "0 \<notin> set ?s" "length ?s < MAX_ALLOWED_LINE_LEN"
    using f by (auto simp: fits_def)
  obtain u where u: "pull_one_line_data (line_array ?s) av = Some (Some u, av - 1)"
    "unit_ok u" "name_of u = n" "value_of u = v"
    using pull_run [OF f(1) av] by auto
  note h = unit_holds [OF u(2), unfolded u(3,4)]
  have "process_setprop_msg ((PROP_MSG_SETPROP # ?s) @ replicate (RECV_BUF - length (PROP_MSG_SETPROP # ?s)) 0) st av = None"
    using message_line_run [OF _ s, of PROP_MSG_SETPROP] u(1) update_full [OF ok h(1,2) f(2) ro]
    by (simp add: process_setprop_msg_def)
  then show ?thesis
    using s(2) by (simp add: handle_message_def Let_def)
qed

text \<open>What a message that asks for a property answers: its value without the newline.\<close>

definition prop_answer :: "(cstr \<Rightarrow> cstr option) \<Rightarrow> cstr \<Rightarrow> cstr" where
  "prop_answer m n = (case m n of None \<Rightarrow> [] | Some w \<Rightarrow> butlast w)"

lemma db_map_unit:
  assumes "db_ok l" "db_map l n = Some w"
  obtains u where "u \<in> set l" "unit_ok u" "name_of u = n" "value_of u = w"
  using assms by (auto simp: db_map_def db_ok_def dest!: map_of_SomeD)

lemma handle_get_run:
  assumes ok: "db_ok (ds st)" and f: "fits n []" and av: "0 < av"
  shows "handle_message (PROP_MSG_GETPROP # n @ [equals_sign]) st av =
    Some (Some (PROP_MSG_GETPROP # n @ [equals_sign] @ prop_answer (db_map (ds st)) n), st, av - 1)"
proof -
  let ?s = "n @ [equals_sign]" and ?a = "prop_answer (db_map (ds st)) n"
  have s: "0 \<notin> set ?s" "length ?s < MAX_ALLOWED_LINE_LEN"
    using f by (auto simp: fits_def)
  obtain u where u: "pull_one_line_data (line_array ?s) av = Some (Some u, av - 1)"
    "unit_ok u" "name_of u = n" "value_of u = []"
    using pull_run [OF f av] by auto
  note h = unit_holds [OF u(2), unfolded u(3,4)]
  have "length (property_value u) = PROP_VALUE_MAX"
    using u(2) by (simp add: unit_ok_def)
  then obtain b where b: "retrive_prop_value (property_name u) (property_value u) (ds st) =
      Some (db_map (ds st) n \<noteq> None, b)"
    "case db_map (ds st) n of None \<Rightarrow> b = property_value u
     | Some w \<Rightarrow> if w = [] then b = property_value u else holds b (butlast w)"
    using retrive_run [OF ok h(1)] by blast
  have a: "cstr_of b = Some ?a"
    using b(2) h(2) by (auto simp: prop_answer_def holds_cstr split: option.splits if_splits)
  have "length ?a < PROP_VALUE_MAX"
  proof (cases "db_map (ds st) n")
    case (Some w)
    then obtain u where "unit_ok u" "value_of u = w"
      using db_map_unit [OF ok] by metis
    then show ?thesis
      using Some unit_holds(3) [of u] by (simp add: prop_answer_def)
  qed (simp add: prop_answer_def)
  then have "length (PROP_MSG_GETPROP # n @ [equals_sign] @ ?a) \<le> MAX_ALLOWED_LINE_LEN"
    using f by (simp add: fits_def)
  moreover have "process_getprop_msg ((PROP_MSG_GETPROP # ?s) @ replicate (RECV_BUF - length (PROP_MSG_GETPROP # ?s)) 0) st av =
      Some (Some (u\<lparr>property_value := b\<rparr>), av - 1)"
    using message_line_run [OF _ s, of PROP_MSG_GETPROP] u(1) b(1) by (simp add: process_getprop_msg_def)
  moreover have "cstr_of (property_name u) = Some n"
    using h(1) by (simp add: holds_cstr)
  ultimately show ?thesis
    using s(2) a by (simp add: handle_message_def Let_def)
qed

section \<open>Arbitrary messages\<close>

text \<open>The arrays of a parsed line have their sizes, and if they hold strings the line is made of these.\<close>

lemma pull_unit:
  assumes "pull_one_line_data line av = Some (Some u, av')"
  shows "length (property_name u) = PROP_NAME_MAX" "length (property_value u) = PROP_VALUE_MAX"
  using assms by (auto simp: pull_one_line_data_def strncpy_def zero_unit_def Let_def split: bind_splits if_splits)

lemma holds_copied:
  assumes "holds (take k s @ replicate j 0) n" "0 \<notin> set s"
  shows "n = take k s" "0 < j"
proof -
  have z: "0 \<notin> set (take k s)"
    using assms(2) by (meson in_set_takeD)
  then show "0 < j"
    using assms(1) by (cases j) (auto simp: holds_def)
  then show "n = take k s"
    using holds_padded [OF z, of j] holds_unique [OF assms(1)] by simp
qed

lemma pull_inv:
  assumes u: "pull_one_line_data line av = Some (Some u, av')" and s: "cstr_of line = Some s"
    and h: "holds (property_name u) n" "holds (property_value u) v" and n: "n \<noteq> []"
  shows "s = n @ [equals_sign] @ v"
proof -
  have s0: "0 \<notin> set s"
    using s by (simp add: holds_cstr holds_def)
  let ?d = "length (takeWhile ((\<noteq>) equals_sign) s)"
  let ?r = "drop (?d + 1) s"
  let ?a = "min PROP_NAME_MAX ?d" and ?b = "min PROP_VALUE_MAX (length ?r)"
  have "holds (property_name zero_unit) []"
    using holds_padded [of "[]" PROP_NAME_MAX] by (simp add: zero_unit_def)
  then have e: "equals_sign \<in> set s"
    using u s h(1) n holds_unique by (fastforce simp: pull_one_line_data_def split: if_splits)
  have le: "?a \<le> length s" "?b \<le> length ?r"
    using length_takeWhile_le [of _ s] by (simp_all add: min.coboundedI2)
  have nb: "property_name u = take ?a s @ replicate (PROP_NAME_MAX - ?a) 0"
    and vb: "property_value u = take ?b ?r @ replicate (PROP_VALUE_MAX - ?b) 0"
    using u s e le by (auto simp: pull_one_line_data_def zero_unit_def strncpy_def drop_replicate Let_def min_def
        split: bind_splits if_splits)
  have r0: "0 \<notin> set ?r"
    using s0 by (meson in_set_dropD)
  note c = holds_copied [OF h(1) [unfolded nb] s0] holds_copied [OF h(2) [unfolded vb] r0]
  have "n = take ?a s" "v = take ?b ?r" "?a = ?d" "?b = length ?r"
    using c by simp_all
  moreover obtain A B where "s = A @ equals_sign # B" "equals_sign \<notin> set A"
    using split_list_first [OF e] by blast
  moreover from this have "takeWhile ((\<noteq>) equals_sign) s = A"
    by (auto simp: takeWhile_append)
  ultimately show ?thesis
    by simp
qed

text \<open>The message that makes the service load the persistent properties.\<close>

definition enable_msg :: "byte list" where
  "enable_msg = PROP_MSG_SETPROP # enable_name @ [equals_sign] @ true_value"

text \<open>The read-only properties of the first list are those of the second.\<close>

definition keeps_ro :: "property_unit list \<Rightarrow> property_unit list \<Rightarrow> bool" where
  "keeps_ro l l' \<longleftrightarrow> (\<forall>n w. prefix ro_prefix n \<and> db_map l n = Some w \<longrightarrow> db_map l' n = Some w)"

lemma save_keeps_ds: "save_persist_ds_to_file st = Some st' \<Longrightarrow> ds st' = ds st"
  by (auto simp: save_persist_ds_to_file_def split: bind_splits option.splits)

lemma process_set_ok:
  assumes ok: "db_ok (ds st)" and run: "process_setprop_msg buff st av = Some (st', av')"
    and buff: "cstr_of buff = Some (c # s)" and en: "s \<noteq> enable_name @ [equals_sign] @ true_value"
  shows "db_ok (ds st') \<and> keeps_ro (ds st) (ds st')"
proof -
  have ml: "message_line buff = Some (line_array s)"
    using run buff by (auto simp: process_setprop_msg_def message_line_def split: bind_splits if_splits)
  obtain node av1 where p: "pull_one_line_data (line_array s) av = Some (node, av1)"
    using run ml by (auto simp: process_setprop_msg_def split: bind_splits)
  show ?thesis
  proof (cases node)
    case None
    then show ?thesis
      using run ml p ok by (auto simp: process_setprop_msg_def keeps_ro_def)
  next
    case (Some u)
    obtain r l av2 where up: "update_prop_value (property_name u) (property_value u) (ds st) av1 = Some (r, l, av2)"
      using run ml p Some by (auto simp: process_setprop_msg_def split: bind_splits)
    obtain n v where h: "holds (property_name u) n" "holds (property_value u) v" "db_ok l"
      "db_map l = (if prefix ro_prefix n \<and> db_map (ds st) n \<noteq> None then db_map (ds st)
        else (db_map (ds st))(n \<mapsto> v @ [newline]))"
      using update_ok [OF ok up] pull_unit [OF p [unfolded Some]] by blast
    have kr: "keeps_ro (ds st) l"
      unfolding keeps_ro_def h(4) by auto
    have "0 \<notin> set s"
      using buff by (simp add: holds_cstr holds_def)
    moreover obtain x where "cstr_of (line_array s) = Some x"
      using p Some by (auto simp: pull_one_line_data_def split: bind_splits if_splits)
    ultimately have "cstr_of (line_array s) = Some s"
      using holds_copied(1) [of "length s" s _ x] by (auto simp: holds_cstr line_array_def)
    then have nv: "s = n @ [equals_sign] @ v" if "n \<noteq> []"
      using pull_inv [OF p [unfolded Some] _ h(1,2) that] by blast
    have e: "strcmp_eq (enable_name @ [0]) (property_name u) = Some (enable_name = n)"
      using strcmp_holds [OF _ h(1), of "enable_name @ [0]" enable_name] by (auto simp: holds_def enable_name_def)
    have t: "strcmp_eq (true_value @ [0]) (property_value u) = Some (true_value = v)"
      using strcmp_holds [OF _ h(2), of "true_value @ [0]" true_value] by (auto simp: holds_def true_value_def)
    have "\<not> (enable_name = n \<and> true_value = v)"
      using nv en by (auto simp: enable_name_def)
    then have "ds st' = l"
      using run ml p up e t Some
      by (auto simp: process_setprop_msg_def Let_def split: bind_splits if_splits dest!: save_keeps_ds)
    then show ?thesis
      using h(3) kr by simp
  qed
qed

lemma handle_message_ok:
  assumes ok: "db_ok (ds st)" and run: "handle_message msg st av = Some (r, st', av')"
    and en: "\<not> prefix enable_msg msg"
  shows "db_ok (ds st') \<and> keeps_ro (ds st) (ds st')"
proof (cases "msg \<noteq> [] \<and> hd msg = PROP_MSG_SETPROP")
  case True
  then obtain m where m: "msg = PROP_MSG_SETPROP # m"
    by (cases msg) auto
  let ?buff = "msg @ replicate (RECV_BUF - length msg) 0" and ?s = "takeWhile ((\<noteq>) 0) m"
  have "length msg < RECV_BUF" "process_setprop_msg ?buff st av = Some (st', av')"
    using run m by (auto simp: handle_message_def Let_def split: if_splits bind_splits)
  moreover from this(1) have "cstr_of ?buff = Some (PROP_MSG_SETPROP # ?s)"
    by (auto simp: cstr_of_def m takeWhile_append takeWhile_eq_all_conv [THEN iffD2] takeWhile_replicate)
  moreover have "?s \<noteq> enable_name @ [equals_sign] @ true_value"
    using en takeWhile_is_prefix [of "(\<noteq>) 0" m] by (auto simp: m enable_msg_def)
  ultimately show ?thesis
    using process_set_ok [OF ok] by blast
next
  case False
  then have "st' = st"
    using run by (cases msg) (auto simp: handle_message_def Let_def split: if_splits bind_splits option.splits)
  then show ?thesis
    using ok by (simp add: keeps_ro_def)
qed

lemma handle_message_answer:
  assumes "handle_message msg st av = Some (Some a, st', av')"
  shows "0 \<notin> set a \<and> length a < RECV_BUF"
proof (cases "a = []")
  case False
  then obtain n v where "0 \<notin> set n" "0 \<notin> set v" "a = take MAX_ALLOWED_LINE_LEN (PROP_MSG_GETPROP # n @ [equals_sign] @ v)"
    using assms by (auto simp: handle_message_def holds_cstr holds_def Let_def split: if_splits bind_splits option.splits)
  then show ?thesis
    by (auto dest: in_set_takeD)
qed simp

text \<open>
  C21: The list of properties stays well-formed under every message whose handling is defined and that does not
  start with \<open>1le.persistprop.enable=true\<close>: every name and value is a terminated array of its size and
  no name occurs twice.  What is sent back has no zero byte and fits the buffer of a client.  The
  excluded message makes the service load the file with the persistent properties, whose lines can
  leave an array without a terminating zero.
\<close>

theorem handle_message_type:
  assumes "db_ok (ds st)" "handle_message msg st av = Some (r, st', av')" "\<not> prefix enable_msg msg"
  shows "db_ok (ds st') \<and> (case r of None \<Rightarrow> True | Some a \<Rightarrow> 0 \<notin> set a \<and> length a < RECV_BUF)"
  using handle_message_ok [OF assms] handle_message_answer assms(2) by (auto split: option.splits)

text \<open>The runs of the service: one message after the other, with memory that may be used and freed in between.\<close>

inductive serves :: "prop_state \<Rightarrow> byte list list \<Rightarrow> prop_state \<Rightarrow> bool" where
  none: "serves st [] st"
| message: "handle_message msg st av = Some (r, st1, av') \<Longrightarrow> serves st1 msgs st' \<Longrightarrow> serves st (msg # msgs) st'"

inductive_simps serves_Nil: "serves st [] st'"
inductive_simps serves_Cons: "serves st (msg # msgs) st'"

text \<open>
  C20: A sequence of messages none of which starts with \<open>1le.persistprop.enable=true\<close> changes no read-only
  property that exists, and keeps the list of properties well-formed.  The excluded message loads the
  file with the persistent properties, which does replace the values of read-only properties
  (\<open>load_persist_overwrites\<close> below).
\<close>

theorem serves_keeps_ro:
  assumes "serves st msgs st'" "db_ok (ds st)" "\<forall>msg \<in> set msgs. \<not> prefix enable_msg msg"
  shows "db_ok (ds st') \<and> keeps_ro (ds st) (ds st')"
  using assms
proof (induction rule: serves.induct)
  case (message msg st av r st1 av' msgs st')
  then show ?case
    using handle_message_ok [OF message.prems(1) message.hyps(1)] by (auto simp: keeps_ro_def)
qed (simp add: keeps_ro_def)

section \<open>Persistent properties\<close>

text \<open>Names and values that can be written as lines.\<close>

definition plain_db :: "(cstr \<Rightarrow> cstr option) \<Rightarrow> bool" where
  "plain_db m \<longleftrightarrow> (\<forall>n w. m n = Some w \<longrightarrow> newline \<notin> set n \<and> equals_sign \<notin> set n \<and>
     (\<exists>v. w = v @ [newline] \<and> newline \<notin> set v))"

lemma fgets_line:
  assumes "newline \<notin> set s" "length s + 1 < MAX_ALLOWED_LINE_LEN"
  shows "fgets_chunk (s @ newline # r) = s @ [newline]"
proof -
  have "take (MAX_ALLOWED_LINE_LEN - 1) (s @ newline # r) = s @ newline # take (MAX_ALLOWED_LINE_LEN - 1 - (length s + 1)) r"
    using assms(2) by (simp add: take_Cons')
  moreover have "takeWhile ((\<noteq>) newline) (s @ newline # t) = s" for t
    using assms(1) by (subst takeWhile_append2) auto
  ultimately show ?thesis
    by (simp add: fgets_chunk_def Let_def)
qed

lemma load_run:
  assumes "\<forall>u \<in> set us. unit_ok u" "distinct (map name_of us)" "plain_db (db_map us)" "db_ok l" "length us \<le> av"
  shows "\<exists>l'. search_and_add_property_val (concat (map line_of us)) l av = Some (l', av - length us) \<and>
    db_ok l' \<and> db_map l' = db_map l ++ db_map us"
  using assms
proof (induction us arbitrary: l av)
  case Nil
  then show ?case
    by (simp add: search_and_add_property_val.simps [of "[]"] db_map_def)
next
  case (Cons u us)
  have u: "unit_ok u" "db_map (u # us) (name_of u) = Some (value_of u)"
    using Cons.prems(1) by simp_all
  then obtain v where v: "value_of u = v @ [newline]" "newline \<notin> set v" "newline \<notin> set (name_of u)"
    "equals_sign \<notin> set (name_of u)"
    using Cons.prems(3) unfolding plain_db_def by metis
  note h = unit_holds [OF u(1)]
  have f: "fits (name_of u) (value_of u)"
    using h v(4) by (auto simp: fits_def holds_def)
  let ?r = "concat (map line_of us)"
  have ne: "line_of u \<noteq> []"
    by (simp add: line_of_def)
  have c: "fgets_chunk (line_of u @ ?r) = line_of u"
    using fgets_line [of "name_of u @ [equals_sign] @ v" ?r] v h(3,4) by (simp add: line_of_def)
  obtain u' where p: "pull_one_line_data (line_array (line_of u)) av = Some (Some u', av - 1)"
    "unit_ok u'" "name_of u' = name_of u" "value_of u' = value_of u"
    using pull_run [OF f, of av] Cons.prems(5) by (auto simp: line_of_def)
  obtain l1 where l1: "list_add u' l = Some l1" "db_ok l1" "db_map l1 = (db_map l)(name_of u \<mapsto> value_of u)"
    using list_add_run [OF Cons.prems(4) p(2)] p(3,4) by auto
  have n: "db_map us (name_of u) = None"
    using Cons.prems(2) db_map_None by auto
  have "db_map (u # us) k = Some w" if "db_map us k = Some w" for k w
    using n that by (cases "k = name_of u") simp_all
  moreover have le: "length us \<le> av - 1"
    using Cons.prems(5) by simp
  ultimately have "plain_db (db_map us)"
    using Cons.prems(3) unfolding plain_db_def by blast
  then obtain l' where l': "search_and_add_property_val ?r l1 (av - 1) = Some (l', av - 1 - length us)"
    "db_ok l'" "db_map l' = db_map l1 ++ db_map us"
    using Cons.IH [OF _ _ _ l1(2), of "av - 1"] Cons.prems(1,2) le by auto
  have "search_and_add_property_val (line_of u @ ?r) l av = Some (l', av - length (u # us))"
    using ne c p(1) l1(1) l'(1) by (subst search_and_add_property_val.simps) simp
  then have "search_and_add_property_val (concat (map line_of (u # us))) l av = Some (l', av - length (u # us))"
    by simp
  moreover have "db_map l1 ++ db_map us = db_map l ++ db_map (u # us)"
    using n by (auto simp: l1(3) fun_eq_iff map_add_def split: option.splits)
  ultimately show ?case
    using l'(2,3) by metis
qed

lemma db_map_filter:
  assumes "db_ok l"
  shows "db_map (filter is_persist l) = db_map l |` {n. prefix persist_prefix n}"
proof
  fix n
  show "db_map (filter is_persist l) n = (db_map l |` {n. prefix persist_prefix n}) n"
    by (induction l) (auto simp: db_map_def is_persist_def restrict_map_def)
qed

text \<open>
  C15: The persistent properties survive a restart: after the service has saved its properties, a service that
  starts empty and loads the file has exactly the properties whose names start with
  \<^verbatim>\<open>persist.\<close>, with their values.  The names have no newline and no equals sign, and each value
  ends with its only newline, as the values have that are set by messages; the file is writable and
  there is memory for every property.
\<close>

theorem persist_save_load:
  assumes "db_ok (ds st)" "plain_db (db_map (ds st))" "persist_writable st" "length (ds st) \<le> av"
  shows "\<exists>st1 st2 av'. save_persist_ds_to_file st = Some st1 \<and>
    load_persist_properties \<lparr>ds = [], persist_storage_ready = False, persist_file = persist_file st1,
      persist_writable = True\<rparr> av = Some (st2, av') \<and>
    db_ok (ds st2) \<and> db_map (ds st2) = db_map (ds st) |` {n. prefix persist_prefix n}"
proof -
  let ?us = "filter is_persist (ds st)" and ?st1 = "st\<lparr>persist_file := Some (concat (map line_of (filter is_persist (ds st))))\<rparr>"
  let ?st2 = "\<lambda>l. \<lparr>ds = l, persist_storage_ready = True, persist_file = persist_file ?st1, persist_writable = True\<rparr>"
  note m = db_map_filter [OF assms(1)]
  have "plain_db (db_map ?us)"
    using assms(2) unfolding plain_db_def m by (auto simp: restrict_map_def split: if_splits)
  moreover have "\<forall>u \<in> set ?us. unit_ok u" "distinct (map name_of ?us)" "length ?us \<le> av"
    using assms(1) order_trans [OF length_filter_le assms(4)] by (auto simp: db_ok_def distinct_map_filter)
  ultimately obtain l' where "search_and_add_property_val (concat (map line_of ?us)) [] av = Some (l', av - length ?us)"
    "db_ok l'" "db_map l' = db_map [] ++ db_map ?us"
    using load_run [of ?us "[]" av] by (auto simp: db_ok_def)
  then show ?thesis
    using save_run [OF assms(1)] assms(3) m
    by (intro exI [of _ ?st1] exI [of _ "?st2 l'"] exI [of _ "av - length ?us"])
      (simp add: load_persist_properties_def load_properties_from_file_def)
qed

text \<open>
  Loading the persistent properties replaces the value of every property the file names, also of one that
  is read-only and exists: the comment that such properties are never modified holds for messages only.
\<close>

theorem load_persist_overwrites:
  assumes "db_ok (ds st)" "persist_file st = Some (n @ [equals_sign] @ v @ [newline])"
    and "fits n (v @ [newline])" "newline \<notin> set n" "newline \<notin> set v" "0 < av"
  shows "\<exists>st'. load_persist_properties st av = Some (st', av - 1) \<and> db_ok (ds st') \<and>
    db_map (ds st') = (db_map (ds st))(n \<mapsto> v @ [newline])"
proof -
  obtain u where u: "unit_ok u" "name_of u = n" "value_of u = v @ [newline]"
    using pull_run [OF assms(3,6)] by blast
  have "plain_db (db_map [u])"
    using assms(3-5) u by (auto simp: plain_db_def fits_def split: if_splits)
  then obtain l' where "search_and_add_property_val (concat (map line_of [u])) (ds st) av = Some (l', av - 1)"
    "db_ok l'" "db_map l' = db_map (ds st) ++ db_map [u]"
    using load_run [of "[u]" "ds st" av] assms(1,6) u(1) by auto
  then show ?thesis
    using assms(2) u by (simp add: load_persist_properties_def load_properties_from_file_def line_of_def)
qed

section \<open>Examples\<close>

text \<open>The service with the properties \<open>persist.a=1\<close> and \<open>ro.b=2\<close>.\<close>

definition ex_unit :: "cstr \<Rightarrow> cstr \<Rightarrow> property_unit" where
  "ex_unit n v = \<lparr>property_name = n @ replicate (PROP_NAME_MAX - length n) 0,
     property_value = v @ replicate (PROP_VALUE_MAX - length v) 0, callback_to_be_invoked = False\<rparr>"

definition ex_service :: prop_state where
  "ex_service = \<lparr>ds = [ex_unit (persist_prefix @ [97]) [49, newline], ex_unit (ro_prefix @ [98]) [50, newline]],
     persist_storage_ready = True, persist_file = None, persist_writable = True\<rparr>"

lemma ex_unit_ok:
  "fits n v \<Longrightarrow> unit_ok (ex_unit n v) \<and> name_of (ex_unit n v) = n \<and> value_of (ex_unit n v) = v"
  using unit_okI [of "ex_unit n v" n v] by (simp add: ex_unit_def fits_def holds_padded)

lemma ex_service_ok:
  "db_ok (ds ex_service)"
  "db_map (ds ex_service) = [ro_prefix @ [98] \<mapsto> [50, newline], persist_prefix @ [97] \<mapsto> [49, newline]]"
  using ex_unit_ok [of "persist_prefix @ [97]" "[49, newline]"] ex_unit_ok [of "ro_prefix @ [98]" "[50, newline]"]
  by (simp_all add: ex_service_def db_ok_def db_map_def fits_def persist_prefix_def ro_prefix_def)

theorem persist_save_load_witness:
  "\<exists>st1 st2 av'. save_persist_ds_to_file ex_service = Some st1 \<and>
    load_persist_properties \<lparr>ds = [], persist_storage_ready = False, persist_file = persist_file st1,
      persist_writable = True\<rparr> 2 = Some (st2, av') \<and> db_map (ds st2) (persist_prefix @ [97]) = Some [49, newline]"
proof -
  have "plain_db (db_map (ds ex_service))"
    unfolding ex_service_ok by (auto simp: plain_db_def persist_prefix_def ro_prefix_def split: if_splits)
  moreover have "persist_writable ex_service" "length (ds ex_service) \<le> 2"
    by (simp_all add: ex_service_def)
  ultimately show ?thesis
    using persist_save_load [OF ex_service_ok(1), of 2]
    by (auto simp: ex_service_ok(2) persist_prefix_def ro_prefix_def restrict_map_def)
qed

text \<open>A message that sets the read-only property is handled and ignored.\<close>

lemma ex_service_set_ro:
  "\<exists>r st' av'. handle_message (PROP_MSG_SETPROP # (ro_prefix @ [98]) @ [equals_sign] @ [51]) ex_service 2 = Some (r, st', av')"
  using handle_set_run [OF ex_service_ok(1), of "ro_prefix @ [98]" "[51]" 2]
  by (auto simp: fits_def ro_prefix_def enable_name_def)

theorem handle_message_type_witness:
  "\<exists>r st' av'. handle_message (PROP_MSG_SETPROP # (ro_prefix @ [98]) @ [equals_sign] @ [51]) ex_service 2 = Some (r, st', av') \<and>
    db_ok (ds st')"
  using ex_service_set_ro handle_message_type [OF ex_service_ok(1)]
  by (fastforce simp: enable_msg_def enable_name_def ro_prefix_def)

theorem serves_keeps_ro_witness:
  "\<exists>st'. serves ex_service [PROP_MSG_SETPROP # (ro_prefix @ [98]) @ [equals_sign] @ [51]] st' \<and>
    db_map (ds st') (ro_prefix @ [98]) = Some [50, newline]"
proof -
  let ?m = "PROP_MSG_SETPROP # (ro_prefix @ [98]) @ [equals_sign] @ [51]"
  obtain st' where s: "serves ex_service [?m] st'"
    using ex_service_set_ro by (auto simp: serves_Cons serves_Nil)
  moreover have "\<not> prefix enable_msg ?m"
    by (simp add: enable_msg_def enable_name_def ro_prefix_def)
  moreover have "db_map (ds ex_service) (ro_prefix @ [98]) = Some [50, newline]"
    by (simp add: ex_service_ok(2) persist_prefix_def ro_prefix_def)
  ultimately show ?thesis
    using serves_keeps_ro [OF s ex_service_ok(1)] by (auto simp: keeps_ro_def)
qed

theorem load_persist_overwrites_witness:
  "\<exists>st'. load_persist_properties (ex_service\<lparr>persist_file := Some ((ro_prefix @ [98]) @ [equals_sign] @ [51] @ [newline])\<rparr>) 1 =
      Some (st', 0) \<and>
    db_map (ds ex_service) (ro_prefix @ [98]) = Some [50, newline] \<and>
    db_map (ds st') (ro_prefix @ [98]) = Some [51, newline]"
proof -
  let ?st = "ex_service\<lparr>persist_file := Some ((ro_prefix @ [98]) @ [equals_sign] @ [51] @ [newline])\<rparr>"
  have "db_ok (ds ?st)"
    using ex_service_ok(1) by simp
  moreover have "fits (ro_prefix @ [98]) ([51] @ [newline])"
    by (simp add: fits_def ro_prefix_def)
  ultimately show ?thesis
    using load_persist_overwrites [of ?st "ro_prefix @ [98]" "[51]" 1]
    by (auto simp: ex_service_ok(2) persist_prefix_def ro_prefix_def)
qed

end
