(* ===== verification/Prop_Client.thy ===== *)
theory Prop_Client
  imports Prop_Service
begin

text \<open>
  The clients of the property service in libcutils (\<^verbatim>\<open>property_ops.c\<close>, \<^verbatim>\<open>properties.c\<close>, built with
  \<^verbatim>\<open>LE_PROPERTIES\<close>): the messages that set and get a property, and the functions applications call.

  The service is a parameter of the functions that send messages: a function from the message and
  its state to the answer and the new state.  A property is read into an array of the caller.
\<close>

section \<open>Messages\<close>

text \<open>
  No connection with an error number, a connection that takes only some of the bytes (none when \<^verbatim>\<open>send\<close> fails),
  one whose answer does not come in time, or a working one.
\<close>

datatype link = NoSocket int | PartSent nat | TimedOut | Connected

type_synonym 's server = "byte list \<Rightarrow> 's \<Rightarrow> nat \<Rightarrow> (cstr option \<times> 's \<times> nat) option"

definition send_setprop_msg :: "'s server \<Rightarrow> link \<Rightarrow> cstr \<Rightarrow> 's \<Rightarrow> nat \<Rightarrow> (int \<times> 's \<times> nat) option" where
  "send_setprop_msg serve lk msg st av = (case lk of
       NoSocket e \<Rightarrow> Some (- e, st, av)
     | PartSent k \<Rightarrow> do { (_, st, av) \<leftarrow> serve (take k msg) st av; Some (0, st, av) }
     | _ \<Rightarrow> do { (_, st, av) \<leftarrow> serve msg st av; Some (0, st, av) })"

definition send_getprop_msg ::
  "'s server \<Rightarrow> link \<Rightarrow> cstr \<Rightarrow> byte list \<Rightarrow> 's \<Rightarrow> nat \<Rightarrow> (int \<times> byte list \<times> 's \<times> nat) option" where
  "send_getprop_msg serve lk msg resp st av = (case lk of
       NoSocket e \<Rightarrow> Some (- e, resp, st, av)
     | PartSent k \<Rightarrow> do { (_, st, av) \<leftarrow> serve (take k msg) st av; Some (0, resp, st, av) }
     | TimedOut \<Rightarrow> do { (_, st, av) \<leftarrow> serve msg st av; Some (- 1, resp, st, av) }
     | Connected \<Rightarrow> do {
         (r, st, av) \<leftarrow> serve msg st av;
         (case r of None \<Rightarrow> Some (- 1, resp, st, av)
          | Some answer \<Rightarrow>
              if answer = [] then Some (- 1, resp, st, av)
              else if length answer \<ge> RECV_BUF then None
              else do {
                s \<leftarrow> cstr_of (answer @ replicate (RECV_BUF - length answer) 0);
                if length (tl s) > length resp then None
                else Some (0, tl s @ drop (length (tl s)) resp, st, av) }) })"

definition set_property_value :: "'s server \<Rightarrow> link \<Rightarrow> cstr \<Rightarrow> cstr \<Rightarrow> 's \<Rightarrow> nat \<Rightarrow> (bool \<times> 's \<times> nat) option" where
  "set_property_value serve lk prop_name prop_val st av = do {
     (err, st, av) \<leftarrow> send_setprop_msg serve lk
        (take MAX_ALLOWED_LINE_LEN (PROP_MSG_SETPROP # prop_name @ [equals_sign] @ prop_val)) st av;
     Some (\<not> err < 0, st, av) }"

text \<open>An answer without an equals sign makes the code read at a null pointer.\<close>

definition get_property_value ::
  "'s server \<Rightarrow> link \<Rightarrow> cstr \<Rightarrow> byte list \<Rightarrow> 's \<Rightarrow> nat \<Rightarrow> (bool \<times> byte list \<times> 's \<times> nat) option" where
  "get_property_value serve lk prop_name prop_val st av = do {
     (err, resp, st, av) \<leftarrow> send_getprop_msg serve lk
        (take MAX_ALLOWED_LINE_LEN (PROP_MSG_GETPROP # prop_name @ [equals_sign])) (replicate MAX_ALLOWED_LINE_LEN 0) st av;
     if err < 0 then Some (False, prop_val, st, av)
     else do {
       r \<leftarrow> cstr_of resp;
       if equals_sign \<notin> set r then None
       else do {
         let v = drop (Suc (length (takeWhile ((\<noteq>) equals_sign) r))) r;
         if v = [] then Some (False, prop_val, st, av)
         else do {
           (prop_val, _) \<leftarrow> strlcpy prop_val v (of_nat PROP_VALUE_MAX);
           Some (True, prop_val, st, av) } } } }"

section \<open>The functions of the library\<close>

abbreviation PROPERTY_VALUE_MAX :: nat where "PROPERTY_VALUE_MAX \<equiv> PROP_VALUE_MAX"

definition property_get ::
  "'s server \<Rightarrow> link \<Rightarrow> cstr \<Rightarrow> byte list \<Rightarrow> cstr option \<Rightarrow> 's \<Rightarrow> nat \<Rightarrow> (nat \<times> byte list \<times> 's \<times> nat) option" where
  "property_get serve lk key value default_value st av = do {
     (found, value, st, av) \<leftarrow> get_property_value serve lk key value st av;
     rc \<leftarrow> (if found then do { s \<leftarrow> cstr_of value; Some (length s) } else Some 0);
     if rc > 0 then Some (rc, value, st, av)
     else (case default_value of None \<Rightarrow> Some (rc, value, st, av)
       | Some d \<Rightarrow> let s = take (PROPERTY_VALUE_MAX - 1) d in
           if length s \<ge> length value then None
           else Some (length s, s @ 0 # drop (Suc (length s)) value, st, av)) }"

definition property_set ::
  "'s server \<Rightarrow> link \<Rightarrow> cstr option \<Rightarrow> cstr option \<Rightarrow> 's \<Rightarrow> nat \<Rightarrow> (int \<times> 's \<times> nat) option" where
  "property_set serve lk key value st av = (case key of None \<Rightarrow> Some (- 1, st, av)
     | Some key \<Rightarrow> let value = (case value of None \<Rightarrow> [] | Some v \<Rightarrow> v) in
         if length key \<ge> PROP_NAME_MAX then Some (- 1, st, av)
         else if length value \<ge> PROP_VALUE_MAX then Some (- 1, st, av)
         else do {
           (nb, _) \<leftarrow> strlcpy (replicate PROP_NAME_MAX 0) key (of_nat PROP_NAME_MAX);
           (vb, _) \<leftarrow> strlcpy (replicate PROP_VALUE_MAX 0) value (of_nat PROP_VALUE_MAX);
           n \<leftarrow> cstr_of nb;
           v \<leftarrow> cstr_of vb;
           (_, st, av) \<leftarrow> set_property_value serve lk n v st av;
           Some (0, st, av) })"

text \<open>The strings \<^verbatim>\<open>no\<close>, \<^verbatim>\<open>false\<close>, \<^verbatim>\<open>off\<close> and \<^verbatim>\<open>yes\<close>, \<^verbatim>\<open>true\<close>, \<^verbatim>\<open>on\<close>.\<close>

definition false_words :: "cstr list" where
  "false_words = [[110, 111], [102, 97, 108, 115, 101], [111, 102, 102]]"

definition true_words :: "cstr list" where
  "true_words = [[121, 101, 115], [116, 114, 117, 101], [111, 110]]"

definition property_get_bool ::
  "'s server \<Rightarrow> link \<Rightarrow> cstr option \<Rightarrow> byte \<Rightarrow> 's \<Rightarrow> nat \<Rightarrow> (byte \<times> 's \<times> nat) option" where
  "property_get_bool serve lk key default_value st av = (case key of None \<Rightarrow> Some (default_value, st, av)
     | Some key \<Rightarrow> do {
         (len, buf, st, av) \<leftarrow> property_get serve lk key (replicate PROPERTY_VALUE_MAX 0) (Some []) st av;
         s \<leftarrow> cstr_of buf;
         Some (if len = 1 then
             if hd buf = 48 \<or> hd buf = 110 then 0
             else if hd buf = 49 \<or> hd buf = 121 then 1 else default_value
           else if len > 1 then
             if s \<in> set false_words then 0
             else if s \<in> set true_words then 1 else default_value
           else default_value, st, av) })"

section \<open>What the clients rely on\<close>



section \<open>What applications see\<close>



text \<open>
  C38: A value of 91 bytes passes the length check of \<^verbatim>\<open>property_set\<close>, but the service appends a newline to it in
  an array of 92 bytes and then reads behind the array, for every name of at most 63 bytes that is
  not that of an existing read-only property.
\<close>

theorem property_set_full_value:
  assumes "db_ok (ds st)" "fits n v" "length v + 1 = PROP_VALUE_MAX"
    and "\<not> (prefix ro_prefix n \<and> db_map (ds st) n \<noteq> None)" "0 < av"
  shows "property_set handle_message Connected (Some n) (Some v) st av = None"
proof -
  have f: "length n < PROP_NAME_MAX" "0 \<notin> set n" "0 \<notin> set v" "length v < PROP_VALUE_MAX"
    using assms(2) by (simp_all add: fits_def)
  have "set_property_value handle_message Connected n v st av = None"
    using handle_set_full [OF assms] f by (simp add: set_property_value_def send_setprop_msg_def)
  then show ?thesis
    using f strlcpy_zeroed [of n PROP_NAME_MAX] strlcpy_zeroed [of v PROP_VALUE_MAX]
    by (simp add: property_set_def holds_cstr [THEN iffD2, OF holds_padded] Let_def)
qed

theorem property_set_full_value_witness:
  "property_set handle_message Connected (Some [120]) (Some (replicate 91 55)) ex_service 1 = None"
  using property_set_full_value [OF ex_service_ok(1), of "[120]" "replicate 91 55" 1]
  by (simp add: fits_def ro_prefix_def)

text \<open>
  When a request for a property could not be sent, \<^verbatim>\<open>get_property_value\<close> treats its empty answer as one of
  the service and reads at a null pointer.
\<close>

theorem get_property_value_unsent:
  "get_property_value handle_message (PartSent 0) n b st av = None"
  by (simp add: get_property_value_def send_getprop_msg_def handle_message_def cstr_of_def)

end
