(* ===== verification/Spec2Isabelle.thy ===== *)
theory Spec2Isabelle
  imports Sparse_Reader Str_Parms Rsa Dsa_Sig Unicode_Conv Vector_World Record_Stream Prop_Client
begin

text \<open>
  The development models parts of the system core of an embedded Android platform: the sparse image
  library \<^verbatim>\<open>libsparse\<close>, the signature library \<^verbatim>\<open>libmincrypt\<close>, tables, strings and streams of
  \<^verbatim>\<open>libcutils\<close>, text and vectors of \<^verbatim>\<open>libutils\<close>, and the property service \<^verbatim>\<open>leproperties\<close> with its clients in \<^verbatim>\<open>libcutils\<close>.  Every
  definition that models code is a translation of a C function, structure or table of \<^verbatim>\<open>src/\<close>; the
  other definitions say what the code should compute.

  Conventions (theory \<^verbatim>\<open>Prelude\<close>).  Integers of a fixed width are words and wrap as in C; \<^verbatim>\<open>int64_t\<close> file
  offsets are integers without bound, since no file reaches 2^63 bytes, while products of numbers of an
  image that could leave \<^verbatim>\<open>int64_t\<close> are undefined.  An execution that is undefined, fails an assertion, dereferences a null or
  dangling pointer, leaves an array or never ends is \<^term>\<open>None\<close> of the option monad, so a statement that
  a function returns \<^term>\<open>Some x\<close> says that it ends and is defined.  Error codes are values.  A number of
  allocations that still succeed, or the outcomes of those to come (\<^verbatim>\<open>av\<close>, \<^verbatim>\<open>avail\<close>), is part of the state, so every failing allocation
  is a branch.  Objects that other objects point to live in an explicit store.

  Sparse images (\<^verbatim>\<open>libsparse\<close>).  Files of an image are queued as blocks, the queue is written as
  an image, and an image is read back into a queue.
    - \<^verbatim>\<open>Crc32\<close>: the table and loop of \<^verbatim>\<open>sparse_crc32.c\<close>, equal to the bit-serial checksum; one changed byte is
      always noticed.
    - \<^verbatim>\<open>Backed_Block\<close>, \<^verbatim>\<open>Backed_Queue\<close>: the linked list of \<^verbatim>\<open>backed_block.c\<close> in a store, its cached pointer, merging,
      splitting and moving.  It refines a sorted list of blocks (locale \<^verbatim>\<open>block_sink\<close>) whose merges keep the
      bytes that the blocks describe, destroying it frees every block once, and a cached pointer to a merged
      block is dangling.
    - \<^verbatim>\<open>Posix_File\<close>, \<^verbatim>\<open>Output_File\<close>: the file interface and the writer of \<^verbatim>\<open>output_file.c\<close> with its two tables of
      operations; zlib is a parameter.
    - \<^verbatim>\<open>Sparse_File\<close>, \<^verbatim>\<open>Sparse_Read\<close>: \<^verbatim>\<open>sparse.c\<close> and \<^verbatim>\<open>sparse_read.c\<close> with their whole control flow.
    - \<^verbatim>\<open>Sparse_Format\<close>, \<^verbatim>\<open>Sparse_Writer\<close>, \<^verbatim>\<open>Sparse_Reader\<close>: the image format as a specification on numbers and bytes, with its
      checksum by the bit-serial CRC-32; the writer produces it on
      every backend with the laws of the locale \<^verbatim>\<open>byte_sink\<close> (a file, a counting callback), the computed
      length is exact, the reader accepts it, and writing and reading gives the same contents.  When
      the checksums of writer and reader agree is decided exactly.

  Signatures (\<^verbatim>\<open>libmincrypt\<close>).  A signature is checked by hashing and by arithmetic on digit lists.
    - \<^verbatim>\<open>Sha\<close>: SHA-1 and SHA-256 for every division of a message into updates give the digests of FIPS 180-4
      (locale \<^verbatim>\<open>block_hash\<close> for the two instances).  The standard is stated on numbers: the constants are the
      fractional parts of square and cube roots of primes, and the code's tables are proved equal to them.
    - \<^verbatim>\<open>Bignum\<close>, \<^verbatim>\<open>Octets\<close>: digit lists and octet strings as integers.
    - \<^verbatim>\<open>Rsa\<close>: Montgomery exponentiation computes the power modulo the key, and \<^verbatim>\<open>RSA_verify\<close> decides by the digest of
      the recovered message.
    - \<^verbatim>\<open>P256\<close>, \<^verbatim>\<open>Dsa_Sig\<close>: arithmetic modulo 256-bit numbers, the inverse, validity of points, and unpacking of signatures:
      every DER encoding is unpacked and what is accepted beyond DER is described, with the cases where the
      code refuses valid points, never returns or reads too far.

  Tables, strings and streams (\<^verbatim>\<open>libcutils\<close>).
    - \<^verbatim>\<open>Hashmap\<close>: the chained table of \<^verbatim>\<open>hashmap.c\<close> with expansion and failing allocations; it implements a map (locale
      \<^verbatim>\<open>assoc_map\<close>).
    - \<^verbatim>\<open>Cstring\<close>, \<^verbatim>\<open>Str_Parms\<close>: C strings in arrays, \<^verbatim>\<open>strlcpy.c\<close>, and the parameter strings of \<^verbatim>\<open>str_parms.c\<close> on top of the
      table: parsing, printing, ownership of the strings; printing is faithful for keys and values without the
      separators.
    - \<^verbatim>\<open>Jstring\<close>: UTF-16 to modified UTF-8 and back (\<^verbatim>\<open>strdup16to8.c\<close>, \<^verbatim>\<open>strdup8to16.c\<close>): the round trip, and the bounds
      of the destination on malformed input.
    - \<^verbatim>\<open>Record_Stream\<close>: the buffer of \<^verbatim>\<open>record_stream.c\<close>; records are delivered whole and in order however their bytes
      arrive.

  Text and containers (\<^verbatim>\<open>libutils\<close>).
    - \<^verbatim>\<open>Unicode\<close>, \<^verbatim>\<open>Unicode_Conv\<close>: the conversions of \<^verbatim>\<open>Unicode.cpp\<close>.  Valid text survives the ways through UTF-8, targets of
      the announced length are never overrun, and validation depends on whether \<^verbatim>\<open>char\<close> is signed.
    - \<^verbatim>\<open>Shared_Buffer\<close>, \<^verbatim>\<open>Vector_Impl\<close>: the reference-counted blocks of \<^verbatim>\<open>SharedBuffer.cpp\<close>, the item loops of
      \<^verbatim>\<open>TypeHelpers.h\<close> and the copy-on-write vector of \<^verbatim>\<open>VectorImpl.cpp\<close> on a heap that vectors share.
    - \<^verbatim>\<open>Vector_Refine\<close>, \<^verbatim>\<open>Vector_Ops\<close>, \<^verbatim>\<open>Vector_Sort\<close>, \<^verbatim>\<open>Vector_World\<close>: reference counts are exact, objects are constructed and
      destroyed once, every program over vectors behaves as over independent lists, an insertion without
      memory is refused and changes nothing or, when a shared block with room had to be copied, aborts,
      sorting is stable; uses that read freed memory or destroy items.

  Properties (\<^verbatim>\<open>leproperties\<close>, \<^verbatim>\<open>libcutils\<close>).  Applications call \<^verbatim>\<open>properties.c\<close>, which sends messages through
  \<^verbatim>\<open>property_ops.c\<close> to the service, which keeps the properties in a list and the persistent ones in a file.
    - \<^verbatim>\<open>Prop_List\<close>: the list of \<^verbatim>\<open>ll.c\<close>.
    - \<^verbatim>\<open>Prop_Service\<close>: lines, files and messages of \<^verbatim>\<open>property_service.c\<close>.  All messages but the one that
      loads the persistent file keep the list well-formed and read-only properties unchanged (the relation
      \<^const>\<open>serves\<close> of sequences of messages), and persistent properties survive a restart.
    - \<^verbatim>\<open>Prop_Client\<close>: the client, with every way a connection fails, over a service with the laws of the locale
      \<^verbatim>\<open>prop_server\<close>, which the service of \<^verbatim>\<open>Prop_Service\<close> satisfies: what is set is read.

  Bounds and fuel.  There is no fuel: loops are structural, have a termination proof, or are partial functions
  whose definedness is part of what is proved (the padding loops of the digests, the conversion of strings,
  the inverse).  The properties assume sizes only where the code needs them, such as fewer than 2^59 buckets,
  messages of fewer than 2^31 bytes per update of a digest (its length is an \<^verbatim>\<open>int\<close>) or blocks of an image of
  fewer than 2^31 bytes, and say how many allocations must succeed.

  Not modelled.  In the modelled libraries: the command line tools of \<^verbatim>\<open>libsparse\<close>, the point arithmetic
  of \<^verbatim>\<open>p256_ec.c\<close> and the check of \<^verbatim>\<open>p256_ecdsa.c\<close> on 29-bit limbs, floating point parameters, locks, log messages,
  sockets and the loop over connections of the property service.  The other directories of \<^verbatim>\<open>src/\<close> are
  daemons, command line tools and wrappers around system calls whose behaviour is that of the kernel, of
  other processes and of threads (adb, init, logd, debuggerd, fastboot, healthd, sdcard and others), or other C++ classes; the manifest lists each of them.
\<close>

end
